(* ===== verification/Shrew_Prelude.thy ===== *)
theory Shrew_Prelude
  imports Main "HOL-Library.Word" "HOL-Library.Monad_Syntax"
begin

unbundle bit_operations_syntax

text \<open>
  What every component of the development shares: names for the machine integers
  of the C and C++ sources, byte buffers whose out-of-range reads are visible as
  \<^const>\<open>None\<close>, bit masks, and the generic lemmas the component proofs rely on.

  \<^item> \<open>rd\<close> and \<open>rdn\<close> are the C reads \<open>p[i]\<close> and \<open>memcpy(dst, p + i, n)\<close> of a buffer
    of known length. Reading past the end is undefined behaviour in C; here it is
    \<^const>\<open>None\<close>, so that memory safety is a theorem about the model.
  \<^item> \<open>agree n p q\<close> says that two buffers hold the same first \<open>n\<close> bytes; reads below
    \<open>n\<close> cannot tell them apart.
  \<^item> \<open>has_flag\<close> is the C idiom \<open>x & F\<close> in a condition.
\<close>

type_synonym u8 = "8 word"
type_synonym u16 = "16 word"
type_synonym u32 = "32 word"
type_synonym u64 = "64 word"
type_synonym bytes = "u8 list"

text \<open>Two bytes as they lie on the wire (the kernel's \<open>__be16\<close>).\<close>

type_synonym be16 = "u8 \<times> u8"

named_theorems need_simps \<open>facts about the bounds check of the packet parser\<close>
named_theorems flag_simps \<open>evaluation of the flag bytes\<close>
named_theorems layout_simps \<open>lengths and offsets of the wire structures\<close>
named_theorems counter_simps \<open>reading a counter after an update\<close>

section \<open>Byte buffers\<close>

definition rd :: "bytes \<Rightarrow> nat \<Rightarrow> u8 option" where
  "rd p i = (if i < length p then Some (p ! i) else None)"

definition rdn :: "bytes \<Rightarrow> nat \<Rightarrow> nat \<Rightarrow> bytes option" where
  "rdn p i n = (if i + n \<le> length p then Some (take n (drop i p)) else None)"

definition agree :: "nat \<Rightarrow> bytes \<Rightarrow> bytes \<Rightarrow> bool" where
  "agree n p q \<longleftrightarrow> n \<le> length p \<and> n \<le> length q \<and> take n p = take n q"

lemma agree_refl: "n \<le> length p \<Longrightarrow> agree n p p"
  by (simp add: agree_def)

lemma agree_take: "n \<le> length p \<Longrightarrow> agree n p (take n p)"
  by (simp add: agree_def)

lemma agree_append: "n \<le> length p \<Longrightarrow> agree n p (p @ q)"
  by (simp add: agree_def)

lemma agree_mono:
  assumes "agree n p q" and "m \<le> n"
  shows "agree m p q"
proof -
  have "take m (take n p) = take m (take n q)"
    using assms(1) by (simp add: agree_def)
  then have "take m p = take m q"
    using assms(2) by (simp add: min_absorb1)
  with assms show ?thesis
    by (simp add: agree_def)
qed

lemma agree_nth:
  assumes "agree n p q" and "i < n"
  shows "p ! i = q ! i"
proof -
  have "take n p ! i = take n q ! i"
    using assms(1) by (simp add: agree_def)
  with assms(2) show ?thesis by simp
qed

lemma rd_agree:
  assumes "agree n p q" and "i < n"
  shows "rd p i = Some (q ! i)" and "rd q i = Some (q ! i)"
  using assms agree_nth [OF assms] by (auto simp: rd_def agree_def)

lemma rdn_agree:
  assumes "agree n p q" and "i + m \<le> n"
  shows "rdn p i m = Some (take m (drop i q))" and "rdn q i m = Some (take m (drop i q))"
proof -
  have "agree (i + m) p q"
    using assms by (rule agree_mono)
  then have "take m (drop i p) = take m (drop i q)"
    by (simp add: agree_def take_drop add.commute)
  with assms show "rdn p i m = Some (take m (drop i q))"
    and "rdn q i m = Some (take m (drop i q))"
    by (auto simp: rdn_def agree_def)
qed

lemma rd_append1 [simp]: "i < length p \<Longrightarrow> rd (p @ q) i = rd p i"
  by (simp add: rd_def nth_append)

lemma rd_append2: "length p \<le> i \<Longrightarrow> rd (p @ q) i = rd q (i - length p)"
  by (auto simp: rd_def nth_append)

lemma rd_append_shift [simp]: "rd (p @ q) (length p + i) = rd q i"
  by (simp add: rd_append2)

lemma length_rdn: "rdn p i n = Some xs \<Longrightarrow> length xs = n"
  by (auto simp: rdn_def split: if_splits)

section \<open>What holds of a result, if there is one\<close>

definition ensures :: "('r \<Rightarrow> bool) \<Rightarrow> 'r option \<Rightarrow> bool" where
  "ensures P m \<longleftrightarrow> (\<forall>r. m = Some r \<longrightarrow> P r)"

lemma ensuresD: "ensures P m \<Longrightarrow> m = Some r \<Longrightarrow> P r"
  by (simp add: ensures_def)

lemma ensures_Some [simp]: "ensures P (Some r) \<longleftrightarrow> P r"
  by (simp add: ensures_def)

lemma ensures_bind [intro]:
  "(\<And>x. m = Some x \<Longrightarrow> ensures P (g x)) \<Longrightarrow> ensures P (Option.bind m g)"
  by (cases m) (auto simp: ensures_def)

lemma ensures_if [intro]:
  "(b \<Longrightarrow> ensures P f) \<Longrightarrow> (\<not> b \<Longrightarrow> ensures P g) \<Longrightarrow> ensures P (if b then f else g)"
  by auto

lemma ensures_prod: "(\<And>a b. x = (a, b) \<Longrightarrow> ensures P (f a b)) \<Longrightarrow> ensures P (case x of (a, b) \<Rightarrow> f a b)"
  by (cases x) auto

section \<open>Bit masks\<close>

definition has_flag :: "'a::len word \<Rightarrow> 'a word \<Rightarrow> bool" where
  "has_flag x m \<longleftrightarrow> x AND m \<noteq> 0"

section \<open>Words as naturals\<close>

lemma unat_add_le:
  fixes a b c :: "'a::len word"
  assumes "a \<le> c" and "b \<le> c - a"
  shows "unat (a + b) = unat a + unat b" and "unat a + unat b \<le> unat c"
proof -
  have "unat b \<le> unat c - unat a"
    using assms by (simp add: word_le_nat_alt unat_sub)
  with assms(1) show le: "unat a + unat b \<le> unat c"
    by (simp add: word_le_nat_alt)
  then have "unat a + unat b < 2 ^ LENGTH('a)"
    using unsigned_less [of c] by (rule le_less_trans)
  then show "unat (a + b) = unat a + unat b"
    by (simp add: unat_word_ariths)
qed

lemma unat_u8_less: "unat (w :: u8) < 256"
  by (rule order.strict_trans2 [OF unsigned_less]) simp

lemma unat_u16_less: "unat (w :: u16) < 65536"
  by (rule order.strict_trans2 [OF unsigned_less]) simp

lemma unat_u32_less: "unat (w :: u32) < 4294967296"
  by (rule order.strict_trans2 [OF unsigned_less]) simp

lemma unat_u64_less: "unat (w :: u64) < 18446744073709551616"
  by (rule order.strict_trans2 [OF unsigned_less]) simp

lemma unat_ucast_u16: "unat (ucast (w :: u16) :: u32) = unat w"
  using unat_u16_less [of w] by (simp add: unsigned_ucast_eq take_bit_nat_eq_self)

lemma unat_less_2:
  fixes w :: u8
  assumes "unat w < 2"
  shows "w = 0 \<or> w = 1"
  using assms by (auto simp: less_2_cases_iff word_unat_eq_iff)

lemma replicate_2: "replicate 2 x = [x, x]"
  by (simp add: numeral_2_eq_2)

lemma replicate_3: "replicate 3 x = [x, x, x]"
  by (simp add: numeral_3_eq_3)

lemma unat_add_small:
  fixes a b :: "'a::len word"
  assumes "unat a + unat b < 2 ^ LENGTH('a)"
  shows "unat (a + b) = unat a + unat b"
  using assms by (simp add: unat_word_ariths)

section \<open>Results that may be errors\<close>

text \<open>
  An exception of the C++ code is the left summand of a result. \<open>andThen\<close> goes on after a
  normal result, \<open>chain\<close> runs a list of fallible updates, \<open>require\<close> is a guard that throws.
\<close>

definition andThen :: "'e + 'a \<Rightarrow> ('a \<Rightarrow> 'e + 'b) \<Rightarrow> 'e + 'b" where
  "andThen r f = (case r of Inl e \<Rightarrow> Inl e | Inr x \<Rightarrow> f x)"

definition chain :: "('a \<Rightarrow> 'e + 'a) list \<Rightarrow> 'a \<Rightarrow> 'e + 'a" where
  "chain fs x = fold (\<lambda>f r. andThen r f) fs (Inr x)"

definition require :: "bool \<Rightarrow> 'e \<Rightarrow> 'a \<Rightarrow> 'e + 'a" where
  "require b e x = (if b then Inr x else Inl e)"

lemma andThen_Inr: "andThen r f = Inr y \<longleftrightarrow> (\<exists>x. r = Inr x \<and> f x = Inr y)"
  by (simp add: andThen_def split: sum.split)

lemma andThen_simps [simp]: "andThen (Inr x) f = f x" "andThen (Inl e) f = Inl e"
  by (simp_all add: andThen_def)

lemma chain_Nil [simp]: "chain [] x = Inr x"
  by (simp add: chain_def)

lemma chain_Cons [simp]: "chain (f # fs) x = andThen (f x) (chain fs)"
proof -
  have err: "fold (\<lambda>f r. andThen r f) fs (Inl e) = Inl e" for e
    by (induction fs) simp_all
  show ?thesis
    by (cases "f x") (simp_all add: chain_def err)
qed

lemma require_Inr: "require b e x = Inr y \<longleftrightarrow> b \<and> y = x"
  by (auto simp: require_def)

lemma require_True [simp]: "b \<Longrightarrow> require b e x = Inr x"
  by (simp add: require_def)

section \<open>Transition systems with an invariant\<close>

text \<open>
  The contract between a component whose threads interleave and its properties: \<open>ok\<close> holds
  where runs start and every step keeps it. Each component interprets it on its own step
  relation.
\<close>

locale invariant_system =
  fixes init :: "'s \<Rightarrow> bool"
    and step :: "'s \<Rightarrow> 's \<Rightarrow> bool"
    and ok :: "'s \<Rightarrow> bool"
  assumes init_ok: "init s \<Longrightarrow> ok s"
    and step_ok: "ok s \<Longrightarrow> step s s' \<Longrightarrow> ok s'"
begin

lemma steps_ok: "step\<^sup>*\<^sup>* s s' \<Longrightarrow> ok s \<Longrightarrow> ok s'"
  by (induction rule: rtranclp_induct) (auto intro: step_ok)

lemma reached_ok: "init s \<Longrightarrow> step\<^sup>*\<^sup>* s s' \<Longrightarrow> ok s'"
  by (rule steps_ok [OF _ init_ok])

text \<open>What holds of an \<open>ok\<close> state and survives every step from \<open>ok\<close> states survives every run.\<close>

lemma steps_keep:
  assumes "step\<^sup>*\<^sup>* s s'" and "ok s" and "P s"
    and "\<And>u v. ok u \<Longrightarrow> P u \<Longrightarrow> step u v \<Longrightarrow> P v"
  shows "P s'"
proof -
  have "ok s' \<and> P s'"
    using assms(1) by (induction rule: rtranclp_induct) (auto intro: assms step_ok)
  then show ?thesis ..
qed

end

end
