(* ===== verification/Packet_Parser.thy ===== *)
theory Packet_Parser
  imports Shrew_Prelude
begin

text \<open>
  The header parser of \<open>bpf/packet_parser.bpf.h\<close> and the tuple it fills
  (\<open>bpf/elephantshrew_shared.h\<close>). The C function \<open>es_parse\<close> runs through the
  Ethernet header, up to two VLAN tags, ARP, IPv4 or IPv6 with its extension
  headers, and the TCP or UDP header, returning from many places. The model keeps
  its order: one definition per stretch of the function, in tail position where C
  falls through to the common transport part.

  A result is \<open>Some (rc, t)\<close>, the status returned and the tuple as it stands at that
  \<open>return\<close>; \<^const>\<open>None\<close> is a read outside the packet buffer or a write outside the
  \<open>vlan\<close> array. Offsets and lengths are \<open>u32\<close> words with C's wrap-around, and
  \<open>p + off\<close> is pointer arithmetic, which does not wrap.
\<close>

section \<open>Data\<close>

datatype es_parse_status =
    ES_PARSE_OK | ES_PARSE_TRUNCATED | ES_PARSE_UNSUPPORTED
  | ES_PARSE_MALFORMED | ES_PARSE_FRAGMENT | ES_PARSE_SKIPPED

fun status_code :: "es_parse_status \<Rightarrow> u8" where
  "status_code ES_PARSE_OK = 0"
| "status_code ES_PARSE_TRUNCATED = 1"
| "status_code ES_PARSE_UNSUPPORTED = 2"
| "status_code ES_PARSE_MALFORMED = 3"
| "status_code ES_PARSE_FRAGMENT = 4"
| "status_code ES_PARSE_SKIPPED = 5"

definition ES_PARSE_BYTES :: u32 where "ES_PARSE_BYTES = 128"

definition ES_T_L2_VALID :: u8 where "ES_T_L2_VALID = push_bit 0 1"

definition ES_T_ADDR_VALID :: u8 where "ES_T_ADDR_VALID = push_bit 1 1"

definition ES_T_PORTS_VALID :: u8 where "ES_T_PORTS_VALID = push_bit 2 1"

definition ES_T_FRAGMENT :: u8 where "ES_T_FRAGMENT = push_bit 3 1"

record es_tuple =
  t_src :: bytes
  t_dst :: bytes
  t_sport :: be16
  t_dport :: be16
  t_ethertype :: u16
  t_vlan :: "u16 list"
  t_ip_version :: u8
  t_l4_proto :: u8
  t_flags :: u8
  t_vlan_count :: u8
  t_reserved :: u16

definition es_tuple_zero :: es_tuple where
  "es_tuple_zero = \<lparr>t_src = replicate 16 0, t_dst = replicate 16 0, t_sport = (0, 0),
     t_dport = (0, 0), t_ethertype = 0, t_vlan = [0, 0], t_ip_version = 0, t_l4_proto = 0,
     t_flags = 0, t_vlan_count = 0, t_reserved = 0\<rparr>"

text \<open>\<open>memcpy\<close> into the front of a fixed-size array.\<close>

definition blit :: "bytes \<Rightarrow> bytes \<Rightarrow> bytes" where
  "blit arr xs = xs @ drop (length xs) arr"

text \<open>\<open>t->vlan[t->vlan_count++] = v\<close>, with the array bound written out.\<close>

definition vlan_push :: "u16 \<Rightarrow> es_tuple \<Rightarrow> es_tuple option" where
  "vlan_push v t =
     (if unat (t_vlan_count t) < length (t_vlan t)
      then Some (t\<lparr>t_vlan := (t_vlan t)[unat (t_vlan_count t) := v],
                   t_vlan_count := t_vlan_count t + 1\<rparr>)
      else None)"

definition add_flag :: "u8 \<Rightarrow> es_tuple \<Rightarrow> es_tuple" where
  "add_flag m t = t\<lparr>t_flags := t_flags t OR m\<rparr>"

section \<open>Helpers\<close>

definition be16_val :: "u8 \<Rightarrow> u8 \<Rightarrow> u16" where
  "be16_val a b = push_bit 8 (ucast a) OR ucast b"

definition es_be16 :: "bytes \<Rightarrow> nat \<Rightarrow> u16 option" where
  "es_be16 p i = do {
     a \<leftarrow> rd p i;
     b \<leftarrow> rd p (i + 1);
     Some (be16_val a b)
   }"

definition es_need :: "u32 \<Rightarrow> u32 \<Rightarrow> u32 \<Rightarrow> u32 \<Rightarrow> es_parse_status" where
  "es_need off n cap endp =
     (if off > endp \<or> n > endp - off then ES_PARSE_MALFORMED
      else if off > cap \<or> n > cap - off then ES_PARSE_TRUNCATED
      else ES_PARSE_OK)"

definition es_vlan :: "u16 \<Rightarrow> bool" where
  "es_vlan ty \<longleftrightarrow> ty = 0x8100 \<or> ty = 0x88a8"

definition es_ext :: "u8 \<Rightarrow> bool" where
  "es_ext next = (next = 0 \<or> next = 43 \<or> next = 60 \<or> next = 51 \<or> next = 44)"

text \<open>\<open>if (rc) return rc;\<close> with what is returned and what follows.\<close>

definition es_guard :: "es_parse_status \<Rightarrow> (es_parse_status \<Rightarrow> 'r) \<Rightarrow> 'r \<Rightarrow> 'r" where
  "es_guard rc ret k = (if rc \<noteq> ES_PARSE_OK then ret rc else k)"

type_synonym parse_result = "(es_parse_status \<times> es_tuple) option"

definition ret :: "es_tuple \<Rightarrow> es_parse_status \<Rightarrow> parse_result" where
  "ret t rc = Some (rc, t)"

text \<open>What a loop of the parser leaves: it returned from the function, or fell through.\<close>

datatype 'a loop_exit = Returned es_parse_status es_tuple | Left 'a

definition stop :: "es_tuple \<Rightarrow> es_parse_status \<Rightarrow> 'a loop_exit option" where
  "stop t rc = Some (Returned rc t)"

section \<open>The parser\<close>

text \<open>Lines 149 to 167: the transport header at offset \<open>l4\<close>.\<close>

definition es_parse_ports :: "bytes \<Rightarrow> u32 \<Rightarrow> es_tuple \<Rightarrow> parse_result" where
  "es_parse_ports p l4 t = do {
     s0 \<leftarrow> rd p (unat l4); s1 \<leftarrow> rd p (unat l4 + 1);
     d0 \<leftarrow> rd p (unat l4 + 2); d1 \<leftarrow> rd p (unat l4 + 3);
     ret (add_flag ES_T_PORTS_VALID (t\<lparr>t_sport := (s0, s1), t_dport := (d0, d1)\<rparr>)) ES_PARSE_OK
   }"

definition es_parse_l4 :: "bytes \<Rightarrow> u32 \<Rightarrow> u32 \<Rightarrow> u32 \<Rightarrow> es_tuple \<Rightarrow> parse_result" where
  "es_parse_l4 p cap endp l4 t =
     (if t_l4_proto t = 6 then
        es_guard (es_need l4 20 cap endp) (ret t) (do {
          b \<leftarrow> rd p (unat (l4 + 12));
          let hlen = ucast (drop_bit 4 b) * (4 :: u32);
          if hlen < 20 \<or> hlen > endp - l4 then ret t ES_PARSE_MALFORMED
          else es_parse_ports p l4 t
        })
      else if t_l4_proto t = 17 then
        es_guard (es_need l4 8 cap endp) (ret t) (do {
          w \<leftarrow> es_be16 p (unat l4 + 4);
          let ulen = (ucast w :: u32);
          if ulen < 8 \<or> ulen > endp - l4 then ret t ES_PARSE_MALFORMED
          else es_parse_ports p l4 t
        })
      else ret t ES_PARSE_OK)"

definition es_parse_arp :: "bytes \<Rightarrow> u32 \<Rightarrow> u32 \<Rightarrow> u32 \<Rightarrow> es_tuple \<Rightarrow> parse_result" where
  "es_parse_arp p cap endp off t =
     es_guard (es_need off 28 cap endp) (ret t) (do {
       hw \<leftarrow> es_be16 p (unat off);
       proto \<leftarrow> es_be16 p (unat off + 2);
       hl \<leftarrow> rd p (unat (off + 4));
       pl \<leftarrow> rd p (unat (off + 5));
       if hw \<noteq> 1 \<or> proto \<noteq> 0x0800 \<or> hl \<noteq> 6 \<or> pl \<noteq> 4 then ret t ES_PARSE_UNSUPPORTED
       else do {
         s \<leftarrow> rdn p (unat off + 14) 4;
         d \<leftarrow> rdn p (unat off + 24) 4;
         ret (add_flag ES_T_ADDR_VALID
               (t\<lparr>t_src := blit (t_src t) s, t_dst := blit (t_dst t) d, t_ip_version := 4\<rparr>))
             ES_PARSE_OK
       }
     })"

definition es_parse_ipv4 :: "bytes \<Rightarrow> u32 \<Rightarrow> u32 \<Rightarrow> u32 \<Rightarrow> es_tuple \<Rightarrow> parse_result" where
  "es_parse_ipv4 p cap endp off t =
     es_guard (es_need off 20 cap endp) (ret t) (do {
       b0 \<leftarrow> rd p (unat off);
       if drop_bit 4 b0 \<noteq> 4 then ret t ES_PARSE_MALFORMED
       else do {
         let ihl = ucast (b0 AND 0x0f) * (4 :: u32);
         w \<leftarrow> es_be16 p (unat off + 2);
         let total = (ucast w :: u32);
         if ihl < 20 \<or> total < ihl \<or> total > endp - off then ret t ES_PARSE_MALFORMED
         else do {
           let endp = off + total;
           es_guard (es_need off ihl cap endp) (ret t) (do {
             proto \<leftarrow> rd p (unat (off + 9));
             s \<leftarrow> rdn p (unat off + 12) 4;
             d \<leftarrow> rdn p (unat off + 16) 4;
             let t = add_flag ES_T_ADDR_VALID
                       (t\<lparr>t_ip_version := 4, t_l4_proto := proto,
                          t_src := blit (t_src t) s, t_dst := blit (t_dst t) d\<rparr>);
             frag \<leftarrow> es_be16 p (unat off + 6);
             if frag AND 0x3fff \<noteq> 0 then ret (add_flag ES_T_FRAGMENT t) ES_PARSE_FRAGMENT
             else es_parse_l4 p cap endp (off + ihl) t
           })
         }
       }
     })"

text \<open>Lines 122 to 141: at most \<open>fuel\<close> (4 in the source) IPv6 extension headers.\<close>

fun es_ext_loop ::
  "nat \<Rightarrow> bytes \<Rightarrow> u32 \<Rightarrow> u32 \<Rightarrow> u32 \<Rightarrow> u8 \<Rightarrow> es_tuple \<Rightarrow> (u32 \<times> u8) loop_exit option" where
  "es_ext_loop 0 p cap endp off next t = Some (Left (off, next))"
| "es_ext_loop (Suc fuel) p cap endp off next t =
     (if \<not> es_ext next then Some (Left (off, next))
      else es_guard (es_need off 2 cap endp) (stop t)
        (if next = 44 then
           es_guard (es_need off 8 cap endp) (stop t) (do {
             b \<leftarrow> rd p (unat off);
             stop (add_flag ES_T_FRAGMENT (t\<lparr>t_l4_proto := b\<rparr>)) ES_PARSE_FRAGMENT
           })
         else do {
           b1 \<leftarrow> rd p (unat (off + 1));
           let ext_len = (if next = 51 then (ucast b1 + 2) * 4 else (ucast b1 + 1) * (8 :: u32));
           if ext_len < 8 then stop t ES_PARSE_MALFORMED
           else es_guard (es_need off ext_len cap endp) (stop t) (do {
             b \<leftarrow> rd p (unat off);
             es_ext_loop fuel p cap endp (off + ext_len) b t
           })
         }))"

definition es_parse_ipv6 :: "bytes \<Rightarrow> u32 \<Rightarrow> u32 \<Rightarrow> u32 \<Rightarrow> es_tuple \<Rightarrow> parse_result" where
  "es_parse_ipv6 p cap endp off t =
     es_guard (es_need off 40 cap endp) (ret t) (do {
       b0 \<leftarrow> rd p (unat off);
       if drop_bit 4 b0 \<noteq> 6 then ret t ES_PARSE_MALFORMED
       else do {
         w \<leftarrow> es_be16 p (unat off + 4);
         let payload = (ucast w :: u32);
         if payload = 0 then ret t ES_PARSE_UNSUPPORTED
         else if payload > endp - off - 40 then ret t ES_PARSE_MALFORMED
         else do {
           let endp = off + 40 + payload;
           next \<leftarrow> rd p (unat (off + 6));
           s \<leftarrow> rdn p (unat off + 8) 16;
           d \<leftarrow> rdn p (unat off + 24) 16;
           let t = add_flag ES_T_ADDR_VALID
                     (t\<lparr>t_ip_version := 6, t_src := blit (t_src t) s, t_dst := blit (t_dst t) d\<rparr>);
           r \<leftarrow> es_ext_loop 4 p cap endp (off + 40) next t;
           case r of
             Returned rc t' \<Rightarrow> ret t' rc
           | Left (off, next) \<Rightarrow>
               (let t = t\<lparr>t_l4_proto := next\<rparr>
                in if es_ext next \<or> next = 50 then ret t ES_PARSE_UNSUPPORTED
                   else es_parse_l4 p cap endp off t)
         }
       }
     })"

text \<open>Lines 54 to 62: at most \<open>fuel\<close> (2 in the source) VLAN tags.\<close>

fun es_vlan_loop ::
  "nat \<Rightarrow> bytes \<Rightarrow> u32 \<Rightarrow> u32 \<Rightarrow> u32 \<Rightarrow> u16 \<Rightarrow> es_tuple
    \<Rightarrow> (u32 \<times> u16 \<times> es_tuple) loop_exit option" where
  "es_vlan_loop 0 p cap endp off ty t = Some (Left (off, ty, t))"
| "es_vlan_loop (Suc fuel) p cap endp off ty t =
     (if \<not> es_vlan ty then Some (Left (off, ty, t))
      else if t_vlan_count t \<ge> 2 then stop t ES_PARSE_UNSUPPORTED
      else es_guard (es_need off 4 cap endp) (stop t) (do {
        tci \<leftarrow> es_be16 p (unat off);
        t \<leftarrow> vlan_push (tci AND 0x0fff) t;
        ty \<leftarrow> es_be16 p (unat off + 2);
        es_vlan_loop fuel p cap endp (off + 4) ty t
      }))"

text \<open>Lines 63 to 147: the network layer, once the VLAN tags are consumed.\<close>

definition es_parse_l3 ::
  "bytes \<Rightarrow> u32 \<Rightarrow> u32 \<Rightarrow> u32 \<Rightarrow> u16 \<Rightarrow> es_tuple \<Rightarrow> parse_result" where
  "es_parse_l3 p cap endp off ty t =
     (let t = t\<lparr>t_ethertype := ty\<rparr>
      in if es_vlan ty then ret t ES_PARSE_UNSUPPORTED
         else if ty = 0x0806 then es_parse_arp p cap endp off t
         else if ty = 0x0800 then es_parse_ipv4 p cap endp off t
         else if ty = 0x86dd then es_parse_ipv6 p cap endp off t
         else ret t ES_PARSE_UNSUPPORTED)"

definition es_parse ::
  "bytes \<Rightarrow> u32 \<Rightarrow> u32 \<Rightarrow> bool \<Rightarrow> u16 \<Rightarrow> parse_result" where
  "es_parse p cap original_len stripped_vlan stripped_vid =
     (let t = es_tuple_zero;
          endp = original_len;
          cap = (if cap > ES_PARSE_BYTES then ES_PARSE_BYTES else cap);
          cap = (if cap > original_len then original_len else cap)
      in es_guard (es_need 0 14 cap endp) (ret t) (do {
        ty \<leftarrow> es_be16 p 12;
        let t = t\<lparr>t_flags := ES_T_L2_VALID\<rparr>;
        t \<leftarrow> (if stripped_vlan then vlan_push (stripped_vid AND 0x0fff) t else Some t);
        r \<leftarrow> es_vlan_loop 2 p cap endp 14 ty t;
        case r of
          Returned rc t' \<Rightarrow> ret t' rc
        | Left (off, ty, t) \<Rightarrow> es_parse_l3 p cap endp off ty t
      }))"

end
