(* ===== verification/Parser_Safety.thy ===== *)
theory Parser_Safety
  imports Packet_Parser
begin

text \<open>
  Safety of the packet parser: what the bounds check \<^const>\<open>es_need\<close> decides, that no
  read leaves the captured prefix, that the answer depends on that prefix only, and
  that a longer capture can change no answer but \<^const>\<open>ES_PARSE_TRUNCATED\<close>.
\<close>

section \<open>The bounds check\<close>

lemma es_need_nat:
  "es_need off n cap endp =
     (if unat endp < unat off + unat n then ES_PARSE_MALFORMED
      else if unat cap < unat off + unat n then ES_PARSE_TRUNCATED
      else ES_PARSE_OK)"
proof -
  have "off > e \<or> n > e - off \<longleftrightarrow> unat e < unat off + unat n" for e :: u32
    by (cases "off \<le> e") (auto simp: word_less_nat_alt word_le_nat_alt unat_sub)
  then show ?thesis by (simp add: es_need_def)
qed

lemma es_need_OK [need_simps]:
  "es_need off n cap endp = ES_PARSE_OK \<longleftrightarrow>
     unat off + unat n \<le> unat cap \<and> unat off + unat n \<le> unat endp"
  by (auto simp: es_need_nat)

lemma need_index:
  fixes off cap k :: u32
  assumes "unat off + n \<le> unat cap" and "unat k \<le> n"
  shows "unat (off + k) = unat off + unat k"
  using assms unat_u32_less [of cap] by (intro unat_add_small) simp

lemma need_less:
  fixes off cap k :: u32
  assumes "unat off + n \<le> unat cap" and "unat k < n"
  shows "unat (off + k) < unat cap"
  using assms need_index [of off n cap k] by simp

lemma es_guard_OK [simp]: "es_guard ES_PARSE_OK r k = k"
  by (simp add: es_guard_def)

lemma es_guard_cong:
  "(rc = ES_PARSE_OK \<Longrightarrow> k = k') \<Longrightarrow> es_guard rc r k = es_guard rc r k'"
  by (simp add: es_guard_def)

lemma es_guard_Some:
  assumes "\<And>c. \<exists>x. r c = Some x" and "rc = ES_PARSE_OK \<Longrightarrow> \<exists>x. k = Some x"
  shows "\<exists>x. es_guard rc r k = Some x"
  using assms by (auto simp: es_guard_def)

lemma ret_Some [simp]: "\<exists>x. ret t rc = Some x" "ret t rc \<noteq> None"
  by (auto simp: ret_def)

lemma stop_Some [simp]: "\<exists>x. stop t rc = Some x" "stop t rc \<noteq> None"
  by (auto simp: stop_def)

section \<open>Every read stays inside the captured prefix\<close>

text \<open>
  \<open>sound n f\<close>: on buffers of at least \<open>n\<close> bytes the piece \<open>f\<close> of the parser never
  reads out of range, and its result is a function of the first \<open>n\<close> bytes.
\<close>

definition sound :: "nat \<Rightarrow> (bytes \<Rightarrow> 'a option) \<Rightarrow> bool" where
  "sound n f \<longleftrightarrow> (\<forall>p q. agree n p q \<longrightarrow> f p = f q \<and> f p \<noteq> None)"

lemma soundD:
  assumes "sound n f" and "agree n p q"
  shows "f p = f q" and "f p \<noteq> None"
  using assms unfolding sound_def by blast+

lemma sound_const [intro]: "c \<noteq> None \<Longrightarrow> sound n (\<lambda>p. c)"
  by (simp add: sound_def)

lemma sound_Some [intro]: "sound n (\<lambda>p. Some c)"
  by (simp add: sound_def)

lemma sound_ret [intro]: "sound n (\<lambda>p. ret t rc)"
  by (simp add: sound_def)

lemma sound_stop [intro]: "sound n (\<lambda>p. stop t rc)"
  by (simp add: sound_def)

lemma sound_rd [intro]: "i < n \<Longrightarrow> sound n (\<lambda>p. rd p i)"
  by (auto simp: sound_def rd_agree)

lemma sound_rdn [intro]: "i + m \<le> n \<Longrightarrow> sound n (\<lambda>p. rdn p i m)"
  by (auto simp: sound_def rdn_agree)

lemma sound_bind [intro]:
  assumes "sound n f" and "\<And>x. sound n (\<lambda>p. g x p)"
  shows "sound n (\<lambda>p. Option.bind (f p) (\<lambda>x. g x p))"
  unfolding sound_def
proof (intro allI impI)
  fix p q
  assume pq: "agree n p q"
  from soundD [OF assms(1) pq] obtain x where "f p = Some x" and "f q = Some x"
    by auto
  with soundD [OF assms(2) pq, of x]
  show "Option.bind (f p) (\<lambda>x. g x p) = Option.bind (f q) (\<lambda>x. g x q) \<and>
    Option.bind (f p) (\<lambda>x. g x p) \<noteq> None"
    by simp
qed

lemma sound_if [intro]:
  assumes "b \<Longrightarrow> sound n f" and "\<not> b \<Longrightarrow> sound n g"
  shows "sound n (\<lambda>p. if b then f p else g p)"
  using assms by (cases b) auto

lemma sound_guard:
  assumes "\<And>c. r c \<noteq> None" and "rc = ES_PARSE_OK \<Longrightarrow> sound n f"
  shows "sound n (\<lambda>p. es_guard rc r (f p))"
  using assms by (cases "rc = ES_PARSE_OK") (auto simp: es_guard_def intro: sound_const)

lemma sound_be16 [intro]: "Suc i < n \<Longrightarrow> sound n (\<lambda>p. es_be16 p i)"
  unfolding es_be16_def by (intro sound_bind sound_rd sound_Some) auto

lemma sound_ports:
  assumes "unat l4 + 4 \<le> n"
  shows "sound n (\<lambda>p. es_parse_ports p l4 t)"
  unfolding es_parse_ports_def using assms by (intro sound_bind sound_rd sound_ret) auto

lemma sound_l4: "sound (unat cap) (\<lambda>p. es_parse_l4 p cap endp l4 t)"
  unfolding es_parse_l4_def Let_def
  by (intro sound_if sound_guard sound_bind sound_rd sound_be16 sound_ports sound_ret)
    (auto simp: need_simps need_less [of l4 20 cap])

lemma sound_arp: "sound (unat cap) (\<lambda>p. es_parse_arp p cap endp off t)"
  unfolding es_parse_arp_def
  by (intro sound_if sound_guard sound_bind sound_rd sound_rdn sound_be16 sound_ret)
    (auto simp: need_simps need_less [of off 28 cap])

lemma sound_ipv4: "sound (unat cap) (\<lambda>p. es_parse_ipv4 p cap endp off t)"
  unfolding es_parse_ipv4_def Let_def
  by (intro sound_if sound_guard sound_bind sound_rd sound_rdn sound_be16 sound_ret sound_l4)
    (auto simp: need_simps need_less [of off 20 cap])

lemma sound_ext_loop:
  "sound (unat cap) (\<lambda>p. es_ext_loop fuel p cap endp off next t)"
proof (induction fuel arbitrary: off "next" t)
  case 0
  show ?case by (simp add: sound_Some)
next
  case (Suc fuel)
  show ?case
    unfolding es_ext_loop.simps Let_def
    by (intro sound_if sound_guard sound_bind sound_rd sound_Some sound_stop Suc.IH)
      (auto simp: need_simps need_less [of off 2 cap])
qed

lemma sound_loop_exit [intro]:
  assumes "\<And>rc t. sound n (f rc t)" and "\<And>x. sound n (g x)"
  shows "sound n (\<lambda>p. case r of Returned rc t \<Rightarrow> f rc t p | Left x \<Rightarrow> g x p)"
  using assms by (cases r) auto

lemma sound_prod: "(\<And>a b. sound n (f a b)) \<Longrightarrow> sound n (\<lambda>p. case x of (a, b) \<Rightarrow> f a b p)"
  by (cases x) auto

lemma sound_ipv6: "sound (unat cap) (\<lambda>p. es_parse_ipv6 p cap endp off t)"
  unfolding es_parse_ipv6_def Let_def
  by (intro sound_if sound_guard sound_bind sound_rd sound_rdn sound_be16 sound_ret sound_l4
      sound_ext_loop sound_loop_exit sound_prod)
    (auto simp: need_simps need_less [of off 40 cap])

lemma sound_l3: "sound (unat cap) (\<lambda>p. es_parse_l3 p cap endp off ty t)"
  unfolding es_parse_l3_def Let_def
  by (intro sound_if sound_ret sound_arp sound_ipv4 sound_ipv6)

section \<open>Room in the VLAN array\<close>

definition vlan_room :: "es_tuple \<Rightarrow> bool" where
  "vlan_room t \<longleftrightarrow> length (t_vlan t) = 2 \<and> t_vlan_count t \<le> 2"

lemma vlan_push_Some:
  assumes "vlan_room t" and "t_vlan_count t < 2"
  obtains t' where "vlan_push v t = Some t'" and "vlan_room t'"
proof -
  have "t_vlan_count t + 1 \<le> 2"
    using assms(2) by (simp add: inc_le)
  with assms show thesis
    by (intro that [of "t\<lparr>t_vlan := (t_vlan t)[unat (t_vlan_count t) := v],
        t_vlan_count := t_vlan_count t + 1\<rparr>"])
      (auto simp: vlan_push_def vlan_room_def word_less_nat_alt)
qed

lemma sound_vlan_loop:
  "vlan_room t \<Longrightarrow> sound (unat cap) (\<lambda>p. es_vlan_loop fuel p cap endp off ty t)"
proof (induction fuel arbitrary: off ty t)
  case 0
  show ?case by (simp add: sound_Some)
next
  case (Suc fuel)
  have push: "sound (unat cap) (\<lambda>p. Option.bind (vlan_push v t)
      (\<lambda>t. Option.bind (es_be16 p (unat off + 2)) (\<lambda>ty. es_vlan_loop fuel p cap endp (off + 4) ty t)))"
    if room: "\<not> 2 \<le> t_vlan_count t" and need: "unat off + 4 \<le> unat cap" for v
  proof -
    from Suc.prems room obtain t' where "vlan_push v t = Some t'" and "vlan_room t'"
      by (meson not_le vlan_push_Some)
    have "sound (unat cap) (\<lambda>p. Option.bind (es_be16 p (unat off + 2))
        (\<lambda>ty. es_vlan_loop fuel p cap endp (off + 4) ty t'))"
      using need by (intro sound_bind sound_be16 Suc.IH \<open>vlan_room t'\<close>) auto
    with \<open>vlan_push v t = Some t'\<close> show ?thesis by simp
  qed
  show ?case
    unfolding es_vlan_loop.simps
    by (intro sound_if sound_guard sound_Some sound_stop sound_bind
        [where f = "\<lambda>p. es_be16 p (unat off)"] sound_be16 push) (auto simp: need_simps)
qed

section \<open>The whole parser\<close>

text \<open>The number of bytes \<^const>\<open>es_parse\<close> may look at.\<close>

definition parse_window :: "u32 \<Rightarrow> u32 \<Rightarrow> u32" where
  "parse_window cap original_len =
     (let cap = (if cap > ES_PARSE_BYTES then ES_PARSE_BYTES else cap)
      in if cap > original_len then original_len else cap)"

lemma unat_parse_window:
  "unat (parse_window cap len) = min (unat cap) (min 128 (unat len))"
  by (simp add: parse_window_def ES_PARSE_BYTES_def Let_def word_less_nat_alt min_def)

lemma sound_es_parse:
  "sound (unat (parse_window cap len)) (\<lambda>p. es_parse p cap len sv vid)"
proof -
  let ?w = "parse_window cap len"
  have room: "vlan_room (es_tuple_zero\<lparr>t_flags := ES_T_L2_VALID\<rparr>)"
    and zero: "t_vlan_count (es_tuple_zero\<lparr>t_flags := ES_T_L2_VALID\<rparr>) < 2"
    by (auto simp: vlan_room_def es_tuple_zero_def)
  have body: "sound (unat ?w) (\<lambda>p. Option.bind
      (if sv then vlan_push v (es_tuple_zero\<lparr>t_flags := ES_T_L2_VALID\<rparr>)
       else Some (es_tuple_zero\<lparr>t_flags := ES_T_L2_VALID\<rparr>))
      (\<lambda>t. Option.bind (es_vlan_loop 2 p ?w len 14 ty t)
        (\<lambda>r. case r of Returned rc t' \<Rightarrow> ret t' rc
          | Left x \<Rightarrow> (case x of (off, y) \<Rightarrow>
              (case y of (ty, t) \<Rightarrow> es_parse_l3 p ?w len off ty t)))))" for v ty
  proof -
    obtain t where "(if sv then vlan_push v (es_tuple_zero\<lparr>t_flags := ES_T_L2_VALID\<rparr>)
        else Some (es_tuple_zero\<lparr>t_flags := ES_T_L2_VALID\<rparr>)) = Some t" and "vlan_room t"
      using vlan_push_Some [OF room zero] room by (metis (full_types))
    then show ?thesis
      by (auto intro!: sound_bind sound_vlan_loop sound_loop_exit sound_prod sound_l3)
  qed
  show ?thesis
    unfolding es_parse_def Let_def parse_window_def [unfolded Let_def, symmetric]
    by (intro sound_guard sound_bind [where f = "\<lambda>p. es_be16 p 12"] sound_be16 body)
      (auto simp: need_simps)
qed

section \<open>Properties\<close>

text \<open>
  C3: The parser is memory safe and depends on the capture only. Given a buffer with the
  captured bytes, it never reads past them (nor past 128 bytes, nor past the packet), never
  writes past the VLAN array, and cutting the buffer down to exactly those bytes gives the
  same status and tuple.
\<close>

theorem es_parse_in_bounds:
  assumes "min (unat cap) (min 128 (unat len)) \<le> length p"
  shows "\<exists>rc t. es_parse p cap len sv vid = Some (rc, t) \<and>
    es_parse (take (min (unat cap) (min 128 (unat len))) p) cap len sv vid = Some (rc, t)"
proof -
  let ?n = "unat (parse_window cap len)"
  have "agree ?n p (take ?n p)"
    using assms by (intro agree_take) (simp add: unat_parse_window)
  with sound_es_parse have "es_parse p cap len sv vid = es_parse (take ?n p) cap len sv vid"
    and "es_parse p cap len sv vid \<noteq> None"
    by (rule soundD)+
  then show ?thesis by (auto simp: unat_parse_window)
qed

theorem es_parse_in_bounds_witness:
  "\<exists>rc t. es_parse (replicate 20 8) 20 60 False 0 = Some (rc, t) \<and>
    es_parse (take (min 20 (min 128 60)) (replicate 20 8)) 20 60 False 0 = Some (rc, t)"
  using es_parse_in_bounds [of 20 60 "replicate 20 8" False 0] by simp

text \<open>
  The bounds check of the parser does not overflow. Whatever 32-bit offset and length
  it is given, it answers MALFORMED exactly when the range passes the end of the packet,
  TRUNCATED when it only passes the capture, and OK when it fits both, the sums taken over
  the naturals.
\<close>

theorem es_need_exact:
  "es_need off n cap endp =
     (if unat endp < unat off + unat n then ES_PARSE_MALFORMED
      else if unat cap < unat off + unat n then ES_PARSE_TRUNCATED
      else ES_PARSE_OK)"
  by (rule es_need_nat)

end
