(* ===== verification/Parser_Capture.thy ===== *)
theory Parser_Capture
  imports Parser_Safety
begin

text \<open>
  How the answer of the parser depends on the length of the capture. The pieces of the
  parser are functions of the capture length; \<open>stable\<close> says that a longer capture
  keeps every answer but a truncation, \<open>complete\<close> that a capture of the whole frame
  gives no truncation at all. Both are proved by following the structure of the code.
\<close>

section \<open>A longer capture keeps every definite answer\<close>

fun truncated :: "es_parse_status \<times> es_tuple \<Rightarrow> bool" where
  "truncated (rc, t) \<longleftrightarrow> rc = ES_PARSE_TRUNCATED"

fun truncated_exit :: "'a loop_exit \<Rightarrow> bool" where
  "truncated_exit (Returned rc t) \<longleftrightarrow> rc = ES_PARSE_TRUNCATED"
| "truncated_exit (Left x) \<longleftrightarrow> False"

definition stable :: "('r \<Rightarrow> bool) \<Rightarrow> u32 \<Rightarrow> u32 \<Rightarrow> (u32 \<Rightarrow> 'r option) \<Rightarrow> bool" where
  "stable tr c c' f \<longleftrightarrow> (\<forall>r. f c = Some r \<longrightarrow> \<not> tr r \<longrightarrow> f c' = Some r)"

lemma stable_const [intro]: "stable tr c c' (\<lambda>_. k)"
  by (simp add: stable_def)

lemma stable_bind [intro]:
  "(\<And>x. stable tr c c' (g x)) \<Longrightarrow> stable tr c c' (\<lambda>c. Option.bind m (\<lambda>x. g x c))"
  by (cases m) (auto simp: stable_def)

lemma stable_if [intro]:
  "(b \<Longrightarrow> stable tr c c' f) \<Longrightarrow> (\<not> b \<Longrightarrow> stable tr c c' g)
    \<Longrightarrow> stable tr c c' (\<lambda>c. if b then f c else g c)"
  by (cases b) auto

lemma stable_exit [intro]:
  assumes "stable truncated_exit c c' m" and "\<And>x. stable truncated c c' (g x)"
  shows "stable truncated c c'
    (\<lambda>c. Option.bind (m c) (\<lambda>r. case r of Returned rc t \<Rightarrow> ret t rc | Left x \<Rightarrow> g x c))"
  using assms unfolding stable_def
  by (auto simp: ret_def split: loop_exit.splits Option.bind_splits)

lemma stable_prod:
  "(\<And>a b. stable tr c c' (\<lambda>c. f a b c)) \<Longrightarrow> stable tr c c' (\<lambda>c. case x of (a, b) \<Rightarrow> f a b c)"
  by (cases x) auto

lemma need_mono:
  assumes "c \<le> c'" and "es_need off n c endp \<noteq> ES_PARSE_TRUNCATED"
  shows "es_need off n c' endp = es_need off n c endp"
  using assms by (auto simp: es_need_nat word_le_nat_alt split: if_splits)

lemma stable_guard:
  assumes "c \<le> c'" and "\<And>rc. stable tr c c' (\<lambda>_. r rc)"
    and "\<And>x. r ES_PARSE_TRUNCATED = Some x \<Longrightarrow> tr x"
    and "stable tr c c' f"
  shows "stable tr c c' (\<lambda>c. es_guard (es_need off n c endp) r (f c))"
proof (cases "es_need off n c endp = ES_PARSE_TRUNCATED")
  case True
  with assms(3) show ?thesis by (auto simp: stable_def es_guard_def)
next
  case False
  then have "es_need off n c' endp = es_need off n c endp"
    by (rule need_mono [OF assms(1)])
  with assms(2,4) show ?thesis by (simp add: stable_def es_guard_def)
qed

lemma stable_guard_ret:
  "c \<le> c' \<Longrightarrow> stable truncated c c' f
    \<Longrightarrow> stable truncated c c' (\<lambda>c. es_guard (es_need off n c endp) (ret t) (f c))"
  by (rule stable_guard) (auto simp: ret_def)

lemma stable_guard_stop:
  "c \<le> c' \<Longrightarrow> stable truncated_exit c c' f
    \<Longrightarrow> stable truncated_exit c c' (\<lambda>c. es_guard (es_need off n c endp) (stop t) (f c))"
  by (rule stable_guard) (auto simp: stop_def)

lemmas stable_intros =
  stable_if stable_guard_ret stable_guard_stop stable_exit stable_prod stable_bind stable_const

lemma stable_l4: "c \<le> c' \<Longrightarrow> stable truncated c c' (\<lambda>c. es_parse_l4 p c endp l4 t)"
  unfolding es_parse_l4_def Let_def by (intro stable_intros)

lemma stable_arp: "c \<le> c' \<Longrightarrow> stable truncated c c' (\<lambda>c. es_parse_arp p c endp off t)"
  unfolding es_parse_arp_def by (intro stable_intros)

lemma stable_ipv4: "c \<le> c' \<Longrightarrow> stable truncated c c' (\<lambda>c. es_parse_ipv4 p c endp off t)"
  unfolding es_parse_ipv4_def Let_def
  by (intro stable_l4 stable_if stable_guard_ret stable_bind) auto

lemma stable_ext_loop:
  "c \<le> c' \<Longrightarrow> stable truncated_exit c c' (\<lambda>c. es_ext_loop fuel p c endp off next t)"
proof (induction fuel arbitrary: off "next" t)
  case 0
  show ?case by (simp add: stable_const)
next
  case (Suc fuel)
  show ?case
    unfolding es_ext_loop.simps Let_def
    by (intro stable_if stable_guard_stop stable_bind Suc.IH Suc.prems) auto
qed

lemma stable_ipv6: "c \<le> c' \<Longrightarrow> stable truncated c c' (\<lambda>c. es_parse_ipv6 p c endp off t)"
  unfolding es_parse_ipv6_def Let_def
  by (intro stable_l4 stable_if stable_guard_ret stable_exit stable_ext_loop stable_prod
      stable_bind) auto

lemma stable_l3: "c \<le> c' \<Longrightarrow> stable truncated c c' (\<lambda>c. es_parse_l3 p c endp off ty t)"
  unfolding es_parse_l3_def Let_def
  by (intro stable_arp stable_ipv4 stable_ipv6 stable_if) auto

lemma stable_vlan_loop:
  "c \<le> c' \<Longrightarrow> stable truncated_exit c c' (\<lambda>c. es_vlan_loop fuel p c endp off ty t)"
proof (induction fuel arbitrary: off ty t)
  case 0
  show ?case by (simp add: stable_const)
next
  case (Suc fuel)
  show ?case
    unfolding es_vlan_loop.simps Let_def
    by (intro stable_if stable_guard_stop stable_bind Suc.IH Suc.prems) auto
qed

definition es_parse_window :: "bytes \<Rightarrow> u32 \<Rightarrow> bool \<Rightarrow> u16 \<Rightarrow> u32 \<Rightarrow> parse_result" where
  "es_parse_window p original_len sv vid w =
     es_guard (es_need 0 14 w original_len) (ret es_tuple_zero) (do {
       ty \<leftarrow> es_be16 p 12;
       t \<leftarrow> (if sv then vlan_push (vid AND 0x0fff) (es_tuple_zero\<lparr>t_flags := ES_T_L2_VALID\<rparr>)
            else Some (es_tuple_zero\<lparr>t_flags := ES_T_L2_VALID\<rparr>));
       r \<leftarrow> es_vlan_loop 2 p w original_len 14 ty t;
       case r of
         Returned rc t' \<Rightarrow> ret t' rc
       | Left (off, ty, t) \<Rightarrow> es_parse_l3 p w original_len off ty t
     })"

lemma es_parse_by_window:
  "es_parse p cap len sv vid = es_parse_window p len sv vid (parse_window cap len)"
  by (simp add: es_parse_def es_parse_window_def parse_window_def Let_def)

lemma stable_window:
  "c \<le> c' \<Longrightarrow> stable truncated c c' (es_parse_window p len sv vid)"
  unfolding es_parse_window_def
  by (intro stable_guard_ret stable_exit stable_vlan_loop stable_l3 stable_prod stable_bind)

lemma parse_window_mono: "cap \<le> cap' \<Longrightarrow> parse_window cap len \<le> parse_window cap' len"
  unfolding word_le_nat_alt unat_parse_window by (rule min.mono) simp_all

section \<open>A complete capture is never a truncation\<close>

abbreviation complete :: "('r \<Rightarrow> bool) \<Rightarrow> 'r option \<Rightarrow> bool" where
  "complete tr m \<equiv> ensures (\<lambda>r. \<not> tr r) m"

lemma complete_ret [intro]: "rc \<noteq> ES_PARSE_TRUNCATED \<Longrightarrow> complete truncated (ret t rc)"
  by (simp add: ret_def)

lemma complete_stop [intro]: "rc \<noteq> ES_PARSE_TRUNCATED \<Longrightarrow> complete truncated_exit (stop t rc)"
  by (simp add: stop_def)

lemma complete_Left [intro]: "complete truncated_exit (Some (Left x))"
  by simp

lemma need_complete: "endp \<le> c \<Longrightarrow> es_need off n c endp \<noteq> ES_PARSE_TRUNCATED"
  by (auto simp: es_need_nat word_le_nat_alt)

lemma complete_guard_ret:
  assumes "endp \<le> c" and "off + n \<le> endp \<Longrightarrow> off \<le> endp \<Longrightarrow> complete truncated k"
  shows "complete truncated (es_guard (es_need off n c endp) (ret t) k)"
proof (cases "es_need off n c endp = ES_PARSE_OK")
  case True
  then have n: "unat off + unat n \<le> unat endp"
    by (simp add: need_simps)
  then have "unat (off + n) = unat off + unat n"
    using unat_u32_less [of endp] by (intro unat_add_small) simp
  with n have "off + n \<le> endp" and "off \<le> endp"
    by (simp_all add: word_le_nat_alt)
  with True show ?thesis by (simp add: assms(2))
next
  case False
  with need_complete [OF assms(1), of off n] show ?thesis
    by (auto simp: es_guard_def)
qed

lemma complete_guard_stop:
  assumes "endp \<le> c" and "complete truncated_exit k"
  shows "complete truncated_exit (es_guard (es_need off n c endp) (stop t) k)"
  using assms need_complete [OF assms(1), of off n] by (auto simp: es_guard_def)

lemma complete_exit [intro]:
  assumes "complete truncated_exit m" and "\<And>x. complete truncated (g x)"
  shows "complete truncated
    (Option.bind m (\<lambda>r. case r of Returned rc t \<Rightarrow> ret t rc | Left x \<Rightarrow> g x))"
  using assms unfolding ensures_def
  by (auto simp: ret_def split: loop_exit.splits Option.bind_splits)

lemma complete_ports: "complete truncated (es_parse_ports p l4 t)"
  unfolding es_parse_ports_def by (intro ensures_bind complete_ret) auto

lemma complete_l4: "endp \<le> c \<Longrightarrow> complete truncated (es_parse_l4 p c endp l4 t)"
  unfolding es_parse_l4_def Let_def
  by (intro ensures_if complete_guard_ret ensures_bind complete_ports complete_ret) auto

lemma complete_arp: "endp \<le> c \<Longrightarrow> complete truncated (es_parse_arp p c endp off t)"
  unfolding es_parse_arp_def
  by (intro ensures_if complete_guard_ret ensures_bind complete_ret) auto

lemma inner_end:
  fixes off n endp c :: u32
  assumes "off \<le> endp" and "n \<le> endp - off" and "endp \<le> c"
  shows "off + n \<le> c"
  using unat_add_le [OF assms(1,2)] assms(3) by (simp add: word_le_nat_alt)

lemma complete_ipv4: "endp \<le> c \<Longrightarrow> complete truncated (es_parse_ipv4 p c endp off t)"
  unfolding es_parse_ipv4_def Let_def
  by (intro complete_l4 ensures_if complete_guard_ret ensures_bind complete_ret)
    (auto intro: inner_end)

lemma complete_ext_loop:
  "endp \<le> c \<Longrightarrow> complete truncated_exit (es_ext_loop fuel p c endp off next t)"
proof (induction fuel arbitrary: off "next" t)
  case 0
  show ?case by (simp add: complete_Left)
next
  case (Suc fuel)
  show ?case
    unfolding es_ext_loop.simps Let_def
    by (intro ensures_if complete_guard_stop ensures_bind complete_stop complete_Left
        Suc.IH Suc.prems) auto
qed

lemma complete_ipv6: "endp \<le> c \<Longrightarrow> complete truncated (es_parse_ipv6 p c endp off t)"
  unfolding es_parse_ipv6_def Let_def
  by (intro complete_l4 ensures_if complete_guard_ret complete_exit complete_ext_loop
      ensures_prod ensures_bind complete_ret)
    (auto intro: inner_end simp: diff_diff_eq)

lemma complete_l3: "endp \<le> c \<Longrightarrow> complete truncated (es_parse_l3 p c endp off ty t)"
  unfolding es_parse_l3_def Let_def
  by (intro complete_arp complete_ipv4 complete_ipv6 ensures_if complete_ret) auto

lemma complete_vlan_loop:
  "endp \<le> c \<Longrightarrow> complete truncated_exit (es_vlan_loop fuel p c endp off ty t)"
proof (induction fuel arbitrary: off ty t)
  case 0
  show ?case by (simp add: complete_Left)
next
  case (Suc fuel)
  show ?case
    unfolding es_vlan_loop.simps Let_def
    by (intro ensures_if complete_guard_stop ensures_bind complete_stop complete_Left
        Suc.IH Suc.prems) auto
qed

lemma complete_window: "complete truncated (es_parse_window p len sv vid len)"
  unfolding es_parse_window_def
  by (intro complete_guard_ret complete_exit complete_vlan_loop complete_l3 ensures_prod
      ensures_bind) auto

section \<open>Properties\<close>

text \<open>
  C5: TRUNCATED is the only answer that depends on how much of the packet was captured:
  every other status, with its tuple, is unchanged under a longer capture.
\<close>

theorem es_parse_longer_capture:
  assumes "es_parse p cap len sv vid = Some (rc, t)" and "rc \<noteq> ES_PARSE_TRUNCATED"
    and "cap \<le> cap'"
  shows "es_parse p cap' len sv vid = Some (rc, t)"
  using assms(1,2) stable_window [OF parse_window_mono [OF assms(3)], of len p len sv vid]
  by (simp add: es_parse_by_window stable_def)

theorem es_parse_longer_capture_witness:
  "es_parse (replicate 12 0 @ [8, 6] @ replicate 40 0) 54 54 False 0 =
   es_parse (replicate 12 0 @ [8, 6] @ replicate 40 0) 42 54 False 0"
proof -
  have "map_option fst (es_parse (replicate 12 0 @ [8, 6] @ replicate 40 0) 42 54 False 0) =
    Some ES_PARSE_UNSUPPORTED"
    by code_simp
  then obtain t where "es_parse (replicate 12 0 @ [8, 6] @ replicate 40 0) 42 54 False 0 =
    Some (ES_PARSE_UNSUPPORTED, t)" by auto
  from this es_parse_longer_capture [OF this, of 54] show ?thesis by simp
qed

text \<open>
  A packet captured whole is never reported as truncated: once the capture covers the
  packet, or the packet's length field is within the 128 bytes the parser looks at and
  within the capture, the status is a definite one.
\<close>

theorem es_parse_whole_packet:
  assumes "len \<le> cap" and "len \<le> ES_PARSE_BYTES"
    and "es_parse p cap len sv vid = Some (rc, t)"
  shows "rc \<noteq> ES_PARSE_TRUNCATED"
proof -
  have "parse_window cap len = len"
    using assms(1,2) by (auto simp: parse_window_def Let_def)
  with assms(3) complete_window [of p len sv vid] show ?thesis
    by (auto simp: es_parse_by_window dest: ensuresD)
qed

theorem es_parse_whole_packet_witness:
  "fst (the (es_parse (replicate 20 8) 20 20 False 0)) \<noteq> ES_PARSE_TRUNCATED"
proof -
  have "map_option fst (es_parse (replicate 20 8) 20 20 False 0) = Some ES_PARSE_UNSUPPORTED"
    by code_simp
  then obtain t where "es_parse (replicate 20 8) 20 20 False 0 = Some (ES_PARSE_UNSUPPORTED, t)"
    by auto
  from this es_parse_whole_packet [OF _ _ this] show ?thesis
    by (simp add: ES_PARSE_BYTES_def)
qed

end
