(* ===== verification/Parser_Frames.thy ===== *)
theory Parser_Frames
  imports Parser_Safety
begin

text \<open>
  Frames as a sender would build them, and that the parser reads back what was put in.
  The builders are the abstract specification: they write headers from their fields
  (Ethernet with VLAN tags, ARP, IPv4 with options, IPv6 with extension headers, TCP
  with options, UDP), followed by payload and link padding. Nothing here models code;
  the theorems relate these frames to \<^const>\<open>es_parse\<close>.
\<close>

section \<open>Network byte order\<close>

definition be16_bytes :: "u16 \<Rightarrow> bytes" where
  "be16_bytes w = [ucast (drop_bit 8 w), ucast w]"

lemma be16_val_bytes [simp]: "be16_val (ucast (drop_bit 8 w)) (ucast w) = w"
proof (rule bit_word_eqI)
  fix n
  assume "n < LENGTH(16)"
  then have "n < 16" by simp
  then show "bit (be16_val (ucast (drop_bit 8 w)) (ucast w)) n = bit w n"
    by (cases "n < 8")
      (auto simp: be16_val_def bit_or_iff bit_push_bit_iff bit_ucast_iff bit_drop_bit_eq)
qed

lemma length_be16_bytes [simp]: "length (be16_bytes w) = 2"
  by (simp add: be16_bytes_def)

lemma es_be16_bytes [simp]: "es_be16 (pre @ be16_bytes w @ post) (length pre) = Some w"
  by (simp add: es_be16_def rd_def be16_bytes_def nth_append)

section \<open>Reading segments\<close>

lemma rd_0 [simp]: "rd (x # xs) 0 = Some x"
  by (simp add: rd_def)

lemma rd_Suc [simp]: "rd (x # xs) (Suc i) = rd xs i"
  by (simp add: rd_def)

lemma rd_numeral [simp]: "rd (x # xs) (numeral k) = rd xs (pred_numeral k)"
  by (simp add: numeral_eq_Suc)

lemma es_be16_at [simp]: "es_be16 (pre @ xs) (length pre + i) = es_be16 xs i"
  using rd_append_shift [of pre xs "Suc i"] by (simp add: es_be16_def)

lemma es_be16_at0 [simp]: "es_be16 (pre @ xs) (length pre) = es_be16 xs 0"
  using es_be16_at [of pre xs 0] by simp

lemma rd_at0 [simp]: "rd (pre @ xs) (length pre) = rd xs 0"
  using rd_append_shift [of pre xs 0] by simp

lemma rdn_seg:
  "i = length pre \<Longrightarrow> n = length xs \<Longrightarrow> rdn (pre @ xs @ post) i n = Some xs"
  by (simp add: rdn_def)

lemma rdn_at: "rdn (pre @ xs) (length pre + i) n = rdn xs i n"
  by (simp add: rdn_def)

section \<open>Ethernet and VLAN tags\<close>

text \<open>A tag is a service tag or not (TPID 0x88a8 or 0x8100) and its TCI.\<close>

type_synonym vlan_tag = "bool \<times> u16"

fun tpid :: "vlan_tag \<Rightarrow> u16" where
  "tpid (service, tci) = (if service then 0x88a8 else 0x8100)"

fun tag_id :: "vlan_tag \<Rightarrow> u16" where
  "tag_id (service, tci) = tci AND 0x0fff"

fun tag_bytes :: "vlan_tag \<Rightarrow> bytes" where
  "tag_bytes (service, tci) = be16_bytes (tpid (service, tci)) @ be16_bytes tci"

definition eth_frame :: "bytes \<Rightarrow> vlan_tag list \<Rightarrow> u16 \<Rightarrow> bytes \<Rightarrow> bytes" where
  "eth_frame macs tags ty payload = macs @ concat (map tag_bytes tags) @ be16_bytes ty @ payload"

definition l2_tuple :: "u16 list \<Rightarrow> es_tuple" where
  "l2_tuple vids = es_tuple_zero\<lparr>t_flags := ES_T_L2_VALID, t_vlan := take 2 (vids @ [0, 0]),
     t_vlan_count := word_of_nat (length vids)\<rparr>"

lemma es_vlan_tpid [simp]: "es_vlan (tpid tag)"
  by (cases tag) (simp add: es_vlan_def)

lemma vlan_push_l2_tuple:
  assumes "length vids < 2"
  shows "vlan_push v (l2_tuple vids) = Some (l2_tuple (vids @ [v]))"
  using assms
  by (cases vids; cases "tl vids")
    (auto simp: vlan_push_def l2_tuple_def es_tuple_zero_def)

lemma l2_tuple_count:
  "length vids \<le> 2 \<Longrightarrow> (2 \<le> t_vlan_count (l2_tuple vids)) = (length vids = 2)"
  by (cases vids; cases "tl vids") (auto simp: l2_tuple_def word_le_nat_alt)

fun first_type :: "vlan_tag list \<Rightarrow> u16 \<Rightarrow> u16" where
  "first_type [] ty = ty"
| "first_type (tag # tags) ty = tpid tag"

fun after_type :: "vlan_tag list \<Rightarrow> u16 \<Rightarrow> bytes" where
  "after_type [] ty = []"
| "after_type (tag # tags) ty = be16_bytes (snd tag) @ be16_bytes (first_type tags ty) @ after_type tags ty"

lemma tags_then_type:
  "concat (map tag_bytes tags) @ be16_bytes ty @ xs =
   be16_bytes (first_type tags ty) @ after_type tags ty @ xs"
  by (induction tags) auto

lemma length_after_type [simp]: "length (after_type tags ty) = 4 * length tags"
  by (induction tags) auto

lemma vlan_loop_frame:
  assumes "p = pre @ after_type tags ty @ post" and "unat off = length pre"
    and "length tags \<le> fuel" and "length vids + length tags \<le> 2"
    and "length pre + 4 * length tags \<le> unat cap" and "length pre + 4 * length tags \<le> unat endp"
    and "\<not> es_vlan ty"
  shows "es_vlan_loop fuel p cap endp off (first_type tags ty) (l2_tuple vids) =
    Some (Left (off + 4 * word_of_nat (length tags), ty, l2_tuple (vids @ map tag_id tags)))"
  using assms
proof (induction fuel arbitrary: pre tags off vids)
  case 0
  then show ?case by simp
next
  case (Suc fuel)
  show ?case
  proof (cases tags)
    case Nil
    with Suc.prems show ?thesis by simp
  next
    case (Cons tag tags')
    obtain service tci where tag: "tag = (service, tci)" by (cases tag)
    let ?post = "be16_bytes (first_type tags' ty) @ after_type tags' ty @ post"
    have p: "p = pre @ be16_bytes tci @ ?post"
      and p2: "p = (pre @ be16_bytes tci) @ ?post"
      and p4: "p = (pre @ be16_bytes tci @ be16_bytes (first_type tags' ty)) @ after_type tags' ty @ post"
      using Suc.prems(1) by (simp_all add: Cons tag)
    have off4: "unat (off + 4) = unat off + 4"
      using Suc.prems(2,5) need_index [of off 4 cap 4] by (simp add: Cons)
    have r0: "es_be16 p (unat off) = Some tci"
      unfolding Suc.prems(2) p by (rule es_be16_bytes)
    have r2: "es_be16 p (unat off + 2) = Some (first_type tags' ty)"
      using es_be16_bytes [of "pre @ be16_bytes tci" "first_type tags' ty"]
      unfolding Suc.prems(2) p2 by simp
    have "es_vlan_loop fuel p cap endp (off + 4) (first_type tags' ty)
        (l2_tuple (vids @ [tci AND 0x0fff])) =
      Some (Left (off + 4 + 4 * word_of_nat (length tags'), ty,
        l2_tuple ((vids @ [tci AND 0x0fff]) @ map tag_id tags')))"
      using Suc.prems off4 by (intro Suc.IH [OF p4]) (auto simp: Cons)
    moreover have "es_need off 4 cap endp = ES_PARSE_OK"
      using Suc.prems by (simp add: need_simps Cons)
    moreover have "length vids < 2"
      using Suc.prems(4) by (simp add: Cons)
    ultimately show ?thesis
      using r0 r2 by (simp add: Cons tag es_vlan_def l2_tuple_count vlan_push_l2_tuple
          add_ac distrib_left)
  qed
qed

text \<open>The VLAN identifiers a frame ends up with: a tag the driver stripped comes first.\<close>

definition all_vids :: "bool \<Rightarrow> u16 \<Rightarrow> vlan_tag list \<Rightarrow> u16 list" where
  "all_vids stripped vid tags = (if stripped then [vid AND 0x0fff] else []) @ map tag_id tags"

definition l3_offset :: "vlan_tag list \<Rightarrow> u32" where
  "l3_offset tags = 14 + 4 * word_of_nat (length tags)"

lemma unat_l3_offset: "length tags \<le> 2 \<Longrightarrow> unat (l3_offset tags) = 14 + 4 * length tags"
  by (cases tags; cases "tl tags") (auto simp: l3_offset_def)

lemma es_parse_frame:
  assumes p: "p = eth_frame macs tags ty payload" and macs: "length macs = 12"
    and vids: "length (all_vids sv vid tags) \<le> 2"
    and w: "14 + 4 * length tags \<le> unat (parse_window cap len)" and ty: "\<not> es_vlan ty"
  shows "es_parse p cap len sv vid =
    es_parse_l3 p (parse_window cap len) len (l3_offset tags) ty (l2_tuple (all_vids sv vid tags))"
proof -
  let ?w = "parse_window cap len"
  let ?v = "if sv then [vid AND 0x0fff] else []"
  have len: "unat ?w \<le> unat len"
    by (simp add: unat_parse_window)
  have p': "p = (macs @ be16_bytes (first_type tags ty)) @ after_type tags ty @ payload"
    by (simp add: p eth_frame_def tags_then_type)
  have r: "es_be16 p 12 = Some (first_type tags ty)"
    using es_be16_bytes [of macs "first_type tags ty" "after_type tags ty @ payload"]
    by (simp add: p' macs)
  have t: "(if sv then vlan_push (vid AND 0x0fff) (es_tuple_zero\<lparr>t_flags := ES_T_L2_VALID\<rparr>)
     else Some (es_tuple_zero\<lparr>t_flags := ES_T_L2_VALID\<rparr>)) = Some (l2_tuple ?v)"
    by (simp add: vlan_push_def l2_tuple_def es_tuple_zero_def)
  have loop: "es_vlan_loop 2 p ?w len 14 (first_type tags ty) (l2_tuple ?v) =
    Some (Left (14 + 4 * word_of_nat (length tags), ty, l2_tuple (?v @ map tag_id tags)))"
    using vids w len by (intro vlan_loop_frame [OF p'] ty) (auto simp: macs all_vids_def)
  have "es_need 0 14 ?w len = ES_PARSE_OK"
    using w len by (simp add: need_simps)
  with r t loop show ?thesis
    unfolding es_parse_def Let_def parse_window_def [unfolded Let_def, symmetric]
    by (simp add: all_vids_def l3_offset_def)
qed

end
