(* ===== verification/Parser_Roundtrip.thy ===== *)
theory Parser_Roundtrip
  imports Parser_Frames
begin

text \<open>
  Transport segments and network headers written from their fields, and the proofs that
  the parser recovers addresses, protocol and ports from them: UDP and TCP over IPv4
  (with header options) and over IPv6 (with up to four extension headers), and ARP, each
  behind up to two VLAN tags and before any amount of link padding.
\<close>

section \<open>Transport segments\<close>

text \<open>
  \<open>Udp sport dport checksum data slack\<close>, where \<open>slack\<close> are bytes of the network payload
  after the datagram; \<open>Tcp sport dport seq_ack reserved rest options data\<close>
  with the eight bytes of the two sequence numbers, the low nibble of the byte that holds
  the data offset, and the seven bytes from the control bits to the urgent pointer;
  \<open>Other proto data\<close> for any protocol without ports.
\<close>

datatype segment =
    Udp be16 be16 bytes bytes bytes
  | Tcp be16 be16 bytes u8 bytes bytes bytes
  | Other u8 bytes

fun seg_proto :: "segment \<Rightarrow> u8" where
  "seg_proto (Udp s d ck data slack) = 17"
| "seg_proto (Tcp s d sa r rest opts data) = 6"
| "seg_proto (Other n data) = n"

fun seg_bytes :: "segment \<Rightarrow> bytes" where
  "seg_bytes (Udp s d ck data slack) =
     [fst s, snd s, fst d, snd d] @ be16_bytes (word_of_nat (8 + length data)) @ ck @ data @ slack"
| "seg_bytes (Tcp s d sa r rest opts data) =
     [fst s, snd s, fst d, snd d] @ sa @
     [push_bit 4 (word_of_nat (5 + length opts div 4)) OR r] @ rest @ opts @ data"
| "seg_bytes (Other n data) = data"

fun seg_ok :: "segment \<Rightarrow> bool" where
  "seg_ok (Udp s d ck data slack) \<longleftrightarrow> length ck = 2 \<and> length data < 65528"
| "seg_ok (Tcp s d sa r rest opts data) \<longleftrightarrow>
     length sa = 8 \<and> r < 16 \<and> length rest = 7 \<and> length opts \<le> 40 \<and> 4 dvd length opts"
| "seg_ok (Other n data) \<longleftrightarrow> n \<noteq> 6 \<and> n \<noteq> 17"

text \<open>How much of the segment the parser must see.\<close>

fun seg_head :: "segment \<Rightarrow> nat" where
  "seg_head (Udp s d ck data slack) = 8"
| "seg_head (Tcp s d sa r rest opts data) = 20"
| "seg_head (Other n data) = 0"

fun seg_tuple :: "segment \<Rightarrow> es_tuple \<Rightarrow> es_tuple" where
  "seg_tuple (Udp s d ck data slack) t = add_flag ES_T_PORTS_VALID (t\<lparr>t_sport := s, t_dport := d\<rparr>)"
| "seg_tuple (Tcp s d sa r rest opts data) t =
     add_flag ES_T_PORTS_VALID (t\<lparr>t_sport := s, t_dport := d\<rparr>)"
| "seg_tuple (Other n data) t = t"

lemma nibble_pair:
  assumes "n < 16" and "(r :: u8) < 16"
  shows "drop_bit 4 (push_bit 4 (word_of_nat n) OR r) = word_of_nat n"
    and "(push_bit 4 (word_of_nat n) OR r) AND 0x0f = r"
proof -
  have "\<forall>n \<in> set [0..<16]. \<forall>k \<in> set [0..<16].
      drop_bit 4 (push_bit 4 (word_of_nat n) OR (word_of_nat k :: u8)) = word_of_nat n \<and>
      (push_bit 4 (word_of_nat n) OR (word_of_nat k :: u8)) AND 0x0f = word_of_nat k"
    by code_simp
  moreover have "unat r \<in> set [0..<16]" and "n \<in> set [0..<16]"
    using assms by (simp_all add: word_less_nat_alt)
  ultimately have "drop_bit 4 (push_bit 4 (word_of_nat n) OR (word_of_nat (unat r) :: u8)) = word_of_nat n \<and>
      (push_bit 4 (word_of_nat n) OR (word_of_nat (unat r) :: u8)) AND 0x0f = word_of_nat (unat r)"
    by blast
  then show "drop_bit 4 (push_bit 4 (word_of_nat n) OR r) = word_of_nat n"
    and "(push_bit 4 (word_of_nat n) OR r) AND 0x0f = r"
    by simp_all
qed

lemma unat_of_nat_u16: "n < 65536 \<Longrightarrow> unat (word_of_nat n :: u16) = n"
  by (simp add: unat_of_nat take_bit_nat_eq_self)

lemma unat_times4_u8:
  assumes "n < 16"
  shows "unat (ucast (word_of_nat n :: u8) * 4 :: u32) = 4 * n"
proof -
  have "\<forall>n \<in> set [0..<16]. unat (ucast (word_of_nat n :: u8) * 4 :: u32) = 4 * n"
    by code_simp
  with assms show ?thesis by simp
qed

lemma ports_at:
  assumes "p = pre @ [fst s, snd s, fst d, snd d] @ post" and "unat l4 = length pre"
  shows "es_parse_ports p l4 t =
    Some (ES_PARSE_OK, add_flag ES_T_PORTS_VALID (t\<lparr>t_sport := s, t_dport := d\<rparr>))"
  using rd_append_shift [of pre "[fst s, snd s, fst d, snd d] @ post" 1]
    rd_append_shift [of pre "[fst s, snd s, fst d, snd d] @ post" 2]
    rd_append_shift [of pre "[fst s, snd s, fst d, snd d] @ post" 3]
  by (simp add: es_parse_ports_def assms ret_def)

lemma room_after: "unat endp = n + k \<Longrightarrow> unat l4 = n \<Longrightarrow> unat (endp - l4) = k" for endp l4 :: u32
  by (subst unat_sub) (simp_all add: word_le_nat_alt)

lemma udp_frame:
  assumes s: "s = Udp sp dp ck data slack" and ok: "seg_ok s" and p: "p = pre @ seg_bytes s @ pad"
    and l4: "unat l4 = length pre" and endp: "unat endp = length pre + length (seg_bytes s)"
    and proto: "t_l4_proto t = seg_proto s" and cap: "length pre + seg_head s \<le> unat cap"
  shows "es_parse_l4 p cap endp l4 t = Some (ES_PARSE_OK, seg_tuple s t)"
proof -
  obtain c0 c1 where ck: "ck = [c0, c1]"
    using ok by (auto simp: s length_Suc_conv numeral_2_eq_2)
  have "es_be16 p (unat l4 + 4) = Some (word_of_nat (8 + length data))"
    unfolding p l4 es_be16_at by (simp add: s es_be16_def be16_bytes_def)
  moreover have "unat (endp - l4) = 8 + length data + length slack"
    using endp l4 by (intro room_after) (simp_all add: s ck)
  moreover have "unat (ucast (word_of_nat (8 + length data) :: u16) :: u32) = 8 + length data"
    using ok by (simp add: s unat_ucast_u16 unat_of_nat_u16 del: of_nat_add)
  moreover have "es_need l4 8 cap endp = ES_PARSE_OK"
    using cap endp by (simp add: need_simps l4 s ck)
  moreover have "es_parse_ports p l4 t = Some (ES_PARSE_OK, seg_tuple s t)"
    unfolding s seg_tuple.simps
    by (rule ports_at [of _ pre _ _ "be16_bytes (word_of_nat (8 + length data)) @ ck @ data @ slack @ pad"])
      (simp_all add: p l4 s)
  ultimately show ?thesis
    using proto by (simp add: es_parse_l4_def Let_def word_less_nat_alt s)
qed

lemma tcp_frame:
  assumes s: "s = Tcp sp dp sa r rest opts data" and ok: "seg_ok s" and p: "p = pre @ seg_bytes s @ pad"
    and l4: "unat l4 = length pre" and endp: "unat endp = length pre + length (seg_bytes s)"
    and proto: "t_l4_proto t = seg_proto s" and cap: "length pre + seg_head s \<le> unat cap"
  shows "es_parse_l4 p cap endp l4 t = Some (ES_PARSE_OK, seg_tuple s t)"
proof -
  let ?n = "5 + length opts div 4"
  have "length opts div 4 \<le> 40 div 4"
    using ok by (intro div_le_mono) (simp add: s)
  then have n: "?n < 16"
    by simp
  have need: "es_need l4 20 cap endp = ES_PARSE_OK"
    using cap endp ok by (simp add: need_simps l4 s)
  then have "unat (l4 + 12) = unat l4 + 12"
    using need_index [of l4 20 cap 12] by (simp add: need_simps)
  then have b: "rd p (unat (l4 + 12)) = Some (push_bit 4 (word_of_nat ?n) OR r)"
    using ok by (simp add: p l4 s rd_append2)
  have "unat (endp - l4) = 20 + length opts + length data"
    using endp l4 ok by (intro room_after) (simp_all add: s)
  moreover have "unat (ucast (word_of_nat ?n :: u8) * 4 :: u32) = 20 + length opts"
    using unat_times4_u8 [OF n] ok by (simp add: s)
  moreover have "es_parse_ports p l4 t = Some (ES_PARSE_OK, seg_tuple s t)"
    unfolding s seg_tuple.simps
    by (rule ports_at [of _ pre _ _ "sa @ [push_bit 4 (word_of_nat ?n) OR r] @ rest @ opts @ data @ pad"])
      (simp_all add: p l4 s)
  moreover have "drop_bit 4 (push_bit 4 (word_of_nat ?n) OR r) = word_of_nat ?n"
    using n ok by (intro nibble_pair) (simp_all add: s)
  ultimately show ?thesis
    using proto b need by (simp add: es_parse_l4_def Let_def word_less_nat_alt s)
qed

lemma l4_frame:
  assumes "p = pre @ seg_bytes s @ pad" and "unat l4 = length pre"
    and "unat endp = length pre + length (seg_bytes s)"
    and "seg_ok s" and "t_l4_proto t = seg_proto s"
    and "length pre + seg_head s \<le> unat cap"
  shows "es_parse_l4 p cap endp l4 t = Some (ES_PARSE_OK, seg_tuple s t)"
proof (cases s)
  case (Udp sp dp ck data slack)
  then show ?thesis using assms by (intro udp_frame)
next
  case (Tcp sp dp sa r rest opts data)
  then show ?thesis using assms by (intro tcp_frame)
next
  case (Other n data)
  with assms(4,5) show ?thesis by (simp add: es_parse_l4_def ret_def)
qed

section \<open>IPv4\<close>

record ipv4_header =
  v4_tos :: u8
  v4_id :: be16
  v4_frag :: u16
  v4_ttl :: u8
  v4_csum :: be16
  v4_src :: bytes
  v4_dst :: bytes
  v4_opts :: bytes

definition v4_ok :: "ipv4_header \<Rightarrow> bool" where
  "v4_ok h \<longleftrightarrow> length (v4_src h) = 4 \<and> length (v4_dst h) = 4 \<and>
     length (v4_opts h) \<le> 40 \<and> 4 dvd length (v4_opts h)"

definition v4_hlen :: "ipv4_header \<Rightarrow> nat" where
  "v4_hlen h = 20 + length (v4_opts h)"

text \<open>The header of a datagram of protocol \<open>proto\<close> with \<open>n\<close> bytes of payload.\<close>

definition v4_bytes :: "ipv4_header \<Rightarrow> u8 \<Rightarrow> nat \<Rightarrow> bytes" where
  "v4_bytes h proto n =
     [push_bit 4 (word_of_nat 4) OR word_of_nat (5 + length (v4_opts h) div 4), v4_tos h] @
     be16_bytes (word_of_nat (v4_hlen h + n)) @
     [fst (v4_id h), snd (v4_id h)] @ be16_bytes (v4_frag h) @
     [v4_ttl h, proto, fst (v4_csum h), snd (v4_csum h)] @ v4_src h @ v4_dst h @ v4_opts h"

definition v4_tuple :: "ipv4_header \<Rightarrow> u8 \<Rightarrow> es_tuple \<Rightarrow> es_tuple" where
  "v4_tuple h proto t = add_flag ES_T_ADDR_VALID
     (t\<lparr>t_ip_version := 4, t_l4_proto := proto,
        t_src := blit (t_src t) (v4_src h), t_dst := blit (t_dst t) (v4_dst h)\<rparr>)"

lemma length_v4_bytes: "v4_ok h \<Longrightarrow> length (v4_bytes h proto n) = v4_hlen h"
  by (simp add: v4_bytes_def v4_ok_def v4_hlen_def)

lemma v4_fields:
  assumes "v4_ok h" and "xs = v4_bytes h proto n @ post"
  shows "rd xs 0 = Some (push_bit 4 (word_of_nat 4) OR word_of_nat (5 + length (v4_opts h) div 4))"
    and "es_be16 xs 2 = Some (word_of_nat (v4_hlen h + n))"
    and "es_be16 xs 6 = Some (v4_frag h)"
    and "rd xs 9 = Some proto"
    and "rdn xs 12 4 = Some (v4_src h)" and "rdn xs 16 4 = Some (v4_dst h)"
proof -
  show "rd xs 0 = Some (push_bit 4 (word_of_nat 4) OR word_of_nat (5 + length (v4_opts h) div 4))"
    by (simp add: assms(2) v4_bytes_def)
  show "es_be16 xs 2 = Some (word_of_nat (v4_hlen h + n))" and "es_be16 xs 6 = Some (v4_frag h)"
    and "rd xs 9 = Some proto"
    by (simp_all add: assms(2) v4_bytes_def es_be16_def be16_bytes_def)
  show "rdn xs 12 4 = Some (v4_src h)" and "rdn xs 16 4 = Some (v4_dst h)"
    using assms(1) by (simp_all add: assms(2) v4_bytes_def v4_ok_def rdn_def be16_bytes_def)
qed

lemma ipv4_core:
  fixes total ihl :: u32
  assumes "rd p (unat off) = Some b" and "drop_bit 4 b = 4" and "ihl = ucast (b AND 0x0f) * 4"
    and "es_be16 p (unat off + 2) = Some w" and "total = ucast w"
    and "unat off + 20 \<le> unat cap" and "unat off + 20 \<le> unat endp"
    and "20 \<le> unat ihl" and "unat ihl \<le> unat total"
    and "unat off + unat total \<le> unat endp" and "unat off + unat ihl \<le> unat cap"
    and "rd p (unat (off + 9)) = Some (proto)"
    and "rdn p (unat off + 12) 4 = Some s" and "rdn p (unat off + 16) 4 = Some d"
    and "es_be16 p (unat off + 6) = Some frag"
    and "t' = add_flag ES_T_ADDR_VALID (t\<lparr>t_ip_version := 4, t_l4_proto := proto,
        t_src := blit (t_src t) s, t_dst := blit (t_dst t) d\<rparr>)"
  shows "es_parse_ipv4 p cap endp off t =
    (if frag AND 0x3fff \<noteq> 0 then Some (ES_PARSE_FRAGMENT, add_flag ES_T_FRAGMENT t')
     else es_parse_l4 p cap (off + total) (off + ihl) t')"
proof -
  have off: "off \<le> endp" using assms(7) by (simp add: word_le_nat_alt)
  then have sum: "unat (off + total) = unat off + unat total"
    using assms(10) by (intro unat_add_le(1) [of _ endp]) (simp_all add: word_le_nat_alt unat_sub)
  have "es_need off 20 cap endp = ES_PARSE_OK"
    and "es_need off ihl cap (off + total) = ES_PARSE_OK"
    and "\<not> ihl < 20" and "\<not> total < ihl" and "\<not> total > endp - off"
    using assms(6-11) off sum by (simp_all add: need_simps word_less_nat_alt unat_sub)
  then show ?thesis
    by (simp add: es_parse_ipv4_def Let_def assms(1,2,12-16) assms(4) [simplified] ret_def
        flip: assms(3,5))
qed

text \<open>The first byte of the header: its version, and its length in words of four bytes.\<close>

lemma v4_first_byte:
  fixes h
  defines "n \<equiv> 5 + length (v4_opts h) div 4"
  assumes "v4_ok h"
  shows "drop_bit 4 (push_bit 4 (word_of_nat 4) OR word_of_nat n :: u8) = 4"
    and "(push_bit 4 (word_of_nat 4) OR word_of_nat n :: u8) AND 0x0f = word_of_nat n"
    and "unat (ucast (word_of_nat n :: u8) * 4 :: u32) = v4_hlen h"
proof -
  have n: "n < 16" and n4: "4 * n = v4_hlen h"
    using assms by (auto simp: v4_ok_def v4_hlen_def)
  then have "(word_of_nat n :: u8) < 16"
    by (simp add: word_less_nat_alt unat_of_nat take_bit_nat_eq_self)
  then show "drop_bit 4 (push_bit 4 (word_of_nat 4) OR word_of_nat n :: u8) = 4"
    and "(push_bit 4 (word_of_nat 4) OR word_of_nat n :: u8) AND 0x0f = word_of_nat n"
    using nibble_pair [of 4 "word_of_nat n"] by simp_all
  show "unat (ucast (word_of_nat n :: u8) * 4 :: u32) = v4_hlen h"
    using unat_times4_u8 [OF n] n4 by simp
qed

lemma ipv4_header_frame:
  assumes p: "p = pre @ v4_bytes h proto n @ post"
    and off: "unat off = length pre" and h: "v4_ok h" and total: "v4_hlen h + n < 65536"
    and endp: "length pre + v4_hlen h + n \<le> unat endp" and cap: "length pre + v4_hlen h \<le> unat cap"
  shows "\<exists>endp' l4. unat endp' = length pre + v4_hlen h + n \<and> unat l4 = length pre + v4_hlen h \<and>
    es_parse_ipv4 p cap endp off t =
      (if v4_frag h AND 0x3fff \<noteq> 0 then Some (ES_PARSE_FRAGMENT, add_flag ES_T_FRAGMENT (v4_tuple h proto t))
       else es_parse_l4 p cap endp' l4 (v4_tuple h proto t))"
proof -
  let ?n = "5 + length (v4_opts h) div 4" and ?total = "v4_hlen h + n"
  let ?b = "push_bit 4 (word_of_nat 4) OR word_of_nat ?n :: u8"
  note f = v4_fields [OF h refl, of proto n post]
  note nib = v4_first_byte(1,2) [OF h] and ihl = v4_first_byte(3) [OF h]
  have tot: "unat (ucast (word_of_nat ?total :: u16) :: u32) = ?total"
    using total by (simp add: unat_ucast_u16 unat_of_nat_u16 del: of_nat_add)
  have hl: "20 \<le> v4_hlen h" by (simp add: v4_hlen_def)
  have off_le: "off \<le> endp" using endp off by (simp add: word_le_nat_alt)
  have inner: "unat (off + ucast (word_of_nat ?total :: u16)) = length pre + ?total"
    using unat_add_le(1) [OF off_le, of "ucast (word_of_nat ?total :: u16)"] endp off tot off_le
    by (simp add: word_le_nat_alt unat_sub)
  have l4: "unat (off + ucast (word_of_nat ?n :: u8) * 4) = length pre + v4_hlen h"
    using need_index [of off "v4_hlen h" cap "ucast (word_of_nat ?n :: u8) * 4"] cap off ihl by simp
  have proto: "rd p (unat (off + 9)) = Some proto"
    using need_index [of off 20 cap 9] cap off hl f(4) by (simp add: p)
  have "es_parse_ipv4 p cap endp off t =
    (if v4_frag h AND 0x3fff \<noteq> 0
     then Some (ES_PARSE_FRAGMENT, add_flag ES_T_FRAGMENT (v4_tuple h proto t))
     else es_parse_l4 p cap (off + ucast (word_of_nat ?total :: u16))
       (off + ucast (word_of_nat ?n :: u8) * 4) (v4_tuple h proto t))"
  proof (rule ipv4_core)
    show "rd p (unat off) = Some ?b" unfolding p off rd_at0 by (rule f(1))
    show "es_be16 p (unat off + 2) = Some (word_of_nat ?total)"
      unfolding p off es_be16_at by (rule f(2))
    show "es_be16 p (unat off + 6) = Some (v4_frag h)"
      unfolding p off es_be16_at by (rule f(3))
    show "rdn p (unat off + 12) 4 = Some (v4_src h)" unfolding p off rdn_at by (rule f(5))
    show "rdn p (unat off + 16) 4 = Some (v4_dst h)" unfolding p off rdn_at by (rule f(6))
    show "v4_tuple h proto t = add_flag ES_T_ADDR_VALID (t\<lparr>t_ip_version := 4,
      t_l4_proto := proto, t_src := blit (t_src t) (v4_src h),
      t_dst := blit (t_dst t) (v4_dst h)\<rparr>)" by (rule v4_tuple_def)
    show "ucast (word_of_nat ?n :: u8) * 4 = ucast (?b AND 0x0f) * (4 :: u32)"
      by (simp only: nib)
    show "20 \<le> unat (ucast (word_of_nat ?n :: u8) * 4 :: u32)"
      and "unat (ucast (word_of_nat ?n :: u8) * 4 :: u32) \<le> unat (ucast (word_of_nat ?total :: u16) :: u32)"
      unfolding ihl tot using hl by simp_all
    show "unat off + unat (ucast (word_of_nat ?total :: u16) :: u32) \<le> unat endp"
      and "unat off + unat (ucast (word_of_nat ?n :: u8) * 4 :: u32) \<le> unat cap"
      unfolding ihl tot off using cap endp by simp_all
    show "unat off + 20 \<le> unat cap" and "unat off + 20 \<le> unat endp"
      unfolding off using cap endp hl by simp_all
  qed (rule nib proto refl)+
  then show ?thesis
    using inner l4 by (intro exI [of _ "off + ucast (word_of_nat ?total :: u16)"]
        exI [of _ "off + ucast (word_of_nat ?n :: u8) * 4"]) simp
qed

lemma ipv4_frame:
  assumes p: "p = pre @ v4_bytes h (seg_proto s) (length (seg_bytes s)) @ seg_bytes s @ pad"
    and off: "unat off = length pre" and h: "v4_ok h" and s: "seg_ok s"
    and total: "v4_hlen h + length (seg_bytes s) < 65536"
    and endp: "length pre + v4_hlen h + length (seg_bytes s) \<le> unat endp"
    and cap: "length pre + v4_hlen h + seg_head s \<le> unat cap"
  shows "es_parse_ipv4 p cap endp off t =
    (if v4_frag h AND 0x3fff \<noteq> 0
     then Some (ES_PARSE_FRAGMENT, add_flag ES_T_FRAGMENT (v4_tuple h (seg_proto s) t))
     else Some (ES_PARSE_OK, seg_tuple s (v4_tuple h (seg_proto s) t)))"
proof -
  let ?pre = "pre @ v4_bytes h (seg_proto s) (length (seg_bytes s))"
  obtain endp' l4 where inner: "unat endp' = length ?pre + length (seg_bytes s)" and l4: "unat l4 = length ?pre"
    and parse: "es_parse_ipv4 p cap endp off t =
      (if v4_frag h AND 0x3fff \<noteq> 0 then Some (ES_PARSE_FRAGMENT, add_flag ES_T_FRAGMENT (v4_tuple h (seg_proto s) t))
       else es_parse_l4 p cap endp' l4 (v4_tuple h (seg_proto s) t))"
    using ipv4_header_frame [OF p off h total endp, of cap t] cap by (auto simp: length_v4_bytes [OF h])
  have "es_parse_l4 p cap endp' l4 (v4_tuple h (seg_proto s) t) =
      Some (ES_PARSE_OK, seg_tuple s (v4_tuple h (seg_proto s) t))"
    using cap l4 inner by (intro l4_frame [where pre = ?pre and pad = pad] s)
      (simp_all add: p length_v4_bytes [OF h] v4_tuple_def add_flag_def)
  with parse show ?thesis by simp
qed

section \<open>IPv6\<close>

text \<open>
  An extension header is an options header of kind 0, 43 or 60 or an authentication
  header (51); both carry their length field and the bytes after the first two.
\<close>

datatype ext_hdr = Opt u8 u8 bytes | Auth u8 bytes

fun ext_kind :: "ext_hdr \<Rightarrow> u8" where
  "ext_kind (Opt k n body) = k"
| "ext_kind (Auth n body) = 51"

fun ext_ok :: "ext_hdr \<Rightarrow> bool" where
  "ext_ok (Opt k n body) \<longleftrightarrow> (k = 0 \<or> k = 43 \<or> k = 60) \<and> length body = 8 * unat n + 6"
| "ext_ok (Auth n body) \<longleftrightarrow> length body = 4 * unat n + 6"

fun ext_tail :: "ext_hdr \<Rightarrow> bytes" where
  "ext_tail (Opt k n body) = n # body"
| "ext_tail (Auth n body) = n # body"

fun first_next :: "ext_hdr list \<Rightarrow> u8 \<Rightarrow> u8" where
  "first_next [] final = final"
| "first_next (e # es) final = ext_kind e"

fun exts_bytes :: "ext_hdr list \<Rightarrow> u8 \<Rightarrow> bytes" where
  "exts_bytes [] final = []"
| "exts_bytes (e # es) final = first_next es final # ext_tail e @ exts_bytes es final"

lemma unat_ucast_u8: "unat (ucast (w :: u8) :: u32) = unat w"
  using unat_u8_less [of w] by (simp add: unsigned_ucast_eq take_bit_nat_eq_self)

lemma unat_ext_len:
  shows "unat ((ucast (n :: u8) + 2) * 4 :: u32) = 4 * unat n + 8"
    and "unat ((ucast (n :: u8) + 1) * 8 :: u32) = 8 * unat n + 8"
  using unat_u8_less [of n] by (simp_all add: unat_word_ariths unat_ucast_u8)

lemma ext_loop_step:
  assumes "es_ext next" and "next \<noteq> 44" and "rd p (unat off) = Some b" and "rd p (unat (off + 1)) = Some n"
    and "len = (if next = 51 then (ucast n + 2) * 4 else (ucast n + 1) * 8)"
    and "unat off + unat len \<le> unat cap" and "unat off + unat len \<le> unat endp"
  shows "es_ext_loop (Suc fuel) p cap endp off next t =
    es_ext_loop fuel p cap endp (off + len) b t"
proof -
  have len: "8 \<le> unat len"
    unfolding assms(5) using unat_ext_len [of n] by simp
  then have "es_need off 2 cap endp = ES_PARSE_OK" and "es_need off len cap endp = ES_PARSE_OK"
    and "\<not> len < 8"
    using assms(6,7) by (simp_all add: need_simps word_less_nat_alt)
  then show ?thesis
    by (simp add: Let_def assms(1-4) flip: assms(5))
qed

text \<open>The loop consumes the headers it has fuel for, and goes on with the next kind.\<close>

lemma ext_loop_frame:
  assumes "p = pre @ exts_bytes es final @ post" and "unat off = length pre"
    and "length es \<le> fuel" and "\<forall>e \<in> set es. ext_ok e"
    and "length pre + length (exts_bytes es final) \<le> unat cap"
    and "length pre + length (exts_bytes es final) \<le> unat endp"
  shows "\<exists>off'. es_ext_loop fuel p cap endp off (first_next es final) t =
      es_ext_loop (fuel - length es) p cap endp off' final t \<and>
    unat off' = length pre + length (exts_bytes es final)"
  using assms
proof (induction fuel arbitrary: pre es off)
  case 0
  then show ?case by simp
next
  case (Suc fuel)
  show ?case
  proof (cases es)
    case Nil
    with Suc.prems show ?thesis by (auto simp del: es_ext_loop.simps)
  next
    case (Cons e es')
    obtain n body where tail: "ext_tail e = n # body"
      by (cases e) auto
    define len :: u32 where "len = (if ext_kind e = 51 then (ucast n + 2) * 4 else (ucast n + 1) * 8)"
    have len: "unat len = 2 + length body"
      using Suc.prems(4) tail unat_ext_len [of n]
      by (cases e) (auto simp: Cons len_def)
    have kind: "es_ext (ext_kind e)" "ext_kind e \<noteq> 44"
      using Suc.prems(4) by (cases e; auto simp: Cons es_ext_def)+
    have p: "p = pre @ [first_next es' final, n] @ body @ exts_bytes es' final @ post"
      using Suc.prems(1) by (simp add: Cons tail)
    then have p': "p = (pre @ [first_next es' final, n] @ body) @ exts_bytes es' final @ post"
      by simp
    have off1: "unat (off + 1) = length pre + 1"
      using need_index [of off "2 + length body" cap 1] Suc.prems(2,5) by (simp add: Cons tail)
    have off_len: "unat (off + len) = length pre + 2 + length body"
      using need_index [of off "2 + length body" cap len] Suc.prems(2,5) len
      by (simp add: Cons tail)
    have "rd p (unat off) = Some (first_next es' final)"
      unfolding Suc.prems(2) p by simp
    moreover have "rd p (unat (off + 1)) = Some n"
      unfolding off1 p rd_append_shift by simp
    ultimately have "es_ext_loop (Suc fuel) p cap endp off (ext_kind e) t =
        es_ext_loop fuel p cap endp (off + len) (first_next es' final) t"
      using kind Suc.prems(2,5,6) len by (intro ext_loop_step) (simp_all add: len_def Cons tail)
    moreover have "\<exists>off'. es_ext_loop fuel p cap endp (off + len) (first_next es' final) t =
        es_ext_loop (fuel - length es') p cap endp off' final t \<and>
        unat off' = length (pre @ [first_next es' final, n] @ body) + length (exts_bytes es' final)"
      using Suc.prems off_len by (intro Suc.IH [OF p']) (auto simp: Cons tail)
    ultimately show ?thesis
      by (simp add: Cons tail add.assoc del: es_ext_loop.simps)
  qed
qed

lemma ext_loop_done: "\<not> es_ext final \<Longrightarrow> es_ext_loop m p cap endp off final t = Some (Left (off, final))"
  by (cases m) simp_all

record ipv6_header =
  v6_class :: u8
  v6_label :: "u8 \<times> u8 \<times> u8"
  v6_hop :: u8
  v6_src :: bytes
  v6_dst :: bytes

definition v6_ok :: "ipv6_header \<Rightarrow> bool" where
  "v6_ok h \<longleftrightarrow> v6_class h < 16 \<and> length (v6_src h) = 16 \<and> length (v6_dst h) = 16"

definition v6_bytes :: "ipv6_header \<Rightarrow> u8 \<Rightarrow> nat \<Rightarrow> bytes" where
  "v6_bytes h next n = (case v6_label h of (a, b, c) \<Rightarrow>
     [push_bit 4 (word_of_nat 6) OR v6_class h, a, b, c] @ be16_bytes (word_of_nat n) @
     [next, v6_hop h] @ v6_src h @ v6_dst h)"

definition v6_tuple :: "ipv6_header \<Rightarrow> u8 \<Rightarrow> es_tuple \<Rightarrow> es_tuple" where
  "v6_tuple h proto t = (add_flag ES_T_ADDR_VALID
     (t\<lparr>t_ip_version := 6, t_src := blit (t_src t) (v6_src h),
        t_dst := blit (t_dst t) (v6_dst h)\<rparr>))\<lparr>t_l4_proto := proto\<rparr>"

lemma length_v6_bytes: "v6_ok h \<Longrightarrow> length (v6_bytes h next n) = 40"
  by (simp add: v6_bytes_def v6_ok_def split: prod.split)

lemma v6_fields:
  assumes "v6_ok h" and "xs = v6_bytes h next n @ post"
  shows "rd xs 0 = Some (push_bit 4 (word_of_nat 6) OR v6_class h)"
    and "es_be16 xs 4 = Some (word_of_nat n)" and "rd xs 6 = Some next"
    and "rdn xs 8 16 = Some (v6_src h)" and "rdn xs 24 16 = Some (v6_dst h)"
proof -
  obtain a b c where l: "v6_label h = (a, b, c)" by (cases "v6_label h")
  show "rd xs 0 = Some (push_bit 4 (word_of_nat 6) OR v6_class h)"
    and "es_be16 xs 4 = Some (word_of_nat n)" and "rd xs 6 = Some next"
    by (simp_all add: assms(2) v6_bytes_def l es_be16_def be16_bytes_def)
  show "rdn xs 8 16 = Some (v6_src h)" and "rdn xs 24 16 = Some (v6_dst h)"
    using assms(1) by (simp_all add: assms(2) v6_bytes_def v6_ok_def l rdn_def be16_bytes_def)
qed

lemma ipv6_core:
  fixes payload :: u32
  assumes "rd p (unat off) = Some b" and "drop_bit 4 b = 6"
    and "es_be16 p (unat off + 4) = Some w" and "payload = ucast w"
    and "unat off + 40 \<le> unat cap" and "0 < unat payload"
    and "unat off + 40 + unat payload \<le> unat endp"
    and "rd p (unat (off + 6)) = Some next"
    and "rdn p (unat off + 8) 16 = Some s" and "rdn p (unat off + 24) 16 = Some d"
    and "t' = add_flag ES_T_ADDR_VALID (t\<lparr>t_ip_version := 6,
        t_src := blit (t_src t) s, t_dst := blit (t_dst t) d\<rparr>)"
    and "es_ext_loop 4 p cap (off + 40 + payload) (off + 40) next t' = Some r"
  shows "es_parse_ipv6 p cap endp off t = (case r of
      Returned rc u \<Rightarrow> ret u rc
    | Left (l4, final) \<Rightarrow>
        if es_ext final \<or> final = 50 then ret (t'\<lparr>t_l4_proto := final\<rparr>) ES_PARSE_UNSUPPORTED
        else es_parse_l4 p cap (off + 40 + payload) l4 (t'\<lparr>t_l4_proto := final\<rparr>))"
proof -
  have "off \<le> endp" using assms(7) by (simp add: word_le_nat_alt)
  moreover have "40 \<le> endp - off"
    using assms(7) \<open>off \<le> endp\<close> by (simp add: word_le_nat_alt unat_sub)
  ultimately have "unat (endp - off - 40) = unat endp - unat off - 40"
    by (simp add: unat_sub)
  then have "es_need off 40 cap endp = ES_PARSE_OK"
    and "\<not> payload > endp - off - 40" and "payload \<noteq> 0"
    using assms(5-7) by (auto simp: need_simps word_less_nat_alt)
  then show ?thesis
    by (simp add: es_parse_ipv6_def Let_def assms(1-3,8-10) assms(12) [unfolded assms(11)] assms(11)
        flip: assms(4) split: loop_exit.split)
qed

text \<open>The header, and the extension headers up to one of kind \<open>final\<close>.\<close>

lemma ipv6_header_frame:
  assumes p: "p = pre @ v6_bytes h (first_next es final) n @ exts_bytes es final @ post"
    and off: "unat off = length pre" and h: "v6_ok h"
    and es: "length es \<le> 4" "\<forall>e \<in> set es. ext_ok e" and n: "0 < n" "n < 65536"
    and ext: "length (exts_bytes es final) \<le> n"
    and endp: "length pre + 40 + n \<le> unat endp" and cap: "length pre + 40 + length (exts_bytes es final) \<le> unat cap"
    and t': "t' = add_flag ES_T_ADDR_VALID (t\<lparr>t_ip_version := 6,
      t_src := blit (t_src t) (v6_src h), t_dst := blit (t_dst t) (v6_dst h)\<rparr>)"
  shows "\<exists>endp' l4. unat endp' = length pre + 40 + n \<and> unat l4 = length pre + 40 + length (exts_bytes es final) \<and>
    (\<forall>r. es_ext_loop (4 - length es) p cap endp' l4 final t' = Some r \<longrightarrow>
      es_parse_ipv6 p cap endp off t = (case r of
          Returned rc u \<Rightarrow> ret u rc
        | Left (l4, final) \<Rightarrow>
            if es_ext final \<or> final = 50 then ret (t'\<lparr>t_l4_proto := final\<rparr>) ES_PARSE_UNSUPPORTED
            else es_parse_l4 p cap endp' l4 (t'\<lparr>t_l4_proto := final\<rparr>)))"
proof -
  let ?next = "first_next es final"
  define total :: u32 where "total = ucast (word_of_nat n :: u16)"
  note f = v6_fields [OF h refl, of ?next n "exts_bytes es final @ post"]
  have tot: "unat total = n"
    using n by (simp add: total_def unat_ucast_u16 unat_of_nat_u16)
  have off40: "unat (off + 40) = length pre + 40"
    using need_index [of off 40 cap 40] cap off by simp
  have inner: "unat (off + 40 + total) = length pre + 40 + n"
    using need_index [of "off + 40" n endp total] endp off40 tot by simp
  have nxt: "rd p (unat (off + 6)) = Some ?next"
    using need_index [of off 40 cap 6] cap off f(3) by (simp add: p)
  have p40: "p = (pre @ v6_bytes h ?next n) @ exts_bytes es final @ post"
    by (simp add: p)
  have "\<exists>l4. es_ext_loop 4 p cap (off + 40 + total) (off + 40) ?next t' =
      es_ext_loop (4 - length es) p cap (off + 40 + total) l4 final t' \<and>
      unat l4 = length (pre @ v6_bytes h ?next n) + length (exts_bytes es final)"
    using cap inner off40 ext by (intro ext_loop_frame [OF p40] es) (simp_all add: length_v6_bytes [OF h])
  then obtain l4 where loop: "es_ext_loop 4 p cap (off + 40 + total) (off + 40) ?next t' =
      es_ext_loop (4 - length es) p cap (off + 40 + total) l4 final t'"
    and l4: "unat l4 = length pre + 40 + length (exts_bytes es final)"
    by (auto simp: length_v6_bytes [OF h])
  have "es_parse_ipv6 p cap endp off t = (case r of
      Returned rc u \<Rightarrow> ret u rc
    | Left (l4, final) \<Rightarrow>
        if es_ext final \<or> final = 50 then ret (t'\<lparr>t_l4_proto := final\<rparr>) ES_PARSE_UNSUPPORTED
        else es_parse_l4 p cap (off + 40 + total) l4 (t'\<lparr>t_l4_proto := final\<rparr>))"
    if r: "es_ext_loop (4 - length es) p cap (off + 40 + total) l4 final t' = Some r" for r
  proof (rule ipv6_core [OF _ _ _ total_def _ _ _ nxt _ _ t' loop [unfolded r]])
    show "rd p (unat off) = Some (push_bit 4 (word_of_nat 6) OR v6_class h)"
      unfolding p off rd_at0 by (rule f(1))
    show "drop_bit 4 (push_bit 4 (word_of_nat 6) OR v6_class h) = 6"
      using h nibble_pair(1) [of 6 "v6_class h"] by (simp add: v6_ok_def)
    show "es_be16 p (unat off + 4) = Some (word_of_nat n)"
      unfolding p off es_be16_at by (rule f(2))
    show "rdn p (unat off + 8) 16 = Some (v6_src h)" unfolding p off rdn_at by (rule f(4))
    show "rdn p (unat off + 24) 16 = Some (v6_dst h)" unfolding p off rdn_at by (rule f(5))
    show "unat off + 40 \<le> unat cap" and "0 < unat total"
      and "unat off + 40 + unat total \<le> unat endp"
      unfolding off tot using cap endp n by simp_all
  qed
  then show ?thesis
    using inner l4 by blast
qed

lemma ipv6_frame:
  assumes p: "p = pre @ v6_bytes h (first_next es (seg_proto s))
        (length (exts_bytes es (seg_proto s)) + length (seg_bytes s)) @
        exts_bytes es (seg_proto s) @ seg_bytes s @ pad"
    and off: "unat off = length pre" and h: "v6_ok h" and s: "seg_ok s"
    and es: "length es \<le> 4" "\<forall>e \<in> set es. ext_ok e"
    and final: "\<not> es_ext (seg_proto s)" "seg_proto s \<noteq> 50"
    and payload: "0 < length (exts_bytes es (seg_proto s)) + length (seg_bytes s)"
      "length (exts_bytes es (seg_proto s)) + length (seg_bytes s) < 65536"
    and endp: "length pre + 40 + length (exts_bytes es (seg_proto s)) + length (seg_bytes s) \<le> unat endp"
    and cap: "length pre + 40 + length (exts_bytes es (seg_proto s)) + seg_head s \<le> unat cap"
  shows "es_parse_ipv6 p cap endp off t =
    Some (ES_PARSE_OK, seg_tuple s (v6_tuple h (seg_proto s) t))"
proof -
  let ?ex = "exts_bytes es (seg_proto s)" and ?next = "first_next es (seg_proto s)"
  let ?n = "length ?ex + length (seg_bytes s)"
  define t' where "t' = add_flag ES_T_ADDR_VALID (t\<lparr>t_ip_version := 6,
      t_src := blit (t_src t) (v6_src h), t_dst := blit (t_dst t) (v6_dst h)\<rparr>)"
  have "length ?ex \<le> ?n" and "length pre + 40 + ?n \<le> unat endp" and "length pre + 40 + length ?ex \<le> unat cap"
    using endp cap by simp_all
  then obtain endp' l4 where inner: "unat endp' = length pre + 40 + ?n" and l4: "unat l4 = length pre + 40 + length ?ex"
    and parse: "es_parse_ipv6 p cap endp off t = es_parse_l4 p cap endp' l4 (t'\<lparr>t_l4_proto := seg_proto s\<rparr>)"
    using ipv6_header_frame [OF p off h es payload _ _ _ t'_def, of endp cap] final
    by (auto simp: ext_loop_done [OF final(1)])
  have "p = (pre @ v6_bytes h ?next ?n @ ?ex) @ seg_bytes s @ pad"
    by (simp add: p)
  then have "es_parse_l4 p cap endp' l4 (t'\<lparr>t_l4_proto := seg_proto s\<rparr>) =
      Some (ES_PARSE_OK, seg_tuple s (t'\<lparr>t_l4_proto := seg_proto s\<rparr>))"
    using cap l4 inner by (intro l4_frame [where pre = "pre @ v6_bytes h ?next ?n @ ?ex" and pad = pad] s)
      (simp_all add: length_v6_bytes [OF h])
  with parse show ?thesis by (simp add: v6_tuple_def t'_def)
qed

section \<open>ARP\<close>

definition arp_bytes :: "be16 \<Rightarrow> bytes \<Rightarrow> bytes \<Rightarrow> bytes \<Rightarrow> bytes \<Rightarrow> bytes" where
  "arp_bytes op sha spa tha tpa =
     be16_bytes 1 @ be16_bytes 0x0800 @ [6, 4] @ [fst op, snd op] @ sha @ spa @ tha @ tpa"

definition arp_tuple :: "bytes \<Rightarrow> bytes \<Rightarrow> es_tuple \<Rightarrow> es_tuple" where
  "arp_tuple spa tpa t = add_flag ES_T_ADDR_VALID
     (t\<lparr>t_src := blit (t_src t) spa, t_dst := blit (t_dst t) tpa, t_ip_version := 4\<rparr>)"

lemma arp_frame:
  assumes p: "p = pre @ arp_bytes op sha spa tha tpa @ pad" and off: "unat off = length pre"
    and len: "length sha = 6" "length spa = 4" "length tha = 6" "length tpa = 4"
    and cap: "length pre + 28 \<le> unat cap" "length pre + 28 \<le> unat endp"
  shows "es_parse_arp p cap endp off t = Some (ES_PARSE_OK, arp_tuple spa tpa t)"
proof -
  let ?xs = "arp_bytes op sha spa tha tpa @ pad"
  have x: "es_be16 ?xs 0 = Some 1" "es_be16 ?xs 2 = Some 0x0800" "rd ?xs 4 = Some 6" "rd ?xs 5 = Some 4"
    by (simp_all add: arp_bytes_def es_be16_def be16_bytes_def be16_val_def)
  have y: "rdn ?xs 14 4 = Some spa" "rdn ?xs 24 4 = Some tpa"
    by (simp_all add: arp_bytes_def rdn_def be16_bytes_def len)
  have off4: "unat (off + 4) = length pre + 4" and off5: "unat (off + 5) = length pre + 5"
    using need_index [of off 28 cap 4] need_index [of off 28 cap 5] cap off by simp_all
  have "es_be16 p (unat off) = Some 1"
    unfolding p off es_be16_at0 by (rule x(1))
  moreover have "es_be16 p (unat off + 2) = Some 0x0800"
    unfolding p off es_be16_at by (rule x(2))
  moreover have "rd p (unat (off + 4)) = Some 6" and "rd p (unat (off + 5)) = Some 4"
    unfolding p off4 off5 rd_append_shift by (rule x(3), rule x(4))
  moreover have "rdn p (unat off + 14) 4 = Some spa" and "rdn p (unat off + 24) 4 = Some tpa"
    unfolding p off rdn_at by (rule y(1), rule y(2))
  moreover have "es_need off 28 cap endp = ES_PARSE_OK"
    using cap off by (simp add: need_simps)
  ultimately show ?thesis
    by (simp add: es_parse_arp_def ret_def arp_tuple_def)
qed

section \<open>Properties\<close>

text \<open>The tuple of a parsed frame, field by field.\<close>

fun seg_ports :: "segment \<Rightarrow> (be16 \<times> be16) option" where
  "seg_ports (Udp s d ck data slack) = Some (s, d)"
| "seg_ports (Tcp s d sa r rest opts data) = Some (s, d)"
| "seg_ports (Other n data) = None"

definition frame_tuple ::
  "u16 list \<Rightarrow> u16 \<Rightarrow> u8 \<Rightarrow> bytes \<Rightarrow> bytes \<Rightarrow> u8 \<Rightarrow> (be16 \<times> be16) option \<Rightarrow> es_tuple" where
  "frame_tuple vids ty ver src dst proto ports =
     \<lparr>t_src = src @ replicate (16 - length src) 0, t_dst = dst @ replicate (16 - length dst) 0,
      t_sport = (case ports of None \<Rightarrow> (0, 0) | Some (s, d) \<Rightarrow> s),
      t_dport = (case ports of None \<Rightarrow> (0, 0) | Some (s, d) \<Rightarrow> d),
      t_ethertype = ty, t_vlan = take 2 (vids @ [0, 0]), t_ip_version = ver, t_l4_proto = proto,
      t_flags = (if ports = None then ES_T_L2_VALID OR ES_T_ADDR_VALID
        else ES_T_L2_VALID OR ES_T_ADDR_VALID OR ES_T_PORTS_VALID),
      t_vlan_count = word_of_nat (length vids), t_reserved = 0\<rparr>"

lemmas frame_tuple_defs =
  frame_tuple_def l2_tuple_def es_tuple_zero_def add_flag_def blit_def
  ES_T_L2_VALID_def ES_T_ADDR_VALID_def ES_T_PORTS_VALID_def ES_T_FRAGMENT_def

lemma frame_tuple_v4:
  assumes "v4_ok h"
  shows "seg_tuple s (v4_tuple h (seg_proto s) ((l2_tuple vids)\<lparr>t_ethertype := ty\<rparr>)) =
    frame_tuple vids ty 4 (v4_src h) (v4_dst h) (seg_proto s) (seg_ports s)"
  using assms by (cases s) (simp_all add: frame_tuple_defs v4_tuple_def v4_ok_def)

lemma fragment_tuple_v4:
  assumes "v4_ok h"
  shows "add_flag ES_T_FRAGMENT (v4_tuple h proto ((l2_tuple vids)\<lparr>t_ethertype := ty\<rparr>)) =
    (frame_tuple vids ty 4 (v4_src h) (v4_dst h) proto None)
      \<lparr>t_flags := ES_T_L2_VALID OR ES_T_ADDR_VALID OR ES_T_FRAGMENT\<rparr>"
  using assms by (simp add: frame_tuple_defs v4_tuple_def v4_ok_def)

lemma frame_tuple_v6:
  assumes "v6_ok h"
  shows "seg_tuple s (v6_tuple h (seg_proto s) ((l2_tuple vids)\<lparr>t_ethertype := ty\<rparr>)) =
    frame_tuple vids ty 6 (v6_src h) (v6_dst h) (seg_proto s) (seg_ports s)"
  using assms by (cases s) (simp_all add: frame_tuple_defs v6_tuple_def v6_ok_def)

lemma frame_tuple_arp:
  assumes "length spa = 4" and "length tpa = 4"
  shows "arp_tuple spa tpa ((l2_tuple vids)\<lparr>t_ethertype := ty\<rparr>) =
    frame_tuple vids ty 4 spa tpa 0 None"
  using assms by (simp add: frame_tuple_defs arp_tuple_def)

lemma eth_frame_at_l3:
  "eth_frame macs tags ty payload = (macs @ concat (map tag_bytes tags) @ be16_bytes ty) @ payload"
  by (simp add: eth_frame_def)

lemma length_l2:
  assumes "length macs = 12"
  shows "length (macs @ concat (map tag_bytes tags) @ be16_bytes ty) = 14 + 4 * length tags"
proof -
  have "length (concat (map tag_bytes tags)) = 4 * length tags"
    by (induction tags) auto
  with assms show ?thesis by simp
qed

lemma seg_head_le: "seg_ok s \<Longrightarrow> seg_head s \<le> length (seg_bytes s)"
  by (cases s) auto

lemma vids_tags: "length (all_vids sv vid tags) \<le> 2 \<Longrightarrow> length tags \<le> 2"
  by (auto simp: all_vids_def)

text \<open>
  Round trip for IPv4. A frame with up to two VLAN tags (one of them possibly stripped by
  the driver), an IPv4 header with any options, a TCP segment with any options, a UDP or
  another datagram, and any bytes after it is parsed back to its VLAN identifiers,
  addresses, protocol and ports, provided the capture holds the headers. The bytes that pad
  the frame never reach the result. A fragment is reported as such, without ports.
\<close>

theorem es_parse_ipv4_roundtrip:
  assumes "length macs = 12" and "length (all_vids sv vid tags) \<le> 2"
    and "v4_ok h" and "seg_ok s" and "v4_hlen h + length (seg_bytes s) < 65536"
    and "p = eth_frame macs tags 0x0800
      (v4_bytes h (seg_proto s) (length (seg_bytes s)) @ seg_bytes s @ pad)"
    and "14 + 4 * length tags + v4_hlen h + length (seg_bytes s) \<le> unat len"
    and "14 + 4 * length tags + v4_hlen h + seg_head s \<le> min (unat cap) 128"
  shows "es_parse p cap len sv vid = Some
    (if v4_frag h AND 0x3fff \<noteq> 0
     then (ES_PARSE_FRAGMENT, (frame_tuple (all_vids sv vid tags) 0x0800 4 (v4_src h) (v4_dst h)
       (seg_proto s) None)\<lparr>t_flags := ES_T_L2_VALID OR ES_T_ADDR_VALID OR ES_T_FRAGMENT\<rparr>)
     else (ES_PARSE_OK, frame_tuple (all_vids sv vid tags) 0x0800 4 (v4_src h) (v4_dst h)
       (seg_proto s) (seg_ports s)))"
proof -
  let ?w = "parse_window cap len" and ?vids = "all_vids sv vid tags"
  have w: "14 + 4 * length tags + v4_hlen h + seg_head s \<le> unat ?w"
    using assms(7,8) seg_head_le [OF assms(4)] by (simp add: unat_parse_window)
  have "es_parse p cap len sv vid =
      es_parse_l3 p ?w len (l3_offset tags) 0x0800 (l2_tuple ?vids)"
    using assms(1,2) w by (intro es_parse_frame [OF assms(6)]) (auto simp: es_vlan_def)
  also have "\<dots> = es_parse_ipv4 p ?w len (l3_offset tags) ((l2_tuple ?vids)\<lparr>t_ethertype := 0x0800\<rparr>)"
    by (simp add: es_parse_l3_def es_vlan_def)
  also have "\<dots> = (if v4_frag h AND 0x3fff \<noteq> 0
     then Some (ES_PARSE_FRAGMENT, add_flag ES_T_FRAGMENT (v4_tuple h (seg_proto s)
       ((l2_tuple ?vids)\<lparr>t_ethertype := 0x0800\<rparr>)))
     else Some (ES_PARSE_OK, seg_tuple s (v4_tuple h (seg_proto s)
       ((l2_tuple ?vids)\<lparr>t_ethertype := 0x0800\<rparr>))))"
    using assms(3-5,7) w
    by (intro ipv4_frame [OF assms(6) [unfolded eth_frame_at_l3]])
      (simp_all only: length_l2 [OF assms(1)] unat_l3_offset [OF vids_tags [OF assms(2)]])
  finally show ?thesis
    by (simp only: frame_tuple_v4 [OF assms(3)] fragment_tuple_v4 [OF assms(3)] if_distrib)
qed

lemma dvd_4_Suc4 [simp]: "(4 :: nat) dvd Suc (Suc (Suc (Suc 0)))"
  by presburger

theorem es_parse_ipv4_roundtrip_witness:
  "es_parse (eth_frame (replicate 12 0) [(False, 5)] 0x0800
      (v4_bytes \<lparr>v4_tos = 0, v4_id = (0, 1), v4_frag = 0x4000, v4_ttl = 64, v4_csum = (0, 0),
         v4_src = [192, 0, 0, 1], v4_dst = [192, 0, 0, 2], v4_opts = [1, 1, 1, 0]\<rparr> 17 11 @
       seg_bytes (Udp (48, 57) (1, 187) [0, 0] [1, 2, 3] []) @ [0, 0, 0])) 60 56 True 7 =
   Some (ES_PARSE_OK, frame_tuple [7, 5] 0x0800 4 [192, 0, 0, 1] [192, 0, 0, 2] 17
     (Some ((48, 57), (1, 187))))"
  using es_parse_ipv4_roundtrip [OF _ _ _ _ _ refl, of "replicate 12 0" True 7 "[(False, 5)]"
      "\<lparr>v4_tos = 0, v4_id = (0, 1), v4_frag = 0x4000, v4_ttl = 64, v4_csum = (0, 0),
         v4_src = [192, 0, 0, 1], v4_dst = [192, 0, 0, 2], v4_opts = [1, 1, 1, 0]\<rparr>"
      "Udp (48, 57) (1, 187) [0, 0] [1, 2, 3] []" 56 60 "[0, 0, 0]"]
  by (simp add: all_vids_def v4_ok_def v4_hlen_def)

text \<open>
  Round trip for IPv6. The same for a frame that carries an IPv6 header, up to four
  hop-by-hop, routing, destination or authentication headers in any order, and a TCP, UDP
  or other segment: addresses, final protocol and ports come back, whatever pads the frame.
\<close>

theorem es_parse_ipv6_roundtrip:
  assumes "length macs = 12" and "length (all_vids sv vid tags) \<le> 2"
    and "v6_ok h" and "seg_ok s" and "length es \<le> 4" and "\<forall>e \<in> set es. ext_ok e"
    and "\<not> es_ext (seg_proto s)" and "seg_proto s \<noteq> 50"
    and "n = length (exts_bytes es (seg_proto s)) + length (seg_bytes s)"
    and "0 < n" and "n < 65536"
    and "p = eth_frame macs tags 0x86dd (v6_bytes h (first_next es (seg_proto s)) n @
      exts_bytes es (seg_proto s) @ seg_bytes s @ pad)"
    and "14 + 4 * length tags + 40 + n \<le> unat len"
    and "14 + 4 * length tags + 40 + length (exts_bytes es (seg_proto s)) + seg_head s
      \<le> min (unat cap) 128"
  shows "es_parse p cap len sv vid = Some (ES_PARSE_OK,
    frame_tuple (all_vids sv vid tags) 0x86dd 6 (v6_src h) (v6_dst h) (seg_proto s) (seg_ports s))"
proof -
  let ?w = "parse_window cap len" and ?vids = "all_vids sv vid tags"
  have w: "14 + 4 * length tags + 40 + length (exts_bytes es (seg_proto s)) + seg_head s \<le> unat ?w"
    using assms(9,13,14) seg_head_le [OF assms(4)] by (simp add: unat_parse_window)
  have "es_parse p cap len sv vid =
      es_parse_l3 p ?w len (l3_offset tags) 0x86dd (l2_tuple ?vids)"
    using assms(1,2) w by (intro es_parse_frame [OF assms(12)]) (auto simp: es_vlan_def)
  also have "\<dots> = es_parse_ipv6 p ?w len (l3_offset tags) ((l2_tuple ?vids)\<lparr>t_ethertype := 0x86dd\<rparr>)"
    by (simp add: es_parse_l3_def es_vlan_def)
  also have "\<dots> = Some (ES_PARSE_OK, seg_tuple s (v6_tuple h (seg_proto s)
      ((l2_tuple ?vids)\<lparr>t_ethertype := 0x86dd\<rparr>)))"
    using assms(3-8,10,11,13) w unfolding assms(9)
    by (intro ipv6_frame [OF assms(12) [unfolded eth_frame_at_l3 assms(9)]])
      (simp_all only: length_l2 [OF assms(1)] unat_l3_offset [OF vids_tags [OF assms(2)]], simp_all)
  finally show ?thesis
    by (simp only: frame_tuple_v6 [OF assms(3)])
qed

theorem es_parse_ipv6_roundtrip_witness:
  "es_parse (eth_frame (replicate 12 0) [] 0x86dd
      (v6_bytes \<lparr>v6_class = 0, v6_label = (0, 0, 0), v6_hop = 64, v6_src = replicate 16 32,
         v6_dst = replicate 16 33\<rparr> 60 20 @
       exts_bytes [Opt 60 0 (replicate 6 0)] 17 @
       seg_bytes (Udp (48, 57) (1, 187) [0, 0] [1, 2, 3, 4] []) @ [])) 74 74 False 0 =
   Some (ES_PARSE_OK, frame_tuple [] 0x86dd 6 (replicate 16 32) (replicate 16 33) 17
     (Some ((48, 57), (1, 187))))"
  using es_parse_ipv6_roundtrip [OF _ _ _ _ _ _ _ _ refl _ _ refl, of "replicate 12 0" False 0 "[]"
      "\<lparr>v6_class = 0, v6_label = (0, 0, 0), v6_hop = 64, v6_src = replicate 16 32,
         v6_dst = replicate 16 33\<rparr>"
      "Udp (48, 57) (1, 187) [0, 0] [1, 2, 3, 4] []" "[Opt 60 0 (replicate 6 0)]" 74 74 "[]"]
  by (simp add: all_vids_def v6_ok_def es_ext_def)

text \<open>
  Round trip for ARP. An Ethernet/IPv4 ARP message behind up to two VLAN tags gives its
  sender and target protocol addresses, no protocol and no ports.
\<close>

theorem es_parse_arp_roundtrip:
  assumes "length macs = 12" and "length (all_vids sv vid tags) \<le> 2"
    and "length sha = 6" and "length spa = 4" and "length tha = 6" and "length tpa = 4"
    and "p = eth_frame macs tags 0x0806 (arp_bytes op sha spa tha tpa @ pad)"
    and "14 + 4 * length tags + 28 \<le> min (unat cap) (unat len)"
  shows "es_parse p cap len sv vid =
    Some (ES_PARSE_OK, frame_tuple (all_vids sv vid tags) 0x0806 4 spa tpa 0 None)"
proof -
  let ?w = "parse_window cap len" and ?vids = "all_vids sv vid tags"
  have tags: "length tags \<le> 2"
    using assms(2) by (rule vids_tags)
  then have w: "14 + 4 * length tags + 28 \<le> unat ?w"
    using assms(8) by (simp add: unat_parse_window)
  have "es_parse p cap len sv vid =
      es_parse_l3 p ?w len (l3_offset tags) 0x0806 (l2_tuple ?vids)"
    using assms(1,2) w by (intro es_parse_frame [OF assms(7)]) (auto simp: es_vlan_def)
  also have "\<dots> = es_parse_arp p ?w len (l3_offset tags) ((l2_tuple ?vids)\<lparr>t_ethertype := 0x0806\<rparr>)"
    by (simp add: es_parse_l3_def es_vlan_def)
  also have "\<dots> = Some (ES_PARSE_OK, arp_tuple spa tpa ((l2_tuple ?vids)\<lparr>t_ethertype := 0x0806\<rparr>))"
    using assms(3-6,8) w
    by (intro arp_frame [OF assms(7) [unfolded eth_frame_at_l3]])
      (auto simp only: length_l2 [OF assms(1)] unat_l3_offset [OF tags] min.bounded_iff)
  finally show ?thesis
    by (simp only: frame_tuple_arp [OF assms(4,6)])
qed

theorem es_parse_arp_roundtrip_witness:
  "es_parse (eth_frame (replicate 12 0) [(True, 3)] 0x0806
      (arp_bytes (0, 1) (replicate 6 1) [192, 0, 2, 1] (replicate 6 0) [192, 0, 2, 2] @ []))
      46 46 False 0 =
   Some (ES_PARSE_OK, frame_tuple [3] 0x0806 4 [192, 0, 2, 1] [192, 0, 2, 2] 0 None)"
  using es_parse_arp_roundtrip [OF _ _ _ _ _ _ refl, of "replicate 12 0" False 0 "[(True, 3)]"
      "replicate 6 1" "[192, 0, 2, 1]" "replicate 6 0" "[192, 0, 2, 2]" 46 46 "(0, 1)" "[]"]
  by (simp add: all_vids_def)

end
