(* ===== verification/Parser_Converse.thy ===== *)
theory Parser_Converse
  imports Parser_Roundtrip
begin

text \<open>
  From a run of the parser back to the bytes: when \<^const>\<open>es_parse_l4\<close>, \<^const>\<open>es_parse_arp\<close>,
  \<^const>\<open>es_parse_ipv4\<close>, \<^const>\<open>es_parse_ipv6\<close> or the VLAN loop goes through with a result of
  interest (OK or FRAGMENT), the bytes it stood on are a header built from its fields, and
  the tuple is the one that header gives.
\<close>

section \<open>From reads to segments\<close>

lemma drop_rd: "rd p i = Some a \<Longrightarrow> j = Suc i \<Longrightarrow> drop i p = a # drop j p"
  by (auto simp: rd_def Cons_nth_drop_Suc split: if_splits)

lemma be16_bytes_val: "be16_bytes (be16_val a b) = [a, b]"
proof -
  have "ucast (drop_bit 8 (be16_val a b)) = a"
    by (rule bit_word_eqI) (auto simp: be16_val_def bit_simps dest: bit_imp_le_length)
  moreover have "ucast (be16_val a b) = b"
    by (rule bit_word_eqI) (auto simp: be16_val_def bit_simps dest: bit_imp_le_length)
  ultimately show ?thesis by (simp add: be16_bytes_def)
qed

lemma drop_be16: "es_be16 p i = Some w \<Longrightarrow> j = i + 2 \<Longrightarrow> drop i p = be16_bytes w @ drop j p"
  using drop_rd [of p i _ "Suc i"] drop_rd [of p "Suc i" _ j]
  by (auto simp: es_be16_def be16_bytes_val split: bind_splits)

lemma drop_rdn: "rdn p i n = Some xs \<Longrightarrow> j = i + n \<Longrightarrow> drop i p = xs @ drop j p"
  using append_take_drop_id [of n "drop i p"] by (auto simp: rdn_def add.commute split: if_splits)

text \<open>The bytes from \<open>i\<close> to before \<open>j\<close>.\<close>

definition slice :: "nat \<Rightarrow> nat \<Rightarrow> bytes \<Rightarrow> bytes" where
  "slice i j p = take (j - i) (drop i p)"

lemma drop_slice: "i \<le> j \<Longrightarrow> drop i p = slice i j p @ drop j p"
  unfolding slice_def by (metis append_take_drop_id drop_drop le_add_diff_inverse2)

lemma length_slice [simp]: "j \<le> length p \<Longrightarrow> length (slice i j p) = j - i"
  by (simp add: slice_def)

lemma nibble_split:
  fixes b :: u8
  shows "push_bit 4 (word_of_nat (unat (drop_bit 4 b))) OR (b AND 0x0f) = b"
    and "unat (drop_bit 4 b) < 16" and "b AND 0x0f < 16" and "unat (b AND 0x0f) < 16"
proof -
  have mask: "(0x0f :: u8) = mask 4"
    by (simp add: mask_eq_exp_minus_1)
  show "push_bit 4 (word_of_nat (unat (drop_bit 4 b))) OR (b AND 0x0f) = b"
    unfolding mask by (rule bit_word_eqI) (auto simp: bit_simps)
  show "unat (drop_bit 4 b) < 16"
    using unat_u8_less [of b] by (simp add: drop_bit_eq_div unat_div)
  show low: "unat (b AND 0x0f) < 16"
    unfolding mask take_bit_eq_mask [symmetric] using take_bit_nat_less_exp [of 4 "unat b"]
    by (simp add: unsigned_take_bit_eq)
  then show "b AND 0x0f < 16"
    by (simp add: word_less_nat_alt)
qed

lemma unat_nibble4:
  assumes "unat (n :: u8) < 16"
  shows "unat (ucast n * 4 :: u32) = 4 * unat n"
  using unat_times4_u8 [OF assms] by simp

text \<open>A guard that lets a result of interest pass was satisfied.\<close>

definition accepted :: "es_parse_status \<Rightarrow> bool" where
  "accepted rc \<longleftrightarrow> rc = ES_PARSE_OK \<or> rc = ES_PARSE_FRAGMENT"

lemma accepted_simps [simp]:
  "accepted ES_PARSE_OK" "accepted ES_PARSE_FRAGMENT" "\<not> accepted ES_PARSE_TRUNCATED"
  "\<not> accepted ES_PARSE_UNSUPPORTED" "\<not> accepted ES_PARSE_MALFORMED" "\<not> accepted ES_PARSE_SKIPPED"
  by (simp_all add: accepted_def)

fun exit_accepted :: "'a loop_exit \<Rightarrow> bool" where
  "exit_accepted (Returned rc t) = accepted rc"
| "exit_accepted (Left x) = True"

lemma need_rejects: "es_need off n cap endp = rc \<Longrightarrow> accepted rc \<Longrightarrow> rc = ES_PARSE_OK"
  by (auto simp: es_need_nat accepted_def split: if_splits)

lemma guard_ret_accepted:
  assumes "es_guard (es_need off n cap endp) (ret t) k = Some (rc, t')" and "accepted rc"
  shows "k = Some (rc, t')" and "unat off + unat n \<le> unat cap" and "unat off + unat n \<le> unat endp"
proof -
  have "es_need off n cap endp = ES_PARSE_OK"
    using assms need_rejects by (auto simp: es_guard_def ret_def split: if_splits)
  then show "k = Some (rc, t')" and "unat off + unat n \<le> unat cap" and "unat off + unat n \<le> unat endp"
    using assms(1) by (simp_all add: need_simps es_guard_def)
qed

lemma ret_accepted: "ret t rc = Some (rc', t') \<longleftrightarrow> rc' = rc \<and> t' = t"
  by (auto simp: ret_def)

section \<open>The transport header\<close>

lemma ports_back:
  assumes "es_parse_ports p l4 t = Some (rc, t')"
  shows "\<exists>s d. drop (unat l4) p = [fst s, snd s, fst d, snd d] @ drop (unat l4 + 4) p \<and> rc = ES_PARSE_OK \<and>
    t' = add_flag ES_T_PORTS_VALID (t\<lparr>t_sport := s, t_dport := d\<rparr>)"
proof -
  obtain s0 s1 d0 d1 where r: "rd p (unat l4) = Some s0" "rd p (unat l4 + 1) = Some s1"
      "rd p (unat l4 + 2) = Some d0" "rd p (unat l4 + 3) = Some d1"
    and t': "rc = ES_PARSE_OK" "t' = add_flag ES_T_PORTS_VALID (t\<lparr>t_sport := (s0, s1), t_dport := (d0, d1)\<rparr>)"
    using assms by (auto simp: es_parse_ports_def ret_def split: bind_splits)
  have "drop (unat l4) p = [s0, s1, d0, d1] @ drop (unat l4 + 4) p"
    using drop_rd [OF r(1), of "unat l4 + 1"] drop_rd [OF r(2), of "unat l4 + 2"] drop_rd [OF r(3), of "unat l4 + 3"]
      drop_rd [OF r(4), of "unat l4 + 4"] by simp
  then show ?thesis
    using t' by (intro exI [of _ "(s0, s1)"] exI [of _ "(d0, d1)"]) simp
qed

lemma udp_back:
  assumes run: "es_parse_l4 p cap endp l4 t = Some (rc, t')" and rc: "accepted rc" and proto: "t_l4_proto t = 17"
    and endp: "unat endp \<le> length p"
  shows "\<exists>s. seg_ok s \<and> seg_proto s = 17 \<and> drop (unat l4) p = seg_bytes s @ drop (unat endp) p \<and> rc = ES_PARSE_OK \<and>
    t' = seg_tuple s t \<and> unat l4 + seg_head s \<le> unat cap \<and> unat l4 + length (seg_bytes s) = unat endp"
proof -
  note G = guard_ret_accepted [OF run [unfolded es_parse_l4_def proto, simplified] rc]
  have le: "unat l4 + 8 \<le> unat cap" "unat l4 + 8 \<le> unat endp"
    using G(2,3) by simp_all
  obtain w where w: "es_be16 p (unat l4 + 4) = Some w"
    and len: "8 \<le> unat w" "unat w \<le> unat (endp - l4)" and ports: "es_parse_ports p l4 t = Some (rc, t')"
    using G(1) rc by (auto simp: Let_def ret_accepted accepted_def word_less_nat_alt unat_ucast_u16 not_less split: bind_splits if_splits)
  obtain sp dp where sd: "drop (unat l4) p = [fst sp, snd sp, fst dp, snd dp] @ drop (unat l4 + 4) p"
    and t': "rc = ES_PARSE_OK" "t' = add_flag ES_T_PORTS_VALID (t\<lparr>t_sport := sp, t_dport := dp\<rparr>)"
    using ports_back [OF ports] by blast
  have room: "unat (endp - l4) = unat endp - unat l4"
    using le by (intro unat_sub) (simp add: word_le_nat_alt)
  let ?ck = "slice (unat l4 + 6) (unat l4 + 8) p" and ?data = "slice (unat l4 + 8) (unat l4 + unat w) p"
    and ?slack = "slice (unat l4 + unat w) (unat endp) p"
  let ?s = "Udp sp dp ?ck ?data ?slack"
  have cut: "drop (unat l4 + 4) p = be16_bytes w @ ?ck @ ?data @ ?slack @ drop (unat endp) p"
    using drop_be16 [OF w, of "unat l4 + 6"] drop_slice [of "unat l4 + 6" "unat l4 + 8" p]
      drop_slice [of "unat l4 + 8" "unat l4 + unat w" p] drop_slice [of "unat l4 + unat w" "unat endp" p] le len room by simp
  have lens: "length ?ck = 2" "length ?data = unat w - 8" "length ?slack = unat endp - unat l4 - unat w"
    using endp le len room by simp_all
  then have "word_of_nat (8 + length ?data) = w"
    using len(1) by simp
  then have "drop (unat l4) p = seg_bytes ?s @ drop (unat endp) p"
    using sd cut by simp
  moreover have "seg_ok ?s"
    using lens unat_u16_less [of w] by simp
  moreover have "unat l4 + length (seg_bytes ?s) = unat endp"
    using lens le len room by simp
  ultimately show ?thesis
    using t' le by (intro exI [of _ ?s]) simp
qed

lemma tcp_back:
  assumes run: "es_parse_l4 p cap endp l4 t = Some (rc, t')" and rc: "accepted rc" and proto: "t_l4_proto t = 6"
    and endp: "unat endp \<le> length p" and cap: "unat cap \<le> length p"
  shows "\<exists>s. seg_ok s \<and> seg_proto s = 6 \<and> drop (unat l4) p = seg_bytes s @ drop (unat endp) p \<and> rc = ES_PARSE_OK \<and>
    t' = seg_tuple s t \<and> unat l4 + seg_head s \<le> unat cap \<and> unat l4 + length (seg_bytes s) = unat endp"
proof -
  note G = guard_ret_accepted [OF run [unfolded es_parse_l4_def proto, simplified] rc]
  have le: "unat l4 + 20 \<le> unat cap" "unat l4 + 20 \<le> unat endp"
    using G(2,3) by simp_all
  have off: "unat (l4 + 12) = unat l4 + 12"
    using need_index [of l4 20 cap 12] le by simp
  obtain b where b: "rd p (unat l4 + 12) = Some b"
    and len: "20 \<le> unat (ucast (drop_bit 4 b) * 4 :: u32)" "unat (ucast (drop_bit 4 b) * 4 :: u32) \<le> unat (endp - l4)"
    and ports: "es_parse_ports p l4 t = Some (rc, t')"
    using G(1) rc unfolding off
    by (auto simp: Let_def ret_accepted accepted_def word_less_nat_alt not_less split: bind_splits if_splits)
  obtain sp dp where sd: "drop (unat l4) p = [fst sp, snd sp, fst dp, snd dp] @ drop (unat l4 + 4) p"
    and t': "rc = ES_PARSE_OK" "t' = add_flag ES_T_PORTS_VALID (t\<lparr>t_sport := sp, t_dport := dp\<rparr>)"
    using ports_back [OF ports] by blast
  define n where "n = unat (drop_bit 4 b)"
  have n: "5 \<le> n" "n < 16" "unat l4 + 4 * n \<le> unat endp"
    using len nibble_split(2) [of b] unat_nibble4 [of "drop_bit 4 b"] le unat_sub [of l4 endp]
    by (auto simp: n_def word_le_nat_alt)
  let ?sa = "slice (unat l4 + 4) (unat l4 + 12) p" and ?rest = "slice (unat l4 + 13) (unat l4 + 20) p"
    and ?opts = "slice (unat l4 + 20) (unat l4 + 4 * n) p" and ?data = "slice (unat l4 + 4 * n) (unat endp) p"
  let ?s = "Tcp sp dp ?sa (b AND 0x0f) ?rest ?opts ?data"
  have cut: "drop (unat l4 + 4) p = ?sa @ [b] @ ?rest @ ?opts @ ?data @ drop (unat endp) p"
    using drop_slice [of "unat l4 + 4" "unat l4 + 12" p] drop_rd [OF b, of "unat l4 + 13"]
      drop_slice [of "unat l4 + 13" "unat l4 + 20" p] drop_slice [of "unat l4 + 20" "unat l4 + 4 * n" p]
      drop_slice [of "unat l4 + 4 * n" "unat endp" p] n by simp
  have lens: "length ?sa = 8" "length ?rest = 7" "length ?opts = 4 * n - 20" "length ?data = unat endp - unat l4 - 4 * n"
    using endp cap le n by simp_all
  then have "5 + length ?opts div 4 = n" and "4 dvd length ?opts"
    using n by (simp_all add: diff_mult_distrib2 [symmetric] dvd_diff_nat)
  then have byte: "push_bit 4 (word_of_nat (5 + length ?opts div 4)) OR (b AND 0x0f) = b"
    unfolding n_def using nibble_split(1) by simp
  then have "drop (unat l4) p = seg_bytes ?s @ drop (unat endp) p"
    using sd cut by simp
  moreover have "seg_ok ?s"
    using lens n nibble_split(3) [of b] \<open>4 dvd length ?opts\<close> by simp
  moreover have "unat l4 + length (seg_bytes ?s) = unat endp"
    using lens le n by simp
  ultimately show ?thesis
    using t' le by (intro exI [of _ ?s]) simp
qed

lemma l4_back:
  assumes run: "es_parse_l4 p cap endp l4 t = Some (rc, t')" and rc: "accepted rc"
    and endp: "unat endp \<le> length p" and cap: "unat cap \<le> length p"
    and l4: "unat l4 \<le> unat cap" "unat l4 \<le> unat endp"
  shows "\<exists>s. seg_ok s \<and> seg_proto s = t_l4_proto t \<and> drop (unat l4) p = seg_bytes s @ drop (unat endp) p \<and> rc = ES_PARSE_OK \<and>
    t' = seg_tuple s t \<and> unat l4 + seg_head s \<le> unat cap \<and> unat l4 + length (seg_bytes s) = unat endp"
proof (cases "t_l4_proto t = 6 \<or> t_l4_proto t = 17")
  case True
  then show ?thesis
    using udp_back [OF run rc _ endp] tcp_back [OF run rc _ endp cap] by auto
next
  case False
  then show ?thesis
    using run drop_slice [OF l4(2), of p] endp l4
    by (intro exI [of _ "Other (t_l4_proto t) (slice (unat l4) (unat endp) p)"])
      (auto simp: es_parse_l4_def ret_accepted)
qed

section \<open>The network headers\<close>

lemma arp_back:
  assumes run: "es_parse_arp p cap endp off t = Some (rc, t')" and rc: "accepted rc" and cap: "unat cap \<le> length p"
  shows "\<exists>op sha spa tha tpa. length sha = 6 \<and> length spa = 4 \<and> length tha = 6 \<and> length tpa = 4 \<and>
    drop (unat off) p = arp_bytes op sha spa tha tpa @ drop (unat off + 28) p \<and> rc = ES_PARSE_OK \<and>
    t' = arp_tuple spa tpa t \<and> unat off + 28 \<le> unat cap"
proof -
  note G = guard_ret_accepted [OF run [unfolded es_parse_arp_def] rc]
  have le: "unat off + 28 \<le> unat cap" using G(2) by simp
  have off: "unat (off + 4) = unat off + 4" "unat (off + 5) = unat off + 5"
    using need_index [of off 28 cap 4] need_index [of off 28 cap 5] le by simp_all
  obtain s d where r: "es_be16 p (unat off) = Some 1" "es_be16 p (unat off + 2) = Some 0x0800"
      "rd p (unat off + 4) = Some 6" "rd p (unat off + 5) = Some 4"
      "rdn p (unat off + 14) 4 = Some s" "rdn p (unat off + 24) 4 = Some d"
    and t': "rc = ES_PARSE_OK" "t' = arp_tuple s d t"
    using G(1) rc unfolding off
    by (auto simp: ret_accepted accepted_def arp_tuple_def split: bind_splits if_splits)
  let ?op = "slice (unat off + 6) (unat off + 8) p" and ?sha = "slice (unat off + 8) (unat off + 14) p"
    and ?tha = "slice (unat off + 18) (unat off + 24) p"
  have lens: "length ?op = 2" "length ?sha = 6" "length ?tha = 6" "length s = 4" "length d = 4"
    using le cap length_rdn [OF r(5)] length_rdn [OF r(6)] by simp_all
  obtain a b where op: "?op = [a, b]"
    using lens(1) by (auto simp: numeral_2_eq_2 length_Suc_conv)
  have "drop (unat off) p = be16_bytes 1 @ be16_bytes 0x0800 @ [6, 4] @ ?op @ ?sha @ s @ ?tha @ d @ drop (unat off + 28) p"
    using drop_be16 [OF r(1), of "unat off + 2"] drop_be16 [OF r(2), of "unat off + 4"]
      drop_rd [OF r(3), of "unat off + 5"] drop_rd [OF r(4), of "unat off + 6"]
      drop_slice [of "unat off + 6" "unat off + 8" p] drop_slice [of "unat off + 8" "unat off + 14" p]
      drop_rdn [OF r(5), of "unat off + 18"] drop_slice [of "unat off + 18" "unat off + 24" p]
      drop_rdn [OF r(6), of "unat off + 28"] by simp
  then have "drop (unat off) p = arp_bytes (a, b) ?sha s ?tha d @ drop (unat off + 28) p"
    by (simp add: arp_bytes_def op)
  then show ?thesis
    using lens le t' by blast
qed

lemma ipv4_back:
  assumes run: "es_parse_ipv4 p cap endp off t = Some (rc, t')" and rc: "accepted rc" and cap: "unat cap \<le> length p"
  shows "\<exists>h proto n endp' l4. v4_ok h \<and> v4_hlen h + n < 65536 \<and>
    drop (unat off) p = v4_bytes h proto n @ drop (unat off + v4_hlen h) p \<and>
    unat off + v4_hlen h + n \<le> unat endp \<and> unat off + v4_hlen h \<le> unat cap \<and>
    unat endp' = unat off + v4_hlen h + n \<and> unat l4 = unat off + v4_hlen h \<and>
    (if v4_frag h AND 0x3fff \<noteq> 0 then rc = ES_PARSE_FRAGMENT \<and> t' = add_flag ES_T_FRAGMENT (v4_tuple h proto t)
     else es_parse_l4 p cap endp' l4 (v4_tuple h proto t) = Some (rc, t'))"
proof -
  note G = guard_ret_accepted [OF run [unfolded es_parse_ipv4_def] rc]
  have le: "unat off + 20 \<le> unat cap" "unat off + 20 \<le> unat endp" using G(2,3) by simp_all
  have off9: "unat (off + 9) = unat off + 9"
    using need_index [of off 20 cap 9] le by simp
  obtain b w where b: "rd p (unat off) = Some b" "drop_bit 4 b = 4" and w: "es_be16 p (unat off + 2) = Some w"
    and len: "\<not> ucast (b AND 0x0f) * 4 < (20 :: u32)" "\<not> ucast w < ucast (b AND 0x0f) * (4 :: u32)" "\<not> ucast w > endp - off"
    and body: "es_guard (es_need off (ucast (b AND 0x0f) * 4) cap (off + ucast w)) (ret t) (do {
        proto \<leftarrow> rd p (unat (off + 9));
        s \<leftarrow> rdn p (unat off + 12) 4;
        d \<leftarrow> rdn p (unat off + 16) 4;
        let t = add_flag ES_T_ADDR_VALID (t\<lparr>t_ip_version := 4, t_l4_proto := proto,
              t_src := blit (t_src t) s, t_dst := blit (t_dst t) d\<rparr>);
        frag \<leftarrow> es_be16 p (unat off + 6);
        if frag AND 0x3fff \<noteq> 0 then ret (add_flag ES_T_FRAGMENT t) ES_PARSE_FRAGMENT
        else es_parse_l4 p cap (off + ucast w) (off + ucast (b AND 0x0f) * 4) t
      }) = Some (rc, t')"
    using G(1) rc by (auto simp: Let_def ret_accepted accepted_def split: bind_splits if_splits)
  define m where "m = unat (b AND 0x0f)"
  have m: "unat (ucast (b AND 0x0f) * 4 :: u32) = 4 * m" and m16: "m < 16"
    using unat_nibble4 nibble_split(4) [of b] by (simp_all add: m_def)
  have hl: "20 \<le> 4 * m" "4 * m \<le> unat w" "unat off + unat w \<le> unat endp"
    using len m le unat_sub [of off endp] by (simp_all add: word_less_nat_alt unat_ucast_u16 word_le_nat_alt not_less)
  have total: "unat (off + ucast w) = unat off + unat w"
    using need_index [of off "unat w" endp "ucast w"] hl(3) by (simp add: unat_ucast_u16)
  note H = guard_ret_accepted [OF body rc]
  have cap4: "unat off + 4 * m \<le> unat cap"
    using H(2) m by simp
  have l4: "unat (off + ucast (b AND 0x0f) * 4) = unat off + 4 * m"
    using need_index [of off "4 * m" cap "ucast (b AND 0x0f) * 4"] cap4 m by simp
  obtain proto s d frag where r: "rd p (unat off + 9) = Some proto" "rdn p (unat off + 12) 4 = Some s"
      "rdn p (unat off + 16) 4 = Some d" "es_be16 p (unat off + 6) = Some frag"
    and rest: "(let t = add_flag ES_T_ADDR_VALID (t\<lparr>t_ip_version := 4, t_l4_proto := proto,
              t_src := blit (t_src t) s, t_dst := blit (t_dst t) d\<rparr>) in
        if frag AND 0x3fff \<noteq> 0 then ret (add_flag ES_T_FRAGMENT t) ES_PARSE_FRAGMENT
        else es_parse_l4 p cap (off + ucast w) (off + ucast (b AND 0x0f) * 4) t) = Some (rc, t')"
    using H(1) unfolding off9 by (auto simp: Let_def split: bind_splits)
  let ?opts = "slice (unat off + 20) (unat off + 4 * m) p"
  have bytes: "unat off + 4 \<le> length p" "unat off + 20 \<le> length p"
    using le cap by simp_all
  obtain tos i0 i1 ttl c0 c1 where u: "rd p (unat off + 1) = Some tos" "rd p (unat off + 4) = Some i0"
      "rd p (unat off + 5) = Some i1" "rd p (unat off + 8) = Some ttl" "rd p (unat off + 10) = Some c0"
      "rd p (unat off + 11) = Some c1"
    using bytes by (simp add: rd_def)
  define h where "h = \<lparr>v4_tos = tos, v4_id = (i0, i1), v4_frag = frag, v4_ttl = ttl, v4_csum = (c0, c1),
      v4_src = s, v4_dst = d, v4_opts = ?opts\<rparr>"
  have opts: "length ?opts = 4 * m - 20"
    using cap4 cap by simp
  then have dvd: "4 dvd length ?opts" and n5: "5 + length ?opts div 4 = m"
    using hl(1) by (simp_all add: dvd_diff_nat diff_mult_distrib2 [symmetric])
  have ok: "v4_ok h" and hlen: "v4_hlen h = 4 * m"
    using opts dvd m16 hl(1) length_rdn [OF r(2)] length_rdn [OF r(3)] by (simp_all add: h_def v4_ok_def v4_hlen_def)
  have first: "push_bit 4 (word_of_nat 4) OR word_of_nat m = b"
    using nibble_split(1) [of b] b(2) by (simp add: m_def)
  have len_w: "word_of_nat (v4_hlen h + (unat w - 4 * m)) = w"
    using hl(2) by (simp add: hlen)
  have "drop (unat off) p = [b, tos] @ be16_bytes w @ [i0, i1] @ be16_bytes frag @ [ttl, proto, c0, c1] @ s @ d @ ?opts @
      drop (unat off + 4 * m) p"
    using drop_rd [OF b(1), of "unat off + 1"] drop_rd [OF u(1), of "unat off + 2"] drop_be16 [OF w, of "unat off + 4"]
      drop_rd [OF u(2), of "unat off + 5"] drop_rd [OF u(3), of "unat off + 6"] drop_be16 [OF r(4), of "unat off + 8"]
      drop_rd [OF u(4), of "unat off + 9"] drop_rd [OF r(1), of "unat off + 10"] drop_rd [OF u(5), of "unat off + 11"]
      drop_rd [OF u(6), of "unat off + 12"] drop_rdn [OF r(2), of "unat off + 16"] drop_rdn [OF r(3), of "unat off + 20"]
      drop_slice [of "unat off + 20" "unat off + 4 * m" p] hl(1) by simp
  then have "drop (unat off) p = v4_bytes h proto (unat w - 4 * m) @ drop (unat off + v4_hlen h) p"
    unfolding v4_bytes_def len_w by (simp add: h_def n5 first [simplified] hlen [unfolded h_def])
  moreover have "if v4_frag h AND 0x3fff \<noteq> 0 then rc = ES_PARSE_FRAGMENT \<and> t' = add_flag ES_T_FRAGMENT (v4_tuple h proto t)
     else es_parse_l4 p cap (off + ucast w) (off + ucast (b AND 0x0f) * 4) (v4_tuple h proto t) = Some (rc, t')"
    using rest by (simp add: h_def v4_tuple_def Let_def ret_accepted split: if_splits)
  ultimately show ?thesis
    using ok hl total l4 cap4 unat_u16_less [of w] unfolding hlen
    by (intro exI [of _ h] exI [of _ proto] exI [of _ "unat w - 4 * m"] exI [of _ "off + ucast w"]
        exI [of _ "off + ucast (b AND 0x0f) * 4"]) (simp add: hlen)
qed

section \<open>IPv6 and its extension headers\<close>

lemma guard_stop_accepted:
  assumes "es_guard (es_need off n cap endp) (stop t) k = Some r"
    and "exit_accepted r"
  shows "k = Some r" and "unat off + unat n \<le> unat cap" and "unat off + unat n \<le> unat endp"
proof -
  have "es_need off n cap endp = ES_PARSE_OK"
    using assms need_rejects by (auto simp: es_guard_def stop_def split: if_splits)
  then show "k = Some r" and "unat off + unat n \<le> unat cap" and "unat off + unat n \<le> unat endp"
    using assms(1) by (simp_all add: need_simps es_guard_def)
qed

text \<open>How the loop over the extension headers can end: at another header, or at a fragment header.\<close>

definition exts_end :: "bytes \<Rightarrow> u32 \<Rightarrow> u32 \<Rightarrow> es_tuple \<Rightarrow> nat \<Rightarrow> nat \<Rightarrow> (u32 \<times> u8) loop_exit \<Rightarrow> ext_hdr list \<Rightarrow> u8 \<Rightarrow> bool" where
  "exts_end p cap endp t fuel i r es final \<longleftrightarrow> (case r of
     Left (off', next) \<Rightarrow> next = final \<and> unat off' = i \<and> (length es = fuel \<or> \<not> es_ext final)
   | Returned rc u \<Rightarrow> rc = ES_PARSE_FRAGMENT \<and> final = 44 \<and> length es < fuel \<and>
       i + 8 \<le> unat cap \<and> i + 8 \<le> unat endp \<and>
       (\<exists>b. rd p i = Some b \<and> u = add_flag ES_T_FRAGMENT (t\<lparr>t_l4_proto := b\<rparr>)))"

lemma exts_back:
  assumes "es_ext_loop fuel p cap endp off next t = Some r" and "exit_accepted r"
    and "unat cap \<le> length p" and "unat off \<le> unat cap" and "unat off \<le> unat endp"
  shows "\<exists>es final i. length es \<le> fuel \<and> (\<forall>e \<in> set es. ext_ok e) \<and> next = first_next es final \<and>
    drop (unat off) p = exts_bytes es final @ drop i p \<and> i = unat off + length (exts_bytes es final) \<and>
    i \<le> unat cap \<and> i \<le> unat endp \<and> exts_end p cap endp t fuel i r es final"
  using assms
proof (induction fuel arbitrary: off "next")
  case 0
  then show ?case
    by (intro exI [of _ "[]"] exI [of _ "next"] exI [of _ "unat off"]) (auto simp: exts_end_def)
next
  case (Suc fuel)
  show ?case
  proof (cases "es_ext next")
    case False
    with Suc.prems show ?thesis
      by (intro exI [of _ "[]"] exI [of _ "next"] exI [of _ "unat off"]) (auto simp: exts_end_def)
  next
    case ext: True
    note run = Suc.prems(1) [unfolded es_ext_loop.simps, simplified ext, simplified]
    note G = guard_stop_accepted [OF run Suc.prems(2)]
    show ?thesis
    proof (cases "next = 44")
      case True
      note H = guard_stop_accepted [OF G(1) [unfolded True, simplified] Suc.prems(2)]
      obtain b where "rd p (unat off) = Some b" and "r = Returned ES_PARSE_FRAGMENT (add_flag ES_T_FRAGMENT (t\<lparr>t_l4_proto := b\<rparr>))"
        using H(1) by (auto simp: stop_def split: bind_splits)
      then show ?thesis
        using H(2,3) True Suc.prems(4,5)
        by (intro exI [of _ "[]"] exI [of _ 44] exI [of _ "unat off"]) (simp add: exts_end_def)
    next
      case False
      have off1: "unat (off + 1) = unat off + 1"
        using need_index [of off 2 cap 1] G(2) by simp
      obtain n where n: "rd p (unat off + 1) = Some n"
        using G(2) Suc.prems(3) by (simp add: rd_def)
      define len :: u32 where "len = (if next = 51 then (ucast n + 2) * 4 else (ucast n + 1) * 8)"
      have len: "unat len = (if next = 51 then 4 * unat n + 8 else 8 * unat n + 8)"
        using unat_ext_len [of n] by (simp add: len_def)
      then have "\<not> len < 8"
        by (simp add: word_less_nat_alt)
      then have "es_guard (es_need off len cap endp) (stop t)
          (do { b \<leftarrow> rd p (unat off); es_ext_loop fuel p cap endp (off + len) b t }) = Some r"
        using G(1) False n by (simp add: off1 Let_def flip: len_def)
      note H = guard_stop_accepted [OF this Suc.prems(2)]
      obtain b where b: "rd p (unat off) = Some b" and rest: "es_ext_loop fuel p cap endp (off + len) b t = Some r"
        using H(1) by (auto split: bind_splits)
      have off': "unat (off + len) = unat off + unat len"
        using need_index [of off "unat len" cap len] H(2) by simp
      obtain es final i where IH: "length es \<le> fuel" "\<forall>e \<in> set es. ext_ok e" "b = first_next es final"
          "drop (unat off + unat len) p = exts_bytes es final @ drop i p"
          "i = unat off + unat len + length (exts_bytes es final)" "i \<le> unat cap" "i \<le> unat endp"
          "exts_end p cap endp t fuel i r es final"
        using Suc.IH [OF rest Suc.prems(2,3)] H(2,3) off' by auto
      let ?body = "slice (unat off + 2) (unat off + unat len) p"
      let ?e = "if next = 51 then Auth n ?body else Opt next n ?body"
      have body: "length ?body = unat len - 2" and len8: "8 \<le> unat len"
        using H(2) Suc.prems(3) len by simp_all
      have e: "ext_ok ?e" "ext_kind ?e = next" "ext_tail ?e = n # ?body"
        using body len ext False by (auto simp: es_ext_def)
      have "drop (unat off) p = [b, n] @ ?body @ exts_bytes es final @ drop i p"
        using drop_rd [OF b, of "unat off + 1"] drop_rd [OF n, of "unat off + 2"]
          drop_slice [of "unat off + 2" "unat off + unat len" p] IH(4) len8 by simp
      then have "drop (unat off) p = exts_bytes (?e # es) final @ drop i p"
        using IH(3) e(3) by simp
      moreover have "i = unat off + length (exts_bytes (?e # es) final)"
        using IH(5) e(3) body len8 by simp
      moreover have "exts_end p cap endp t (Suc fuel) i r (?e # es) final"
        using IH(8) by (simp add: exts_end_def split: loop_exit.splits prod.splits)
      ultimately show ?thesis
        using IH(1,2,6,7) e(1,2)
        by (intro exI [of _ "?e # es"] exI [of _ final] exI [of _ i]) simp
    qed
  qed
qed

definition v6_end :: "bytes \<Rightarrow> u32 \<Rightarrow> nat \<Rightarrow> nat \<Rightarrow> ext_hdr list \<Rightarrow> u8 \<Rightarrow> ipv6_header \<Rightarrow> es_tuple \<Rightarrow> es_parse_status \<Rightarrow> es_tuple \<Rightarrow> bool" where
  "v6_end p cap i j es final h t rc t' \<longleftrightarrow>
     rc = ES_PARSE_FRAGMENT \<and> final = 44 \<and> length es < 4 \<and> i + 8 \<le> unat cap \<and> i + 8 \<le> j \<and>
       (\<exists>b. rd p i = Some b \<and> t' = add_flag ES_T_FRAGMENT (v6_tuple h b t)) \<or>
     \<not> es_ext final \<and> final \<noteq> 50 \<and>
       (\<exists>l4 endp. unat l4 = i \<and> unat endp = j \<and> es_parse_l4 p cap endp l4 (v6_tuple h final t) = Some (rc, t'))"

lemma ipv6_back:
  assumes run: "es_parse_ipv6 p cap endp off t = Some (rc, t')" and rc: "accepted rc" and cap: "unat cap \<le> length p"
  shows "\<exists>h es final i n. v6_ok h \<and> length es \<le> 4 \<and> (\<forall>e \<in> set es. ext_ok e) \<and> 0 < n \<and> n < 65536 \<and>
    drop (unat off) p = v6_bytes h (first_next es final) n @ exts_bytes es final @ drop i p \<and>
    i = unat off + 40 + length (exts_bytes es final) \<and> i \<le> unat cap \<and> i \<le> unat off + 40 + n \<and>
    unat off + 40 + n \<le> unat endp \<and> v6_end p cap i (unat off + 40 + n) es final h t rc t'"
proof -
  note G = guard_ret_accepted [OF run [unfolded es_parse_ipv6_def] rc]
  have le: "unat off + 40 \<le> unat cap" "unat off + 40 \<le> unat endp" using G(2,3) by simp_all
  have off: "unat (off + 6) = unat off + 6" "unat (off + 40) = unat off + 40"
    using need_index [of off 40 cap 6] need_index [of off 40 cap 40] le by simp_all
  obtain b w nxt s d r where b: "rd p (unat off) = Some b" "drop_bit 4 b = 6" and w: "es_be16 p (unat off + 4) = Some w"
    and len: "ucast w \<noteq> (0 :: u32)" "\<not> ucast w > endp - off - 40"
    and n: "rd p (unat off + 6) = Some nxt" "rdn p (unat off + 8) 16 = Some s" "rdn p (unat off + 24) 16 = Some d"
    and loop: "es_ext_loop 4 p cap (off + 40 + ucast w) (off + 40) nxt
        (add_flag ES_T_ADDR_VALID (t\<lparr>t_ip_version := 6, t_src := blit (t_src t) s, t_dst := blit (t_dst t) d\<rparr>)) = Some r"
    and rest: "(case r of Returned rc t' \<Rightarrow> ret t' rc
        | Left (off', next) \<Rightarrow>
            (if es_ext next \<or> next = 50
             then ret ((add_flag ES_T_ADDR_VALID (t\<lparr>t_ip_version := 6, t_src := blit (t_src t) s,
                t_dst := blit (t_dst t) d\<rparr>))\<lparr>t_l4_proto := next\<rparr>) ES_PARSE_UNSUPPORTED
             else es_parse_l4 p cap (off + 40 + ucast w) off' ((add_flag ES_T_ADDR_VALID (t\<lparr>t_ip_version := 6,
                t_src := blit (t_src t) s, t_dst := blit (t_dst t) d\<rparr>))\<lparr>t_l4_proto := next\<rparr>))) = Some (rc, t')"
    using G(1) rc unfolding off by (auto simp: Let_def ret_accepted split: bind_splits if_splits)
  let ?t = "add_flag ES_T_ADDR_VALID (t\<lparr>t_ip_version := 6, t_src := blit (t_src t) s, t_dst := blit (t_dst t) d\<rparr>)"
  have "off \<le> endp" and "40 \<le> endp - off"
    using le by (simp_all add: word_le_nat_alt unat_sub)
  then have room: "unat (endp - off - 40) = unat endp - unat off - 40"
    by (simp add: unat_sub)
  have pos: "0 < unat w" and fits: "unat off + 40 + unat w \<le> unat endp"
    using len room le by (auto simp: word_less_nat_alt unat_ucast_u16 not_less word_unat_eq_iff)
  have total: "unat (off + 40 + ucast w) = unat off + 40 + unat w"
    using need_index [of "off + 40" "unat w" endp "ucast w"] fits off by (simp add: unat_ucast_u16)
  have ret_ok: "exit_accepted r"
    using rest rc by (cases r) (simp_all add: ret_accepted)
  obtain es final i where ex: "length es \<le> 4" "\<forall>e \<in> set es. ext_ok e" "nxt = first_next es final"
      "drop (unat off + 40) p = exts_bytes es final @ drop i p" "i = unat off + 40 + length (exts_bytes es final)"
      "i \<le> unat cap" "i \<le> unat off + 40 + unat w" "exts_end p cap (off + 40 + ucast w) ?t 4 i r es final"
    using exts_back [OF loop ret_ok cap] le(1) off(2) total by auto
  obtain a1 a2 a3 hop where u: "rd p (unat off + 1) = Some a1" "rd p (unat off + 2) = Some a2"
      "rd p (unat off + 3) = Some a3" "rd p (unat off + 7) = Some hop"
    using le cap by (simp add: rd_def)
  define h where "h = \<lparr>v6_class = b AND 0x0f, v6_label = (a1, a2, a3), v6_hop = hop, v6_src = s, v6_dst = d\<rparr>"
  have ok: "v6_ok h"
    using nibble_split(3) [of b] length_rdn [OF n(2)] length_rdn [OF n(3)] by (simp add: h_def v6_ok_def)
  have first: "push_bit 4 (word_of_nat 6) OR (b AND 0x0f) = b"
    using nibble_split(1) [of b] b(2) by simp
  have "drop (unat off) p = [b, a1, a2, a3] @ be16_bytes w @ [nxt, hop] @ s @ d @ drop (unat off + 40) p"
    using drop_rd [OF b(1), of "unat off + 1"] drop_rd [OF u(1), of "unat off + 2"] drop_rd [OF u(2), of "unat off + 3"]
      drop_rd [OF u(3), of "unat off + 4"] drop_be16 [OF w, of "unat off + 6"] drop_rd [OF n(1), of "unat off + 7"]
      drop_rd [OF u(4), of "unat off + 8"] drop_rdn [OF n(2), of "unat off + 24"] drop_rdn [OF n(3), of "unat off + 40"] by simp
  then have "drop (unat off) p = v6_bytes h (first_next es final) (unat w) @ exts_bytes es final @ drop i p"
    using ex(3,4) first by (simp add: v6_bytes_def h_def)
  moreover have "v6_end p cap i (unat off + 40 + unat w) es final h t rc t'"
  proof (cases r)
    case (Returned rc' u)
    then show ?thesis
      using ex(8) rest total by (auto simp: exts_end_def v6_end_def v6_tuple_def h_def ret_accepted)
  next
    case (Left x)
    then obtain l4 where r: "r = Left (l4, final)" and l4: "unat l4 = i"
      using ex(8) by (cases x) (auto simp: exts_end_def)
    then have "\<not> es_ext final \<and> final \<noteq> 50 \<and> es_parse_l4 p cap (off + 40 + ucast w) l4 (v6_tuple h final t) = Some (rc, t')"
      using rest rc by (auto simp: Let_def ret_accepted accepted_def v6_tuple_def h_def split: if_splits)
    then show ?thesis
      unfolding v6_end_def using l4 total by blast
  qed
  ultimately show ?thesis
    using ok ex(1,2,5,6,7) pos fits unat_u16_less [of w]
    by (intro exI [of _ h] exI [of _ es] exI [of _ final] exI [of _ i] exI [of _ "unat w"]) simp
qed

section \<open>VLAN tags\<close>

lemma es_vlan_tag: "es_vlan ty \<Longrightarrow> \<exists>service. \<forall>tci. tpid (service, tci) = ty"
  by (auto simp: es_vlan_def intro: exI [of _ True] exI [of _ False])

lemma vlan_back:
  assumes "es_vlan_loop fuel p cap endp off ty (l2_tuple vids) = Some r" and "exit_accepted r"
    and "length vids \<le> 2" and "unat cap \<le> length p" and "unat off \<le> unat cap"
  shows "\<exists>tags off' ty'. r = Left (off', ty', l2_tuple (vids @ map tag_id tags)) \<and> ty = first_type tags ty' \<and>
    drop (unat off) p = after_type tags ty' @ drop (unat off') p \<and> unat off' = unat off + 4 * length tags \<and>
    unat off' \<le> unat cap \<and> length vids + length tags \<le> 2"
  using assms
proof (induction fuel arbitrary: off ty vids)
  case 0
  then show ?case
    by (intro exI [of _ "[]"] exI [of _ off] exI [of _ ty]) auto
next
  case (Suc fuel)
  show ?case
  proof (cases "es_vlan ty")
    case False
    with Suc.prems show ?thesis
      by (intro exI [of _ "[]"] exI [of _ off] exI [of _ ty]) auto
  next
    case True
    have room: "length vids < 2"
    proof (rule ccontr)
      assume "\<not> length vids < 2"
      then have "r = Returned ES_PARSE_UNSUPPORTED (l2_tuple vids)"
        using Suc.prems(1,3) True l2_tuple_count [of vids] by (simp add: stop_def)
      then show False
        using Suc.prems(2) by simp
    qed
    then have "\<not> 2 \<le> t_vlan_count (l2_tuple vids)"
      using l2_tuple_count [of vids] by simp
    note G = guard_stop_accepted [OF Suc.prems(1) [unfolded es_vlan_loop.simps, simplified True this, simplified] Suc.prems(2)]
    obtain tci ty2 where r: "es_be16 p (unat off) = Some tci" "es_be16 p (unat off + 2) = Some ty2"
      and rest: "es_vlan_loop fuel p cap endp (off + 4) ty2 (l2_tuple (vids @ [tci AND 0x0fff])) = Some r"
      using G(1) vlan_push_l2_tuple [OF room] by (auto split: bind_splits)
    have off4: "unat (off + 4) = unat off + 4"
      using need_index [of off 4 cap 4] G(2) by simp
    obtain tags off' ty' where IH: "r = Left (off', ty', l2_tuple ((vids @ [tci AND 0x0fff]) @ map tag_id tags))"
        "ty2 = first_type tags ty'" "drop (unat off + 4) p = after_type tags ty' @ drop (unat off') p"
        "unat off' = unat off + 4 + 4 * length tags" "unat off' \<le> unat cap" "length vids + 1 + length tags \<le> 2"
      using Suc.IH [OF rest Suc.prems(2)] Suc.prems(4) room G(2) off4 by auto
    obtain service where "\<forall>tci. tpid (service, tci) = ty"
      using es_vlan_tag [OF True] by blast
    then show ?thesis
      using IH drop_be16 [OF r(1), of "unat off + 2"] drop_be16 [OF r(2), of "unat off + 4"]
      by (intro exI [of _ "(service, tci) # tags"] exI [of _ off'] exI [of _ ty']) simp
  qed
qed

end
