(* ===== verification/Parser_Grammar.thy ===== *)
theory Parser_Grammar
  imports Parser_Converse
begin

text \<open>
  What the parser accepts: a grammar of Ethernet frames around ARP, IPv4 and IPv6, and the
  theorem that \<^const>\<open>es_parse\<close> answers OK or FRAGMENT for exactly the frames of this grammar,
  with exactly the tuple it gives. The grammar is the parser's specification; no definition
  here models code.
\<close>

section \<open>The grammar\<close>

text \<open>
  A network packet as the parser understands it: ARP, a whole datagram of either IP version,
  or a fragment of one. Of an IPv6 fragment header the first byte, the seven others and the
  bytes after it are kept.
\<close>

datatype packet =
    Arp be16 bytes bytes bytes bytes
  | Ipv4 ipv4_header segment
  | Ipv4Fragment ipv4_header u8 bytes
  | Ipv6 ipv6_header "ext_hdr list" segment
  | Ipv6Fragment ipv6_header "ext_hdr list" u8 bytes bytes

fun packet_type :: "packet \<Rightarrow> u16" where
  "packet_type (Arp op sha spa tha tpa) = 0x0806"
| "packet_type (Ipv4 h s) = 0x0800"
| "packet_type (Ipv4Fragment h proto data) = 0x0800"
| "packet_type (Ipv6 h es s) = 0x86dd"
| "packet_type (Ipv6Fragment h es proto fh data) = 0x86dd"

fun packet_bytes :: "packet \<Rightarrow> bytes" where
  "packet_bytes (Arp op sha spa tha tpa) = arp_bytes op sha spa tha tpa"
| "packet_bytes (Ipv4 h s) = v4_bytes h (seg_proto s) (length (seg_bytes s)) @ seg_bytes s"
| "packet_bytes (Ipv4Fragment h proto data) = v4_bytes h proto (length data) @ data"
| "packet_bytes (Ipv6 h es s) =
     v6_bytes h (first_next es (seg_proto s)) (length (exts_bytes es (seg_proto s)) + length (seg_bytes s)) @
     exts_bytes es (seg_proto s) @ seg_bytes s"
| "packet_bytes (Ipv6Fragment h es proto fh data) =
     v6_bytes h (first_next es 44) (length (exts_bytes es 44) + 8 + length data) @
     exts_bytes es 44 @ [proto] @ fh @ data"

text \<open>Well-formedness: field widths, length fields that fit, and what makes a fragment one.\<close>

fun packet_ok :: "packet \<Rightarrow> bool" where
  "packet_ok (Arp op sha spa tha tpa) \<longleftrightarrow> length sha = 6 \<and> length spa = 4 \<and> length tha = 6 \<and> length tpa = 4"
| "packet_ok (Ipv4 h s) \<longleftrightarrow> v4_ok h \<and> seg_ok s \<and> v4_hlen h + length (seg_bytes s) < 65536 \<and> v4_frag h AND 0x3fff = 0"
| "packet_ok (Ipv4Fragment h proto data) \<longleftrightarrow> v4_ok h \<and> v4_hlen h + length data < 65536 \<and> v4_frag h AND 0x3fff \<noteq> 0"
| "packet_ok (Ipv6 h es s) \<longleftrightarrow> v6_ok h \<and> seg_ok s \<and> length es \<le> 4 \<and> (\<forall>e \<in> set es. ext_ok e) \<and>
     \<not> es_ext (seg_proto s) \<and> seg_proto s \<noteq> 50 \<and> 0 < length (exts_bytes es (seg_proto s)) + length (seg_bytes s) \<and>
     length (exts_bytes es (seg_proto s)) + length (seg_bytes s) < 65536"
| "packet_ok (Ipv6Fragment h es proto fh data) \<longleftrightarrow> v6_ok h \<and> length es \<le> 3 \<and> (\<forall>e \<in> set es. ext_ok e) \<and>
     length fh = 7 \<and> length (exts_bytes es 44) + 8 + length data < 65536"

text \<open>How much of it the capture must hold.\<close>

fun packet_head :: "packet \<Rightarrow> nat" where
  "packet_head (Arp op sha spa tha tpa) = 28"
| "packet_head (Ipv4 h s) = v4_hlen h + seg_head s"
| "packet_head (Ipv4Fragment h proto data) = v4_hlen h"
| "packet_head (Ipv6 h es s) = 40 + length (exts_bytes es (seg_proto s)) + seg_head s"
| "packet_head (Ipv6Fragment h es proto fh data) = 40 + length (exts_bytes es 44) + 8"

fun packet_status :: "packet \<Rightarrow> es_parse_status" where
  "packet_status (Ipv4Fragment h proto data) = ES_PARSE_FRAGMENT"
| "packet_status (Ipv6Fragment h es proto fh data) = ES_PARSE_FRAGMENT"
| "packet_status _ = ES_PARSE_OK"

definition fragment_tuple :: "es_tuple \<Rightarrow> es_tuple" where
  "fragment_tuple t = t\<lparr>t_flags := ES_T_L2_VALID OR ES_T_ADDR_VALID OR ES_T_FRAGMENT\<rparr>"

fun packet_tuple :: "u16 list \<Rightarrow> packet \<Rightarrow> es_tuple" where
  "packet_tuple vids (Arp op sha spa tha tpa) = frame_tuple vids 0x0806 4 spa tpa 0 None"
| "packet_tuple vids (Ipv4 h s) = frame_tuple vids 0x0800 4 (v4_src h) (v4_dst h) (seg_proto s) (seg_ports s)"
| "packet_tuple vids (Ipv4Fragment h proto data) =
     fragment_tuple (frame_tuple vids 0x0800 4 (v4_src h) (v4_dst h) proto None)"
| "packet_tuple vids (Ipv6 h es s) = frame_tuple vids 0x86dd 6 (v6_src h) (v6_dst h) (seg_proto s) (seg_ports s)"
| "packet_tuple vids (Ipv6Fragment h es proto fh data) =
     fragment_tuple (frame_tuple vids 0x86dd 6 (v6_src h) (v6_dst h) proto None)"

lemma fragment_tuple_v6:
  assumes "v6_ok h"
  shows "add_flag ES_T_FRAGMENT (v6_tuple h proto ((l2_tuple vids)\<lparr>t_ethertype := ty\<rparr>)) =
    fragment_tuple (frame_tuple vids ty 6 (v6_src h) (v6_dst h) proto None)"
  using assms by (simp add: fragment_tuple_def frame_tuple_defs v6_tuple_def v6_ok_def)

lemma packet_head_le: "packet_ok pkt \<Longrightarrow> packet_head pkt \<le> length (packet_bytes pkt)"
  by (cases pkt) (auto simp: arp_bytes_def length_v4_bytes length_v6_bytes dest: seg_head_le)

section \<open>The grammar is parsed\<close>

lemma ipv6_fragment_frame:
  assumes p: "p = pre @ packet_bytes (Ipv6Fragment h es proto fh data) @ pad" and off: "unat off = length pre"
    and ok: "packet_ok (Ipv6Fragment h es proto fh data)"
    and endp: "length pre + length (packet_bytes (Ipv6Fragment h es proto fh data)) \<le> unat endp"
    and cap: "length pre + packet_head (Ipv6Fragment h es proto fh data) \<le> unat cap"
  shows "es_parse_ipv6 p cap endp off t = Some (ES_PARSE_FRAGMENT, add_flag ES_T_FRAGMENT (v6_tuple h proto t))"
proof -
  let ?n = "length (exts_bytes es 44) + 8 + length data"
  have h: "v6_ok h" and es: "length es \<le> 4" "\<forall>e \<in> set es. ext_ok e" and n: "0 < ?n" "?n < 65536" and fh: "length fh = 7"
    using ok by simp_all
  have p': "p = pre @ v6_bytes h (first_next es 44) ?n @ exts_bytes es 44 @ ([proto] @ fh @ data @ pad)"
    by (simp add: p)
  define t' where "t' = add_flag ES_T_ADDR_VALID (t\<lparr>t_ip_version := 6,
      t_src := blit (t_src t) (v6_src h), t_dst := blit (t_dst t) (v6_dst h)\<rparr>)"
  have "length (exts_bytes es 44) \<le> ?n" and "length pre + 40 + ?n \<le> unat endp" and "length pre + 40 + length (exts_bytes es 44) \<le> unat cap"
    using endp cap fh by (simp_all add: length_v6_bytes [OF h])
  then obtain endp' l4 where inner: "unat endp' = length pre + 40 + ?n"
    and l4: "unat l4 = length pre + 40 + length (exts_bytes es 44)"
    and parse: "es_ext_loop (4 - length es) p cap endp' l4 44 t' = Some (Returned rc u) \<Longrightarrow>
      es_parse_ipv6 p cap endp off t = ret u rc" for rc u
    using ipv6_header_frame [OF p' off h es n _ _ _ t'_def, of endp cap] by fastforce
  have "length es \<le> 3" using ok by simp
  then have k: "4 - length es = Suc (3 - length es)" by arith
  have "p = (pre @ v6_bytes h (first_next es 44) ?n @ exts_bytes es 44) @ [proto] @ fh @ data @ pad"
    by (simp add: p)
  then have "rd p (unat l4) = Some proto"
    unfolding l4 by (simp add: length_v6_bytes [OF h] rd_append2)
  moreover have "es_need l4 2 cap endp' = ES_PARSE_OK" and "es_need l4 8 cap endp' = ES_PARSE_OK"
    using cap inner l4 by (simp_all add: need_simps)
  ultimately have "es_ext_loop (4 - length es) p cap endp' l4 44 t' =
      Some (Returned ES_PARSE_FRAGMENT (add_flag ES_T_FRAGMENT (t'\<lparr>t_l4_proto := proto\<rparr>)))"
    by (simp add: k es_ext_def stop_def)
  from parse [OF this] show ?thesis
    by (simp add: ret_def v6_tuple_def t'_def)
qed

lemma l3_forward:
  assumes ok: "packet_ok pkt" and p: "p = pre @ packet_bytes pkt @ pad" and off: "unat off = length pre"
    and endp: "length pre + length (packet_bytes pkt) \<le> unat endp" and cap: "length pre + packet_head pkt \<le> unat cap"
  shows "es_parse_l3 p cap endp off (packet_type pkt) (l2_tuple vids) = Some (packet_status pkt, packet_tuple vids pkt)"
proof (cases pkt)
  case (Arp op sha spa tha tpa)
  then have lens: "length sha = 6" "length spa = 4" "length tha = 6" "length tpa = 4"
    using ok by simp_all
  have "es_parse_arp p cap endp off ((l2_tuple vids)\<lparr>t_ethertype := 0x0806\<rparr>) =
      Some (ES_PARSE_OK, arp_tuple spa tpa ((l2_tuple vids)\<lparr>t_ethertype := 0x0806\<rparr>))"
    using p endp cap off
    by (intro arp_frame [where pre = pre and op = op and sha = sha and tha = tha and pad = pad])
      (simp_all add: Arp arp_bytes_def lens)
  then show ?thesis
    by (simp add: Arp es_parse_l3_def es_vlan_def frame_tuple_arp lens)
next
  case (Ipv4 h s)
  then have h: "v4_ok h" and s: "seg_ok s" "v4_hlen h + length (seg_bytes s) < 65536" "v4_frag h AND 0x3fff = 0"
    using ok by simp_all
  have "es_parse_ipv4 p cap endp off ((l2_tuple vids)\<lparr>t_ethertype := 0x0800\<rparr>) =
      Some (ES_PARSE_OK, seg_tuple s (v4_tuple h (seg_proto s) ((l2_tuple vids)\<lparr>t_ethertype := 0x0800\<rparr>)))"
    using ipv4_frame [of p pre h s pad off endp cap] p endp cap off h s by (simp add: Ipv4 length_v4_bytes)
  then show ?thesis
    by (simp add: Ipv4 es_parse_l3_def es_vlan_def frame_tuple_v4 h)
next
  case (Ipv4Fragment h proto data)
  then have h: "v4_ok h" and data: "v4_hlen h + length data < 65536" "v4_frag h AND 0x3fff \<noteq> 0"
    using ok by simp_all
  have "es_parse_ipv4 p cap endp off ((l2_tuple vids)\<lparr>t_ethertype := 0x0800\<rparr>) =
      Some (ES_PARSE_FRAGMENT, add_flag ES_T_FRAGMENT (v4_tuple h proto ((l2_tuple vids)\<lparr>t_ethertype := 0x0800\<rparr>)))"
    using ipv4_header_frame [of p pre h proto "length data" "data @ pad" off endp cap] p endp cap off h data
    by (fastforce simp: Ipv4Fragment length_v4_bytes)
  then show ?thesis
    by (simp add: Ipv4Fragment es_parse_l3_def es_vlan_def fragment_tuple_v4 h fragment_tuple_def)
next
  case (Ipv6 h es s)
  then have h: "v6_ok h" using ok by simp
  have "es_parse_ipv6 p cap endp off ((l2_tuple vids)\<lparr>t_ethertype := 0x86dd\<rparr>) =
      Some (ES_PARSE_OK, seg_tuple s (v6_tuple h (seg_proto s) ((l2_tuple vids)\<lparr>t_ethertype := 0x86dd\<rparr>)))"
    using p endp cap off ok by (intro ipv6_frame [of p pre h es s pad]) (simp_all add: Ipv6 length_v6_bytes)
  then show ?thesis
    by (simp add: Ipv6 es_parse_l3_def es_vlan_def frame_tuple_v6 h)
next
  case (Ipv6Fragment h es proto fh data)
  then have h: "v6_ok h" using ok by simp
  have "es_parse_ipv6 p cap endp off ((l2_tuple vids)\<lparr>t_ethertype := 0x86dd\<rparr>) =
      Some (ES_PARSE_FRAGMENT, add_flag ES_T_FRAGMENT (v6_tuple h proto ((l2_tuple vids)\<lparr>t_ethertype := 0x86dd\<rparr>)))"
    using p endp cap off ok unfolding Ipv6Fragment by (intro ipv6_fragment_frame)
  then show ?thesis
    by (simp add: Ipv6Fragment es_parse_l3_def es_vlan_def fragment_tuple_v6 h)
qed

section \<open>What is parsed is in the grammar\<close>

text \<open>Back from the network header: a well-formed packet at the offset, with its status and tuple.\<close>

definition parsed_packet :: "bytes \<Rightarrow> u32 \<Rightarrow> nat \<Rightarrow> u16 list \<Rightarrow> es_parse_status \<Rightarrow> es_tuple \<Rightarrow> packet \<Rightarrow> bool" where
  "parsed_packet p cap i vids rc t pkt \<longleftrightarrow> packet_ok pkt \<and> (\<exists>pad. drop i p = packet_bytes pkt @ pad) \<and>
     i + packet_head pkt \<le> unat cap \<and> rc = packet_status pkt \<and> t = packet_tuple vids pkt"

lemma arp_parsed:
  assumes run: "es_parse_arp p cap endp off ((l2_tuple vids)\<lparr>t_ethertype := 0x0806\<rparr>) = Some (rc, t')" and rc: "accepted rc"
    and cap: "unat cap \<le> length p"
  shows "\<exists>pkt. packet_type pkt = 0x0806 \<and> parsed_packet p cap (unat off) vids rc t' pkt"
proof -
  obtain op sha spa tha tpa where "length sha = 6" "length spa = 4" "length tha = 6" "length tpa = 4"
      "drop (unat off) p = arp_bytes op sha spa tha tpa @ drop (unat off + 28) p" "rc = ES_PARSE_OK"
      "t' = arp_tuple spa tpa ((l2_tuple vids)\<lparr>t_ethertype := 0x0806\<rparr>)" "unat off + 28 \<le> unat cap"
    using arp_back [OF run rc cap] by blast
  then show ?thesis
    by (intro exI [of _ "Arp op sha spa tha tpa"]) (simp add: parsed_packet_def frame_tuple_arp)
qed

lemma ipv4_parsed:
  assumes run: "es_parse_ipv4 p cap endp off ((l2_tuple vids)\<lparr>t_ethertype := 0x0800\<rparr>) = Some (rc, t')" and rc: "accepted rc"
    and cap: "unat cap \<le> length p" and endp: "unat endp \<le> length p"
  shows "\<exists>pkt. packet_type pkt = 0x0800 \<and> parsed_packet p cap (unat off) vids rc t' pkt"
proof -
  let ?t = "(l2_tuple vids)\<lparr>t_ethertype := 0x0800\<rparr>"
  obtain h proto n endp' l4 where h: "v4_ok h" "v4_hlen h + n < 65536"
      "drop (unat off) p = v4_bytes h proto n @ drop (unat off + v4_hlen h) p"
      "unat off + v4_hlen h + n \<le> unat endp" "unat off + v4_hlen h \<le> unat cap"
      "unat endp' = unat off + v4_hlen h + n" "unat l4 = unat off + v4_hlen h"
      "if v4_frag h AND 0x3fff \<noteq> 0 then rc = ES_PARSE_FRAGMENT \<and> t' = add_flag ES_T_FRAGMENT (v4_tuple h proto ?t)
       else es_parse_l4 p cap endp' l4 (v4_tuple h proto ?t) = Some (rc, t')"
    using ipv4_back [OF run rc cap] by blast
  show ?thesis
  proof (cases "v4_frag h AND 0x3fff = 0")
    case False
    let ?data = "slice (unat off + v4_hlen h) (unat off + v4_hlen h + n) p"
    have "length ?data = n"
      using h(4) endp by simp
    moreover have "drop (unat off) p = v4_bytes h proto n @ ?data @ drop (unat off + v4_hlen h + n) p"
      using h(3) drop_slice [of "unat off + v4_hlen h" "unat off + v4_hlen h + n" p] by simp
    ultimately show ?thesis
      using h False
      by (intro exI [of _ "Ipv4Fragment h proto ?data"])
        (auto simp: parsed_packet_def fragment_tuple_v4 fragment_tuple_def)
  next
    case True
    then have run4: "es_parse_l4 p cap endp' l4 (v4_tuple h proto ?t) = Some (rc, t')"
      using h(8) by simp
    have "unat endp' \<le> length p" and "unat l4 \<le> unat cap" and "unat l4 \<le> unat endp'"
      using h(4-7) endp by simp_all
    from l4_back [OF run4 rc this(1) cap this(2,3)]
    obtain s where s: "seg_ok s" "seg_proto s = proto" "drop (unat l4) p = seg_bytes s @ drop (unat endp') p"
        "rc = ES_PARSE_OK" "t' = seg_tuple s (v4_tuple h proto ?t)" "unat l4 + seg_head s \<le> unat cap"
        "unat l4 + length (seg_bytes s) = unat endp'"
      by (auto simp: v4_tuple_def add_flag_def)
    have "n = length (seg_bytes s)"
      using s(7) h(6,7) by simp
    then show ?thesis
      using h s True by (intro exI [of _ "Ipv4 h s"]) (auto simp: parsed_packet_def frame_tuple_v4)
  qed
qed

lemma ipv6_parsed:
  assumes run: "es_parse_ipv6 p cap endp off ((l2_tuple vids)\<lparr>t_ethertype := 0x86dd\<rparr>) = Some (rc, t')" and rc: "accepted rc"
    and cap: "unat cap \<le> length p" and endp: "unat endp \<le> length p"
  shows "\<exists>pkt. packet_type pkt = 0x86dd \<and> parsed_packet p cap (unat off) vids rc t' pkt"
proof -
  let ?t = "(l2_tuple vids)\<lparr>t_ethertype := 0x86dd\<rparr>"
  obtain h es final i n where h: "v6_ok h" "length es \<le> 4" "\<forall>e \<in> set es. ext_ok e" "0 < n" "n < 65536"
      "drop (unat off) p = v6_bytes h (first_next es final) n @ exts_bytes es final @ drop i p"
      "i = unat off + 40 + length (exts_bytes es final)" "i \<le> unat cap" "i \<le> unat off + 40 + n"
      "unat off + 40 + n \<le> unat endp" "v6_end p cap i (unat off + 40 + n) es final h ?t rc t'"
    using ipv6_back [OF run rc cap] by blast
  let ?j = "unat off + 40 + n"
  from h(11) consider
      (fragment) b where "rc = ES_PARSE_FRAGMENT" "final = 44" "length es < 4" "i + 8 \<le> unat cap" "i + 8 \<le> ?j" "rd p i = Some b"
        "t' = add_flag ES_T_FRAGMENT (v6_tuple h b ?t)"
    | (whole) l4 endp' where "\<not> es_ext final" "final \<noteq> 50" "unat l4 = i" "unat endp' = ?j"
        "es_parse_l4 p cap endp' l4 (v6_tuple h final ?t) = Some (rc, t')"
    unfolding v6_end_def by blast
  then show ?thesis
  proof cases
    case fragment
    let ?fh = "slice (i + 1) (i + 8) p" and ?data = "slice (i + 8) ?j p"
    have lens: "length ?fh = 7" "length ?data = ?j - (i + 8)"
      using fragment(4) h(10) endp cap by simp_all
    have "drop i p = [b] @ ?fh @ ?data @ drop ?j p"
      using drop_rd [OF fragment(6), of "i + 1"] drop_slice [of "i + 1" "i + 8" p] drop_slice [of "i + 8" ?j p] fragment(5) by simp
    moreover have "n = length (exts_bytes es 44) + 8 + length ?data"
      using fragment(2,5) h(7) lens(2) by simp
    ultimately show ?thesis
      using h(1-7) fragment lens
      by (intro exI [of _ "Ipv6Fragment h es b ?fh ?data"]) (auto simp: parsed_packet_def fragment_tuple_v6)
  next
    case whole
    have "unat endp' \<le> length p" and "unat l4 \<le> unat cap" and "unat l4 \<le> unat endp'"
      using whole(3,4) h(8-10) endp by simp_all
    from l4_back [OF whole(5) rc this(1) cap this(2,3)]
    obtain s where s: "seg_ok s" "seg_proto s = final" "drop (unat l4) p = seg_bytes s @ drop (unat endp') p"
        "rc = ES_PARSE_OK" "t' = seg_tuple s (v6_tuple h final ?t)" "unat l4 + seg_head s \<le> unat cap"
        "unat l4 + length (seg_bytes s) = unat endp'"
      by (auto simp: v6_tuple_def)
    have "n = length (exts_bytes es final) + length (seg_bytes s)"
      using s(7) h(7) whole(3,4) by simp
    then show ?thesis
      using h(1-7) s whole by (intro exI [of _ "Ipv6 h es s"]) (auto simp: parsed_packet_def frame_tuple_v6)
  qed
qed

lemma l3_back:
  assumes run: "es_parse_l3 p cap endp off ty (l2_tuple vids) = Some (rc, t')" and rc: "accepted rc"
    and cap: "unat cap \<le> length p" and endp: "unat endp \<le> length p"
  shows "\<exists>pkt. packet_type pkt = ty \<and> parsed_packet p cap (unat off) vids rc t' pkt"
proof -
  consider "ty = 0x0806" | "ty = 0x0800" | "ty = 0x86dd"
    using run rc by (auto simp: es_parse_l3_def Let_def ret_accepted split: if_splits)
  then show ?thesis
    using run arp_parsed [OF _ rc cap] ipv4_parsed [OF _ rc cap endp] ipv6_parsed [OF _ rc cap endp]
    by cases (simp_all add: es_parse_l3_def es_vlan_def)
qed

lemma es_parse_back:
  assumes run: "es_parse p cap len sv vid = Some (rc, t)" and rc: "accepted rc" and len: "length p = unat len"
  shows "\<exists>macs tags pkt pad. length macs = 12 \<and> length (all_vids sv vid tags) \<le> 2 \<and> packet_ok pkt \<and>
    p = eth_frame macs tags (packet_type pkt) (packet_bytes pkt @ pad) \<and>
    14 + 4 * length tags + packet_head pkt \<le> unat (parse_window cap len) \<and>
    rc = packet_status pkt \<and> t = packet_tuple (all_vids sv vid tags) pkt"
proof -
  let ?w = "parse_window cap len" and ?v = "if sv then [vid AND 0x0fff] else []"
  note G = guard_ret_accepted [OF run [unfolded es_parse_def Let_def parse_window_def [unfolded Let_def, symmetric]] rc]
  have w: "14 \<le> unat ?w" and wp: "unat ?w \<le> length p"
    using G(2) by (simp_all add: len unat_parse_window)
  have "(if sv then vlan_push (vid AND 0x0fff) (es_tuple_zero\<lparr>t_flags := ES_T_L2_VALID\<rparr>)
     else Some (es_tuple_zero\<lparr>t_flags := ES_T_L2_VALID\<rparr>)) = Some (l2_tuple ?v)"
    by (simp add: vlan_push_def l2_tuple_def es_tuple_zero_def)
  then obtain ty r where ty: "es_be16 p 12 = Some ty" and loop: "es_vlan_loop 2 p ?w len 14 ty (l2_tuple ?v) = Some r"
    and rest: "(case r of Returned rc t' \<Rightarrow> ret t' rc
        | Left (off, ty, t) \<Rightarrow> es_parse_l3 p ?w len off ty t) = Some (rc, t)"
    using G(1) by (auto split: bind_splits)
  have "exit_accepted r"
    using rest rc by (cases r) (simp_all add: ret_accepted)
  moreover have "length ?v \<le> 2"
    by simp
  ultimately obtain tags off ty' where r: "r = Left (off, ty', l2_tuple (?v @ map tag_id tags))" and first: "ty = first_type tags ty'"
    and tags: "drop 14 p = after_type tags ty' @ drop (unat off) p" "unat off = 14 + 4 * length tags"
      "unat off \<le> unat ?w" "length ?v + length tags \<le> 2"
    using vlan_back [OF loop _ _ wp] w by fastforce
  have "es_parse_l3 p ?w len off ty' (l2_tuple (all_vids sv vid tags)) = Some (rc, t)"
    using rest by (simp add: r all_vids_def)
  then obtain pkt pad where pkt: "packet_type pkt = ty'" "packet_ok pkt" "drop (unat off) p = packet_bytes pkt @ pad"
      "unat off + packet_head pkt \<le> unat ?w" "rc = packet_status pkt" "t = packet_tuple (all_vids sv vid tags) pkt"
    using l3_back [OF _ rc wp, of len off ty' "all_vids sv vid tags" t] len by (auto simp: parsed_packet_def)
  have "p = take 12 p @ be16_bytes ty @ drop 14 p"
    using drop_be16 [OF ty, of 14] append_take_drop_id [of 12 p] by simp
  then have "p = eth_frame (take 12 p) tags (packet_type pkt) (packet_bytes pkt @ pad)"
    using tags(1) pkt(1,3) first by (simp add: eth_frame_def tags_then_type)
  then show ?thesis
    using pkt tags(2,4) w wp
    by (intro exI [of _ "take 12 p"] exI [of _ tags] exI [of _ pkt] exI [of _ pad]) (auto simp: all_vids_def)
qed

section \<open>Properties\<close>

text \<open>
  C2: The parser accepts exactly the grammar. For a packet of any length and any capture of
  it, \<open>es_parse\<close> answers OK or FRAGMENT with a tuple if and only if the packet is an Ethernet
  frame with at most two VLAN tags, counting one the driver stripped, around a well-formed
  ARP message, IPv4 or IPv6 datagram or fragment, with any bytes after it, whose headers the
  capture holds within 128 bytes; status and tuple are then the ones the grammar gives.
\<close>

theorem es_parse_exact:
  assumes "length p = unat len"
  shows "(es_parse p cap len sv vid = Some (rc, t) \<and> (rc = ES_PARSE_OK \<or> rc = ES_PARSE_FRAGMENT)) \<longleftrightarrow>
    (\<exists>macs tags pkt pad. length macs = 12 \<and> length (all_vids sv vid tags) \<le> 2 \<and> packet_ok pkt \<and>
      p = eth_frame macs tags (packet_type pkt) (packet_bytes pkt @ pad) \<and>
      14 + 4 * length tags + packet_head pkt \<le> min (unat cap) 128 \<and>
      rc = packet_status pkt \<and> t = packet_tuple (all_vids sv vid tags) pkt)"
    (is "?parsed \<longleftrightarrow> ?frame")
proof
  assume ?parsed
  then show ?frame
    using es_parse_back [OF _ _ assms, of cap sv vid rc t] by (fastforce simp: accepted_def unat_parse_window)
next
  assume ?frame
  then obtain macs tags pkt pad where macs: "length macs = 12" and vids: "length (all_vids sv vid tags) \<le> 2"
    and ok: "packet_ok pkt" and p: "p = eth_frame macs tags (packet_type pkt) (packet_bytes pkt @ pad)"
    and cap: "14 + 4 * length tags + packet_head pkt \<le> min (unat cap) 128"
    and result: "rc = packet_status pkt" "t = packet_tuple (all_vids sv vid tags) pkt"
    by blast
  let ?w = "parse_window cap len" and ?pre = "macs @ concat (map tag_bytes tags) @ be16_bytes (packet_type pkt)"
  have tags: "length tags \<le> 2"
    using vids by (rule vids_tags)
  have total: "length ?pre + length (packet_bytes pkt) \<le> unat len"
    using assms by (simp add: p eth_frame_def)
  then have w: "14 + 4 * length tags + packet_head pkt \<le> unat ?w"
    using cap packet_head_le [OF ok] unfolding length_l2 [OF macs] by (simp add: unat_parse_window)
  have "es_parse p cap len sv vid = es_parse_l3 p ?w len (l3_offset tags) (packet_type pkt) (l2_tuple (all_vids sv vid tags))"
    using w by (intro es_parse_frame [OF p macs vids]) (cases pkt; simp add: es_vlan_def)+
  also have "\<dots> = Some (packet_status pkt, packet_tuple (all_vids sv vid tags) pkt)"
    using w total p by (intro l3_forward [OF ok, of p ?pre pad])
      (simp_all only: eth_frame_at_l3 length_l2 [OF macs] unat_l3_offset [OF tags])
  finally show ?parsed
    using result by (cases pkt) simp_all
qed

text \<open>A fragment of a UDP datagram over IPv6, behind a hop-by-hop header.\<close>

definition demo_fragment :: packet where
  "demo_fragment = Ipv6Fragment \<lparr>v6_class = 0, v6_label = (0, 0, 0), v6_hop = 64, v6_src = replicate 16 32,
     v6_dst = replicate 16 33\<rparr> [Opt 0 0 (replicate 6 0)] 17 (replicate 7 0) [1, 2, 3, 4]"

theorem es_parse_exact_witness:
  "es_parse (eth_frame (replicate 12 0) [(False, 5)] 0x86dd (packet_bytes demo_fragment @ [])) 78 78 False 0 =
     Some (ES_PARSE_FRAGMENT, packet_tuple [5] demo_fragment)"
proof -
  let ?p = "eth_frame (replicate 12 0) [(False, 5)] 0x86dd (packet_bytes demo_fragment @ [])"
  have "length ?p = unat (78 :: u32)"
    by (simp add: eth_frame_def demo_fragment_def v6_bytes_def)
  moreover have "length (replicate 12 (0 :: u8)) = 12 \<and> length (all_vids False 0 [(False, 5)]) \<le> 2 \<and> packet_ok demo_fragment \<and>
      ?p = eth_frame (replicate 12 0) [(False, 5)] (packet_type demo_fragment) (packet_bytes demo_fragment @ []) \<and>
      14 + 4 * length [(False, 5 :: u16)] + packet_head demo_fragment \<le> min (unat (78 :: u32)) 128 \<and>
      ES_PARSE_FRAGMENT = packet_status demo_fragment \<and>
      packet_tuple [5] demo_fragment = packet_tuple (all_vids False 0 [(False, 5)]) demo_fragment"
    by (simp add: demo_fragment_def v6_ok_def all_vids_def)
  ultimately show ?thesis
    using es_parse_exact [of ?p 78 78 False 0 ES_PARSE_FRAGMENT "packet_tuple [5] demo_fragment"] by blast
qed

end
