(* ===== verification/Telemetry_Types.thy ===== *)
theory Telemetry_Types
  imports Packet_Parser
begin

text \<open>
  The records that cross from the kernel programs to user space, from
  \<open>bpf/elephantshrew_shared.h\<close>, and the decoder \<open>DecodeEvent\<close> of \<open>inc/TelemetryTypes.hpp\<close>
  that checks an untrusted ring-buffer sample. A structure is a record, and its memory image
  is the list of its bytes: integers in host order (little endian, as on the x86 and ARM
  targets), addresses and ports as they came from the wire. No structure has padding, which
  the lengths below confirm.
\<close>

section \<open>Constants and enumerations\<close>

definition ES_ABI_VERSION :: u16 where "ES_ABI_VERSION = 2"

definition ES_SNAPSHOT_MAX :: u32 where "ES_SNAPSHOT_MAX = 128"

definition ES_LINKTYPE_ETHERNET :: u16 where "ES_LINKTYPE_ETHERNET = 1"

definition ES_TC_NEXT :: int where "ES_TC_NEXT = - 1"

definition ES_TC_DROP :: int where "ES_TC_DROP = 2"

definition ES_TC_REDIRECT :: int where "ES_TC_REDIRECT = 7"

datatype es_direction = ES_INGRESS | ES_EGRESS

fun direction_code :: "es_direction \<Rightarrow> u8" where
  "direction_code ES_INGRESS = 0"
| "direction_code ES_EGRESS = 1"

text \<open>There are finitely many directions, so sums and quantifiers over them compute.\<close>

instantiation es_direction :: enum
begin

definition enum_es_direction :: "es_direction list" where
  "enum_es_direction = [ES_INGRESS, ES_EGRESS]"

definition enum_all_es_direction :: "(es_direction \<Rightarrow> bool) \<Rightarrow> bool" where
  "enum_all_es_direction P \<longleftrightarrow> P ES_INGRESS \<and> P ES_EGRESS"

definition enum_ex_es_direction :: "(es_direction \<Rightarrow> bool) \<Rightarrow> bool" where
  "enum_ex_es_direction P \<longleftrightarrow> P ES_INGRESS \<or> P ES_EGRESS"

instance
proof
  show all: "(UNIV :: es_direction set) = set enum_class.enum"
    by (auto simp: enum_es_direction_def intro: es_direction.exhaust)
  show "distinct (enum_class.enum :: es_direction list)"
    by (simp add: enum_es_direction_def)
  show "enum_class.enum_all P \<longleftrightarrow> Ball UNIV P" and "enum_class.enum_ex P \<longleftrightarrow> Bex UNIV P"
    for P :: "es_direction \<Rightarrow> bool"
    by (simp_all add: all enum_es_direction_def enum_all_es_direction_def enum_ex_es_direction_def)
qed

end

lemma UNIV_es_direction: "UNIV = {ES_INGRESS, ES_EGRESS}"
  by (simp add: UNIV_enum enum_es_direction_def)

lemma sum_es_direction: "(\<Sum>dir\<in>UNIV. f dir) = f ES_INGRESS + f ES_EGRESS" for f :: "es_direction \<Rightarrow> nat"
  by (simp add: UNIV_es_direction)

definition ES_DIRECTIONS :: u8 where "ES_DIRECTIONS = 2"

definition ES_HOOK_TC :: u8 where "ES_HOOK_TC = 1"

definition ES_HOOK_XDP :: u8 where "ES_HOOK_XDP = 2"

definition ES_E_PREFIX_TRUNCATED :: u8 where "ES_E_PREFIX_TRUNCATED = push_bit 0 1"

definition ES_E_COPY_FAILED :: u8 where "ES_E_COPY_FAILED = push_bit 1 1"

definition ES_E_VLAN_STRIPPED :: u8 where "ES_E_VLAN_STRIPPED = push_bit 2 1"

datatype es_counter_id =
    ES_C_PACKETS | ES_C_BYTES | ES_C_SELECTED | ES_C_EVENTS | ES_C_RING_LOST
  | ES_C_PARSE_PARTIAL | ES_C_PARSE_MALFORMED | ES_C_SNAPSHOT_FAILED
  | ES_C_FLOW_UPDATE_FAILED | ES_C_POLICY_DROP | ES_C_MIRROR_ATTEMPT | ES_C_MIRROR_ERROR
  | ES_C_REDIRECT_ATTEMPT

text \<open>\<open>struct es_counters\<close>: one 64-bit counter per identifier.\<close>

type_synonym es_counters = "es_counter_id \<Rightarrow> u64"

section \<open>Records\<close>

record es_event =
  e_timestamp_mono_ns :: u64
  e_sequence :: u64
  e_ifindex :: u32
  e_original_len :: u32
  e_cpu :: u32
  e_abi_version :: u16
  e_record_size :: u16
  e_captured_len :: u16
  e_link_type :: u16
  e_direction :: u8
  e_hook :: u8
  e_parse_status :: u8
  e_flags :: u8
  e_tuple :: es_tuple
  e_prefix :: bytes

record es_flow_key =
  k_tuple :: es_tuple
  k_ifindex :: u32
  k_direction :: u8
  k_reserved :: bytes

record es_flow_value =
  f_first_ns :: u64
  f_last_ns :: u64
  f_packets :: u64
  f_bytes :: u64

record TelemetryRecord =
  event :: es_event
  netns_inode :: u64
  session_id :: u64

record TelemetryLoss =
  decode_errors :: u64
  queue_dropped :: u64
  shutdown_discarded :: u64
  poll_error :: int

section \<open>Little-endian integers\<close>

fun le_bytes :: "nat \<Rightarrow> 'a::len word \<Rightarrow> bytes" where
  "le_bytes 0 w = []"
| "le_bytes (Suc n) w = ucast w # le_bytes n (drop_bit 8 w)"

fun le_val :: "bytes \<Rightarrow> 'a::len word" where
  "le_val [] = 0"
| "le_val (b # bs) = ucast b OR push_bit 8 (le_val bs)"

lemma length_le_bytes [simp, layout_simps]: "length (le_bytes n w) = n"
  by (induction n arbitrary: w) simp_all

lemma le_val_take_bit: "le_val (le_bytes n w) = take_bit (8 * n) w"
proof (induction n arbitrary: w)
  case 0
  then show ?case by simp
next
  case (Suc n)
  show ?case
    by (rule bit_word_eqI)
      (auto simp: Suc.IH bit_or_iff bit_push_bit_iff bit_take_bit_iff bit_ucast_iff bit_drop_bit_eq
        not_less)
qed

lemma le_val_bytes: "LENGTH('a) \<le> 8 * n \<Longrightarrow> le_val (le_bytes n (w :: 'a::len word)) = w"
  by (simp add: le_val_take_bit take_bit_word_eq_self)

lemma bit_le_val: "bit (le_val bs :: 'a::len word) n \<Longrightarrow> n < 8 * length bs"
proof (induction bs arbitrary: n)
  case Nil
  then show ?case by simp
next
  case (Cons b bs)
  from Cons.prems have "bit b n \<or> 8 \<le> n \<and> bit (le_val bs :: 'a word) (n - 8)"
    by (auto simp: bit_or_iff bit_push_bit_iff bit_ucast_iff)
  then have "n < 8 \<or> 8 \<le> n \<and> n - 8 < 8 * length bs"
    using Cons.IH [of "n - 8"] bit_imp_le_length [of b n] by auto
  then show ?case by auto
qed

lemma le_bytes_val:
  assumes "8 * length bs \<le> LENGTH('a)"
  shows "le_bytes (length bs) (le_val bs :: 'a::len word) = bs"
  using assms
proof (induction bs)
  case Nil
  then show ?case by simp
next
  case (Cons b bs)
  have "ucast (le_val (b # bs) :: 'a word) = b"
    using Cons.prems
    by (intro bit_word_eqI) (auto simp: bit_ucast_iff bit_or_iff bit_push_bit_iff)
  moreover have "drop_bit 8 (le_val (b # bs) :: 'a word) = le_val bs"
    using Cons.prems bit_le_val [where bs = bs and 'a = 'a] bit_imp_le_length [of b]
    by (intro bit_word_eqI)
      (fastforce simp: bit_drop_bit_eq bit_or_iff bit_push_bit_iff bit_ucast_iff)
  ultimately show ?case
    using Cons by simp
qed

section \<open>Memory layout\<close>

definition tuple_bytes :: "es_tuple \<Rightarrow> bytes" where
  "tuple_bytes t =
     t_src t @ t_dst t @ [fst (t_sport t)] @ [snd (t_sport t)] @ [fst (t_dport t)] @ [snd (t_dport t)] @
     le_bytes 2 (t_ethertype t) @ le_bytes 2 (t_vlan t ! 0) @ le_bytes 2 (t_vlan t ! 1) @
     [t_ip_version t] @ [t_l4_proto t] @ [t_flags t] @ [t_vlan_count t] @ le_bytes 2 (t_reserved t)"

definition event_bytes :: "es_event \<Rightarrow> bytes" where
  "event_bytes e =
     le_bytes 8 (e_timestamp_mono_ns e) @ le_bytes 8 (e_sequence e) @ le_bytes 4 (e_ifindex e) @
     le_bytes 4 (e_original_len e) @ le_bytes 4 (e_cpu e) @ le_bytes 2 (e_abi_version e) @
     le_bytes 2 (e_record_size e) @ le_bytes 2 (e_captured_len e) @ le_bytes 2 (e_link_type e) @
     [e_direction e] @ [e_hook e] @ [e_parse_status e] @ [e_flags e] @
     tuple_bytes (e_tuple e) @ e_prefix e"

definition flow_key_bytes :: "es_flow_key \<Rightarrow> bytes" where
  "flow_key_bytes k =
     tuple_bytes (k_tuple k) @ le_bytes 4 (k_ifindex k) @ [k_direction k] @ k_reserved k"

definition flow_value_bytes :: "es_flow_value \<Rightarrow> bytes" where
  "flow_value_bytes v = le_bytes 8 (f_first_ns v) @ le_bytes 8 (f_last_ns v) @
     le_bytes 8 (f_packets v) @ le_bytes 8 (f_bytes v)"

text \<open>The arrays of a record that C holds have their declared sizes.\<close>

definition tuple_sized :: "es_tuple \<Rightarrow> bool" where
  "tuple_sized t \<longleftrightarrow> length (t_src t) = 16 \<and> length (t_dst t) = 16 \<and> length (t_vlan t) = 2"

definition event_sized :: "es_event \<Rightarrow> bool" where
  "event_sized e \<longleftrightarrow> tuple_sized (e_tuple e) \<and> length (e_prefix e) = 128"

text \<open>\<open>memcpy(&e, data, sizeof(e))\<close> read as a structure, field by field at its offset.\<close>

definition at :: "bytes \<Rightarrow> nat \<Rightarrow> nat \<Rightarrow> bytes" where
  "at p off n = take n (drop off p)"

definition load_tuple :: "bytes \<Rightarrow> es_tuple" where
  "load_tuple p = \<lparr>t_src = at p 0 16, t_dst = at p 16 16, t_sport = (p ! 32, p ! 33),
     t_dport = (p ! 34, p ! 35), t_ethertype = le_val (at p 36 2),
     t_vlan = [le_val (at p 38 2), le_val (at p 40 2)], t_ip_version = p ! 42,
     t_l4_proto = p ! 43, t_flags = p ! 44, t_vlan_count = p ! 45, t_reserved = le_val (at p 46 2)\<rparr>"

definition load_event :: "bytes \<Rightarrow> es_event" where
  "load_event p = \<lparr>e_timestamp_mono_ns = le_val (at p 0 8), e_sequence = le_val (at p 8 8),
     e_ifindex = le_val (at p 16 4), e_original_len = le_val (at p 20 4), e_cpu = le_val (at p 24 4),
     e_abi_version = le_val (at p 28 2), e_record_size = le_val (at p 30 2),
     e_captured_len = le_val (at p 32 2), e_link_type = le_val (at p 34 2),
     e_direction = p ! 36, e_hook = p ! 37, e_parse_status = p ! 38, e_flags = p ! 39,
     e_tuple = load_tuple (at p 40 48), e_prefix = at p 88 128\<rparr>"

lemma length_at [simp]: "off + n \<le> length p \<Longrightarrow> length (at p off n) = n"
  by (simp add: at_def)

lemma at_glue: "k = off + n \<Longrightarrow> at p off n @ drop k p = drop off p"
  by (simp add: at_def add.commute flip: drop_drop)

lemma nth_at: "i < n \<Longrightarrow> off + n \<le> length p \<Longrightarrow> at p off n ! i = p ! (off + i)"
  by (simp add: at_def)

lemma at_nth: "i < length p \<Longrightarrow> [p ! i] = at p i (Suc 0)"
  by (simp add: at_def take_Suc_conv_app_nth [of 0, simplified] hd_drop_conv_nth take_Suc)

lemma length_tuple_bytes [layout_simps]: "tuple_sized t \<Longrightarrow> length (tuple_bytes t) = 48"
  by (simp add: tuple_bytes_def tuple_sized_def)

lemma length_event_bytes [layout_simps]: "event_sized e \<Longrightarrow> length (event_bytes e) = 216"
  by (simp add: event_bytes_def event_sized_def length_tuple_bytes)

lemma load_tuple_bytes:
  assumes "tuple_sized t"
  shows "load_tuple (tuple_bytes t) = t"
proof -
  obtain v w where "t_vlan t = [v, w]"
    using assms by (auto simp: tuple_sized_def numeral_2_eq_2 length_Suc_conv)
  with assms show ?thesis
    by (simp add: load_tuple_def tuple_bytes_def tuple_sized_def at_def nth_append le_val_bytes)
qed

lemma load_event_bytes:
  assumes "event_sized e"
  shows "load_event (event_bytes e) = e"
proof -
  have "length (tuple_bytes (e_tuple e)) = 48" and "length (e_prefix e) = 128"
    using assms by (simp_all add: event_sized_def length_tuple_bytes)
  moreover have "load_tuple (tuple_bytes (e_tuple e)) = e_tuple e"
    using assms by (simp add: event_sized_def load_tuple_bytes)
  ultimately show ?thesis
    by (simp add: load_event_def event_bytes_def at_def nth_append le_val_bytes)
qed

lemma le_bytes_at:
  "8 * n \<le> LENGTH('a) \<Longrightarrow> off + n \<le> length p \<Longrightarrow> le_bytes n (le_val (at p off n) :: 'a::len word) = at p off n"
  using le_bytes_val [of "at p off n", where 'a = 'a] by simp

lemma tuple_bytes_load:
  assumes "length p = 48"
  shows "tuple_bytes (load_tuple p) = p"
proof -
  have last: "le_bytes 2 (le_val (at p 46 2) :: u16) = drop 46 p"
    using assms by (simp add: le_bytes_at) (simp add: at_def)
  show ?thesis
    using assms by (simp add: tuple_bytes_def load_tuple_def last le_bytes_at at_glue at_nth
        del: append_Cons append_Nil)
qed

lemma event_bytes_load:
  assumes "length p = 216"
  shows "event_bytes (load_event p) = p"
proof -
  have "tuple_bytes (load_tuple (at p 40 48)) = at p 40 48"
    using assms by (intro tuple_bytes_load) simp
  moreover have last: "at p 88 128 = drop 88 p"
    using assms by (simp add: at_def)
  ultimately show ?thesis
    using assms by (simp add: event_bytes_def load_event_def last le_bytes_at at_glue at_nth
        del: append_Cons append_Nil)
qed

lemma event_sized_load: "length p = 216 \<Longrightarrow> event_sized (load_event p)"
  by (simp add: event_sized_def tuple_sized_def load_event_def load_tuple_def)

section \<open>Decoding\<close>

text \<open>The conditions of lines 17 to 25, 27 and 28 to 31: true when the sample is refused.\<close>

definition bad_header :: "es_event \<Rightarrow> bool" where
  "bad_header e \<longleftrightarrow> e_abi_version e \<noteq> ES_ABI_VERSION \<or> e_record_size e \<noteq> 216 \<or>
     e_ifindex e = 0 \<or> e_direction e \<ge> ES_DIRECTIONS \<or>
     (e_hook e \<noteq> ES_HOOK_TC \<and> e_hook e \<noteq> ES_HOOK_XDP) \<or>
     e_link_type e \<noteq> ES_LINKTYPE_ETHERNET \<or>
     e_parse_status e > status_code ES_PARSE_SKIPPED \<or>
     (ucast (e_captured_len e) :: u32) > ES_SNAPSHOT_MAX \<or>
     (ucast (e_captured_len e) :: u32) > e_original_len e \<or>
     t_vlan_count (e_tuple e) > 2 \<or> t_reserved (e_tuple e) \<noteq> 0 \<or>
     has_flag (e_flags e) (NOT (ES_E_PREFIX_TRUNCATED OR ES_E_COPY_FAILED OR ES_E_VLAN_STRIPPED)) \<or>
     has_flag (t_flags (e_tuple e))
       (NOT (ES_T_L2_VALID OR ES_T_ADDR_VALID OR ES_T_PORTS_VALID OR ES_T_FRAGMENT))"

definition bad_copy :: "es_event \<Rightarrow> bool" where
  "bad_copy e \<longleftrightarrow> has_flag (e_flags e) ES_E_COPY_FAILED \<and> e_captured_len e \<noteq> 0"

definition bad_ports :: "es_event \<Rightarrow> bool" where
  "bad_ports e \<longleftrightarrow> has_flag (t_flags (e_tuple e)) ES_T_PORTS_VALID \<and>
     (\<not> has_flag (t_flags (e_tuple e)) ES_T_ADDR_VALID \<or>
      has_flag (t_flags (e_tuple e)) ES_T_FRAGMENT \<or>
      (t_l4_proto (e_tuple e) \<noteq> 6 \<and> t_l4_proto (e_tuple e) \<noteq> 17))"

text \<open>
  \<open>DecodeEvent(data, size, out)\<close>, with \<open>n\<close> for \<open>size\<close>: \<open>data\<close> is \<^const>\<open>None\<close> for a null pointer and otherwise
  the \<open>n\<close> bytes it points to; the result is what is stored in \<open>out\<close> when the function
  returns true.
\<close>

definition DecodeEvent :: "bytes option \<Rightarrow> nat \<Rightarrow> es_event option" where
  "DecodeEvent data n = (case data of
     None \<Rightarrow> None
   | Some p \<Rightarrow>
       if n \<noteq> 216 then None
       else let e = load_event p
            in if bad_header e then None
               else if bad_copy e then None
               else if bad_ports e then None
               else Some e)"

text \<open>What a valid event is, stated on numbers and single flag bits.\<close>

definition event_valid :: "es_event \<Rightarrow> bool" where
  "event_valid e \<longleftrightarrow> event_sized e \<and> e_abi_version e = 2 \<and> e_record_size e = 216 \<and>
     e_ifindex e \<noteq> 0 \<and> unat (e_direction e) < 2 \<and> e_hook e \<in> {1, 2} \<and> e_link_type e = 1 \<and>
     unat (e_parse_status e) \<le> 5 \<and> unat (e_captured_len e) \<le> min 128 (unat (e_original_len e)) \<and>
     unat (t_vlan_count (e_tuple e)) \<le> 2 \<and> t_reserved (e_tuple e) = 0 \<and>
     (\<forall>i. bit (e_flags e) i \<longrightarrow> i < 3) \<and> (\<forall>i. bit (t_flags (e_tuple e)) i \<longrightarrow> i < 4) \<and>
     (bit (e_flags e) 1 \<longrightarrow> e_captured_len e = 0) \<and>
     (bit (t_flags (e_tuple e)) 2 \<longrightarrow>
        bit (t_flags (e_tuple e)) 1 \<and> \<not> bit (t_flags (e_tuple e)) 3 \<and>
        t_l4_proto (e_tuple e) \<in> {6, 17})"

lemma has_flag_bit: "has_flag x (push_bit n 1) \<longleftrightarrow> bit x n"
  by (simp add: has_flag_def push_bit_of_1 and_exp_eq_0_iff_not_bit)

lemma has_flag_above: "has_flag (x :: u8) (NOT (mask k)) \<longleftrightarrow> \<not> (\<forall>i. bit x i \<longrightarrow> i < k)"
  using bit_imp_le_length [of x]
  by (auto simp: has_flag_def bit_eq_iff bit_simps)

lemma flag_masks:
  "ES_E_PREFIX_TRUNCATED OR ES_E_COPY_FAILED OR ES_E_VLAN_STRIPPED = mask 3"
  "ES_T_L2_VALID OR ES_T_ADDR_VALID OR ES_T_PORTS_VALID OR ES_T_FRAGMENT = mask 4"
  by code_simp+

lemma bad_header_iff:
  "\<not> bad_header e \<longleftrightarrow> e_abi_version e = 2 \<and> e_record_size e = 216 \<and>
     e_ifindex e \<noteq> 0 \<and> unat (e_direction e) < 2 \<and> e_hook e \<in> {1, 2} \<and> e_link_type e = 1 \<and>
     unat (e_parse_status e) \<le> 5 \<and> unat (e_captured_len e) \<le> min 128 (unat (e_original_len e)) \<and>
     unat (t_vlan_count (e_tuple e)) \<le> 2 \<and> t_reserved (e_tuple e) = 0 \<and>
     (\<forall>i. bit (e_flags e) i \<longrightarrow> i < 3) \<and> (\<forall>i. bit (t_flags (e_tuple e)) i \<longrightarrow> i < 4)"
  unfolding bad_header_def flag_masks has_flag_above
  by (simp add: ES_ABI_VERSION_def ES_DIRECTIONS_def ES_HOOK_TC_def ES_HOOK_XDP_def not_le not_less
      ES_LINKTYPE_ETHERNET_def ES_SNAPSHOT_MAX_def word_le_nat_alt word_less_nat_alt unat_ucast_u16)
    blast

lemma bad_copy_iff: "bad_copy e \<longleftrightarrow> bit (e_flags e) 1 \<and> e_captured_len e \<noteq> 0"
  by (simp only: bad_copy_def ES_E_COPY_FAILED_def has_flag_bit)

lemma bad_ports_iff:
  "bad_ports e \<longleftrightarrow> bit (t_flags (e_tuple e)) 2 \<and> \<not> (bit (t_flags (e_tuple e)) 1 \<and>
     \<not> bit (t_flags (e_tuple e)) 3 \<and> t_l4_proto (e_tuple e) \<in> {6, 17})"
  unfolding bad_ports_def ES_T_PORTS_VALID_def ES_T_ADDR_VALID_def ES_T_FRAGMENT_def has_flag_bit
  by auto

lemma accepted_iff_valid:
  "event_sized e \<Longrightarrow> \<not> bad_header e \<and> \<not> bad_copy e \<and> \<not> bad_ports e \<longleftrightarrow> event_valid e"
  unfolding bad_header_iff bad_copy_iff bad_ports_iff event_valid_def by blast

lemma decode_inverse:
  assumes "DecodeEvent (Some p) (length p) = Some e"
  shows "event_valid e" and "p = event_bytes e"
proof -
  from assms have "length p = 216" and e: "e = load_event p"
    and "\<not> bad_header e \<and> \<not> bad_copy e \<and> \<not> bad_ports e"
    by (auto simp: DecodeEvent_def Let_def split: if_splits)
  then show "event_valid e" and "p = event_bytes e"
    using accepted_iff_valid [of e] event_bytes_load event_sized_load by simp_all
qed

lemma decode_valid:
  assumes "event_valid e"
  shows "DecodeEvent (Some (event_bytes e)) (length (event_bytes e)) = Some e"
proof -
  have "event_sized e" using assms by (simp add: event_valid_def)
  then show ?thesis
    using assms accepted_iff_valid [of e]
    by (simp add: DecodeEvent_def length_event_bytes load_event_bytes)
qed

section \<open>Properties\<close>

text \<open>
  C6: The decoder accepts exactly the images of valid events. Given a sample of any
  content and length, \<open>DecodeEvent\<close> succeeds with an event if and only if that event is
  valid (version, sizes, direction, hook, status, flags, captured length, port claims) and
  the sample is its 216 byte image; so it never accepts a short, long or inconsistent
  sample, and refuses no valid one.
\<close>

theorem DecodeEvent_exact:
  "DecodeEvent (Some p) (length p) = Some e \<longleftrightarrow> event_valid e \<and> p = event_bytes e"
  using decode_valid [of e] decode_inverse [of p e] by auto

text \<open>
  Memory layout. For records whose arrays have their declared sizes, the tuple takes
  48 bytes, an event 216 with the tuple at offset 40 and the snapshot at 88, a flow key 56
  and a flow value 32: the static assertions of the shared header.
\<close>

theorem shared_layout:
  assumes "event_sized e" and "tuple_sized (k_tuple k)" and "length (k_reserved k) = 3"
  shows "length (tuple_bytes (k_tuple k)) = 48 \<and> length (event_bytes e) = 216 \<and>
    at (event_bytes e) 40 48 = tuple_bytes (e_tuple e) \<and> at (event_bytes e) 88 128 = e_prefix e \<and>
    length (flow_key_bytes k) = 56 \<and> length (flow_value_bytes v) = 32"
proof -
  have "length (tuple_bytes (e_tuple e)) = 48" and "length (e_prefix e) = 128"
    using assms(1) by (simp_all add: event_sized_def layout_simps)
  then show ?thesis
    using assms by (simp add: layout_simps flow_key_bytes_def flow_value_bytes_def)
      (simp add: at_def event_bytes_def)
qed

definition zero_event :: es_event where
  "zero_event = load_event (replicate 216 0)"

lemma zero_event_sized: "event_sized zero_event"
  by (simp add: zero_event_def event_sized_load)

theorem shared_layout_witness:
  "length (event_bytes zero_event) = 216 \<and>
   length (flow_key_bytes \<lparr>k_tuple = es_tuple_zero, k_ifindex = 3, k_direction = 1, k_reserved = [0, 0, 0]\<rparr>) = 56"
  using shared_layout [OF zero_event_sized,
      of "\<lparr>k_tuple = es_tuple_zero, k_ifindex = 3, k_direction = 1, k_reserved = [0, 0, 0]\<rparr>"]
  by (simp add: tuple_sized_def es_tuple_zero_def)

end
