(* ===== verification/Tc_Observer.thy ===== *)
theory Tc_Observer
  imports Telemetry_Types
begin

text \<open>
  The passive traffic-control program of \<open>bpf/elephantshrew_tc.bpf.c\<close>: \<open>es_observe\<close> runs
  once per packet on one CPU, counts it, parses its headers, accounts its flow, and
  publishes every \<open>sample_every\<close>-th selected packet as an event. The state is that CPU's
  view of the three maps: its counters per direction, the events in the ring buffer (oldest
  first), and its flow table. \<open>Observer_Cpus\<close> puts the CPUs of a machine together.

  What the kernel answers to one run of the program is a record of parameters: whether the
  counter slot was found, what the k-th call of \<open>bpf_skb_load_bytes\<close> copied
  (\<^const>\<open>None\<close> for a non-zero return), the clock, the CPU number, whether the ring buffer
  had room, and what inserting a key does to the flow table (the insertion may fail and
  may evict other entries).
\<close>

section \<open>The program's inputs and state\<close>

record sk_buff =
  skb_len :: u32
  skb_ifindex :: u32
  skb_vlan_present :: u32
  skb_vlan_tci :: u32

record observer_config =
  sample_every :: u32
  snapshot_bytes :: u32
  classify :: u8
  flow_enabled :: u8
  select_l4_proto :: u8

type_synonym flow_table = "es_flow_key \<Rightarrow> es_flow_value option"

record kernel_env =
  counters_found :: "es_direction \<Rightarrow> bool"
  load_bytes :: "nat \<Rightarrow> u32 \<Rightarrow> bytes option"
  ktime :: u64
  cpu_id :: u32
  ring_has_room :: bool
  flow_insert :: "flow_table \<Rightarrow> es_flow_key \<Rightarrow> es_flow_value \<Rightarrow> flow_table"

record observer =
  counters :: "es_direction \<Rightarrow> es_counters"
  events :: "es_event list"
  flows :: flow_table

text \<open>\<open>__sync_fetch_and_add(&s->v[c], n)\<close>.\<close>

definition bump :: "es_direction \<Rightarrow> es_counter_id \<Rightarrow> u64 \<Rightarrow> observer \<Rightarrow> observer" where
  "bump dir c n st =
     st\<lparr>counters := (counters st)(dir := (counters st dir)(c := counters st dir c + n))\<rparr>"

section \<open>Flow accounting\<close>

definition flow_key :: "sk_buff \<Rightarrow> es_direction \<Rightarrow> es_tuple \<Rightarrow> es_flow_key" where
  "flow_key skb dir tuple = \<lparr>k_tuple = tuple, k_ifindex = skb_ifindex skb,
     k_direction = direction_code dir, k_reserved = [0, 0, 0]\<rparr>"

definition flow_zero :: es_flow_value where
  "flow_zero = \<lparr>f_first_ns = 0, f_last_ns = 0, f_packets = 0, f_bytes = 0\<rparr>"

definition flow_update :: "u64 \<Rightarrow> u32 \<Rightarrow> es_flow_value \<Rightarrow> es_flow_value" where
  "flow_update now len f =
     (let f = (if f_packets f = 0 then f\<lparr>f_first_ns := now\<rparr> else f)
      in f\<lparr>f_last_ns := now, f_packets := f_packets f + 1, f_bytes := f_bytes f + ucast len\<rparr>)"

definition es_count_flow ::
  "kernel_env \<Rightarrow> sk_buff \<Rightarrow> es_direction \<Rightarrow> es_tuple \<Rightarrow> u64 \<Rightarrow> observer \<Rightarrow> observer" where
  "es_count_flow env skb dir tuple now st =
     (if \<not> has_flag (t_flags tuple) ES_T_PORTS_VALID then st
      else
        let key = flow_key skb dir tuple;
            fl = (case flows st key of
                    None \<Rightarrow> flow_insert env (flows st) key flow_zero
                  | Some f \<Rightarrow> flows st)
        in case fl key of
             None \<Rightarrow> bump dir ES_C_FLOW_UPDATE_FAILED 1 (st\<lparr>flows := fl\<rparr>)
           | Some f \<Rightarrow> st\<lparr>flows := fl(key \<mapsto> flow_update now (skb_len skb) f)\<rparr>)"

section \<open>Observation\<close>

text \<open>Lines 72 to 77: the status and the tuple of the packet.\<close>

definition es_classify ::
  "kernel_env \<Rightarrow> observer_config \<Rightarrow> sk_buff \<Rightarrow> (es_parse_status \<times> es_tuple) option" where
  "es_classify env cfg skb =
     (if classify cfg \<noteq> 0 \<or> flow_enabled cfg \<noteq> 0 \<or> select_l4_proto cfg \<noteq> 0 then
        let cap = (if skb_len skb > ES_PARSE_BYTES then ES_PARSE_BYTES else skb_len skb)
        in case (if cap \<noteq> 0 then load_bytes env 0 cap else None) of
             None \<Rightarrow> Some (ES_PARSE_TRUNCATED, es_tuple_zero)
           | Some xs \<Rightarrow> es_parse (blit (replicate 128 0) xs) cap (skb_len skb)
               (skb_vlan_present skb \<noteq> 0) (ucast (skb_vlan_tci skb))
      else Some (ES_PARSE_SKIPPED, es_tuple_zero))"

text \<open>Lines 78 to 81.\<close>

definition es_count_status :: "es_direction \<Rightarrow> es_parse_status \<Rightarrow> observer \<Rightarrow> observer" where
  "es_count_status dir status st =
     (if status = ES_PARSE_MALFORMED then bump dir ES_C_PARSE_MALFORMED 1 st
      else if status \<noteq> ES_PARSE_OK then bump dir ES_C_PARSE_PARTIAL 1 st
      else st)"

text \<open>Lines 99 to 112: the event before its snapshot.\<close>

definition es_new_event ::
  "kernel_env \<Rightarrow> sk_buff \<Rightarrow> es_direction \<Rightarrow> u64 \<Rightarrow> es_parse_status \<Rightarrow> es_tuple \<Rightarrow> es_event" where
  "es_new_event env skb dir seq status tuple =
     \<lparr>e_timestamp_mono_ns = ktime env, e_sequence = seq, e_ifindex = skb_ifindex skb,
      e_original_len = skb_len skb, e_cpu = cpu_id env, e_abi_version = ES_ABI_VERSION,
      e_record_size = 216, e_captured_len = 0, e_link_type = ES_LINKTYPE_ETHERNET,
      e_direction = direction_code dir, e_hook = ES_HOOK_TC, e_parse_status = status_code status,
      e_flags = (if skb_vlan_present skb \<noteq> 0 then ES_E_VLAN_STRIPPED else 0),
      e_tuple = tuple, e_prefix = replicate 128 0\<rparr>"

text \<open>Lines 114 to 127: the copy of the packet's first bytes.\<close>

definition es_want :: "observer_config \<Rightarrow> sk_buff \<Rightarrow> u32" where
  "es_want cfg skb =
     (let want = snapshot_bytes cfg;
          want = (if want > ES_SNAPSHOT_MAX then ES_SNAPSHOT_MAX else want)
      in if want > skb_len skb then skb_len skb else want)"

definition es_snapshot ::
  "kernel_env \<Rightarrow> observer_config \<Rightarrow> sk_buff \<Rightarrow> es_direction \<Rightarrow> es_event \<times> observer
    \<Rightarrow> es_event \<times> observer" where
  "es_snapshot env cfg skb dir = (\<lambda>(e, st).
     let want = es_want cfg skb
     in if want \<noteq> 0 then
          case load_bytes env 1 want of
            Some xs \<Rightarrow>
              (e\<lparr>e_prefix := blit (e_prefix e) xs, e_captured_len := ucast want,
                 e_flags := (if want < skb_len skb then e_flags e OR ES_E_PREFIX_TRUNCATED
                             else e_flags e)\<rparr>, st)
          | None \<Rightarrow>
              (e\<lparr>e_prefix := replicate 128 0, e_flags := e_flags e OR ES_E_COPY_FAILED\<rparr>,
               bump dir ES_C_SNAPSHOT_FAILED 1 st)
        else (e, st))"

text \<open>Lines 94 to 130.\<close>

definition es_publish ::
  "kernel_env \<Rightarrow> observer_config \<Rightarrow> sk_buff \<Rightarrow> es_direction \<Rightarrow> u64 \<Rightarrow> es_parse_status
    \<Rightarrow> es_tuple \<Rightarrow> observer \<Rightarrow> int \<times> observer" where
  "es_publish env cfg skb dir seq status tuple st =
     (if \<not> ring_has_room env then (ES_TC_NEXT, bump dir ES_C_RING_LOST 1 st)
      else
        case es_snapshot env cfg skb dir (es_new_event env skb dir seq status tuple, st) of
          (e, st) \<Rightarrow> (ES_TC_NEXT, bump dir ES_C_EVENTS 1 (st\<lparr>events := events st @ [e]\<rparr>)))"

definition es_observe ::
  "kernel_env \<Rightarrow> observer_config \<Rightarrow> sk_buff \<Rightarrow> es_direction \<Rightarrow> observer \<Rightarrow> (int \<times> observer) option" where
  "es_observe env cfg skb dir st =
     (if \<not> counters_found env dir then Some (ES_TC_NEXT, st)
      else do {
        let st = bump dir ES_C_PACKETS 1 st;
        let seq = counters st dir ES_C_PACKETS;
        let st = bump dir ES_C_BYTES (ucast (skb_len skb)) st;
        (status, tuple) \<leftarrow> es_classify env cfg skb;
        let st = (if classify cfg \<noteq> 0 \<or> flow_enabled cfg \<noteq> 0 \<or> select_l4_proto cfg \<noteq> 0
                  then es_count_status dir status st else st);
        let st = (if flow_enabled cfg \<noteq> 0 \<and> status = ES_PARSE_OK
                  then es_count_flow env skb dir tuple (ktime env) st else st);
        if select_l4_proto cfg \<noteq> 0 \<and> (status \<noteq> ES_PARSE_OK \<or> t_l4_proto tuple \<noteq> select_l4_proto cfg)
        then Some (ES_TC_NEXT, st)
        else
          let st = bump dir ES_C_SELECTED 1 st;
              selected = counters st dir ES_C_SELECTED;
              n = sample_every cfg
          in if n = 0 \<or> selected mod ucast n \<noteq> 0 then Some (ES_TC_NEXT, st)
             else Some (es_publish env cfg skb dir seq status tuple st)
      })"

definition es_ingress :: "kernel_env \<Rightarrow> observer_config \<Rightarrow> sk_buff \<Rightarrow> observer \<Rightarrow> (int \<times> observer) option" where
  "es_ingress env cfg skb st = es_observe env cfg skb ES_INGRESS st"

definition es_egress :: "kernel_env \<Rightarrow> observer_config \<Rightarrow> sk_buff \<Rightarrow> observer \<Rightarrow> (int \<times> observer) option" where
  "es_egress env cfg skb st = es_observe env cfg skb ES_EGRESS st"

text \<open>The programs run over a sequence of packets, from empty maps.\<close>

definition observer_start :: observer where
  "observer_start = \<lparr>counters = (\<lambda>_ _. 0), events = [], flows = (\<lambda>_. None)\<rparr>"

type_synonym arrival = "kernel_env \<times> sk_buff \<times> es_direction"

fun observe_run :: "observer_config \<Rightarrow> arrival list \<Rightarrow> observer \<Rightarrow> observer option" where
  "observe_run cfg [] st = Some st"
| "observe_run cfg ((env, skb, dir) # xs) st =
     (case (case dir of ES_INGRESS \<Rightarrow> es_ingress env cfg skb st | ES_EGRESS \<Rightarrow> es_egress env cfg skb st) of
        None \<Rightarrow> None
      | Some (verdict, st') \<Rightarrow> observe_run cfg xs st')"

section \<open>The kernel's documented answers\<close>

text \<open>
  \<open>bpf_skb_load_bytes\<close> copies exactly the number of bytes asked for, or fails. Inserting a
  flow stores its value or fails, and changes another entry only by evicting it.
\<close>

definition env_ok :: "kernel_env \<Rightarrow> bool" where
  "env_ok env \<longleftrightarrow> (\<forall>k n xs. load_bytes env k n = Some xs \<longrightarrow> length xs = unat n)"

definition flow_insert_ok :: "kernel_env \<Rightarrow> bool" where
  "flow_insert_ok env \<longleftrightarrow> (\<forall>fl k v. (flow_insert env fl k v k = None \<or> flow_insert env fl k v k = Some v) \<and>
     (\<forall>k'. k' \<noteq> k \<longrightarrow> flow_insert env fl k v k' = None \<or> flow_insert env fl k v k' = fl k'))"

section \<open>Counters\<close>

lemma bump_simps [simp]:
  "events (bump d c n st) = events st" "flows (bump d c n st) = flows st"
  by (simp_all add: bump_def)

lemma counters_bump [counter_simps]:
  "counters (bump d c n st) d' c' = counters st d' c' + (if d' = d \<and> c' = c then n else 0)"
  by (simp add: bump_def)

lemma counters_upd [simp]:
  "counters (st\<lparr>flows := fl\<rparr>) = counters st" "counters (st\<lparr>events := es\<rparr>) = counters st"
  by simp_all

lemma es_count_flow_simps [simp]:
  "events (es_count_flow env skb dir tuple now st) = events st"
  by (auto simp: es_count_flow_def Let_def split: option.split)

lemma counters_count_flow [counter_simps]:
  "c \<noteq> ES_C_FLOW_UPDATE_FAILED \<Longrightarrow>
   counters (es_count_flow env skb dir tuple now st) d c = counters st d c"
  by (auto simp: es_count_flow_def Let_def counter_simps split: option.split)

lemma es_count_status_simps [simp]:
  "events (es_count_status dir status st) = events st" "flows (es_count_status dir status st) = flows st"
  by (auto simp: es_count_status_def)

lemma counters_count_status [counter_simps]:
  "counters (es_count_status dir status st) d c = counters st d c +
     (if d = dir \<and> (c = ES_C_PARSE_MALFORMED \<and> status = ES_PARSE_MALFORMED \<or>
        c = ES_C_PARSE_PARTIAL \<and> status \<noteq> ES_PARSE_OK \<and> status \<noteq> ES_PARSE_MALFORMED) then 1 else 0)"
  by (auto simp: es_count_status_def counter_simps)

section \<open>One packet, in stages\<close>

text \<open>
  The state after lines 69 to 85, and the rest of the program as a choice of three ends:
  the packet is filtered out, selected but not sampled, or sampled.
\<close>

definition accounted ::
  "kernel_env \<Rightarrow> observer_config \<Rightarrow> sk_buff \<Rightarrow> es_direction \<Rightarrow> es_parse_status \<Rightarrow> es_tuple
    \<Rightarrow> observer \<Rightarrow> observer" where
  "accounted env cfg skb dir status t st =
     (let st = bump dir ES_C_BYTES (ucast (skb_len skb)) (bump dir ES_C_PACKETS 1 st);
          st = (if classify cfg \<noteq> 0 \<or> flow_enabled cfg \<noteq> 0 \<or> select_l4_proto cfg \<noteq> 0
                then es_count_status dir status st else st)
      in if flow_enabled cfg \<noteq> 0 \<and> status = ES_PARSE_OK
         then es_count_flow env skb dir t (ktime env) st else st)"

definition filtered :: "observer_config \<Rightarrow> es_parse_status \<Rightarrow> es_tuple \<Rightarrow> bool" where
  "filtered cfg status t \<longleftrightarrow>
     select_l4_proto cfg \<noteq> 0 \<and> (status \<noteq> ES_PARSE_OK \<or> t_l4_proto t \<noteq> select_l4_proto cfg)"

definition sampled :: "observer_config \<Rightarrow> u64 \<Rightarrow> bool" where
  "sampled cfg selected \<longleftrightarrow> sample_every cfg \<noteq> 0 \<and> selected mod ucast (sample_every cfg) = 0"

lemma accounted_events [simp]: "events (accounted env cfg skb dir status t st) = events st"
  by (simp add: accounted_def Let_def)

lemma counters_accounted [counter_simps]:
  assumes "c \<notin> {ES_C_FLOW_UPDATE_FAILED, ES_C_PARSE_MALFORMED, ES_C_PARSE_PARTIAL}"
  shows "counters (accounted env cfg skb dir status t st) d c = counters st d c +
    (if d \<noteq> dir then 0 else if c = ES_C_PACKETS then 1
     else if c = ES_C_BYTES then ucast (skb_len skb) else 0)"
  using assms by (simp add: accounted_def Let_def counter_simps)

lemma es_observe_eq:
  assumes "es_classify env cfg skb = Some (status, t)" and "counters_found env dir"
  shows "es_observe env cfg skb dir st =
    (let st3 = accounted env cfg skb dir status t st; st4 = bump dir ES_C_SELECTED 1 st3
     in if filtered cfg status t then Some (ES_TC_NEXT, st3)
        else if sampled cfg (counters st dir ES_C_SELECTED + 1)
        then Some (es_publish env cfg skb dir (counters st dir ES_C_PACKETS + 1) status t st4)
        else Some (ES_TC_NEXT, st4))"
proof -
  let ?st3 = "accounted env cfg skb dir status t st"
  have "counters ?st3 dir ES_C_SELECTED = counters st dir ES_C_SELECTED"
    by (simp add: counter_simps)
  then have sel: "counters (bump dir ES_C_SELECTED 1 ?st3) dir ES_C_SELECTED =
      counters st dir ES_C_SELECTED + 1"
    by (simp add: counter_simps)
  have seq: "counters (bump dir ES_C_PACKETS 1 st) dir ES_C_PACKETS = counters st dir ES_C_PACKETS + 1"
    by (simp add: counter_simps)
  show ?thesis
    unfolding es_observe_def assms(1) Let_def bind.bind_lunit prod.case
      accounted_def [unfolded Let_def, symmetric] sel seq
    using assms(2) by (simp add: filtered_def sampled_def)
qed

lemma es_observe_unfound: "\<not> counters_found env dir \<Longrightarrow> es_observe env cfg skb dir st = Some (ES_TC_NEXT, st)"
  by (simp add: es_observe_def)

text \<open>What publishing an event does to the ring and to the counters.\<close>

lemma es_snapshot_state [simp]:
  "events (snd (es_snapshot env cfg skb dir (e, st))) = events st"
  by (auto simp: es_snapshot_def Let_def split: option.split)

lemma counters_snapshot [counter_simps]:
  "c \<noteq> ES_C_SNAPSHOT_FAILED \<Longrightarrow>
   counters (snd (es_snapshot env cfg skb dir (e, st))) d c = counters st d c"
  by (auto simp: es_snapshot_def Let_def counter_simps split: option.split)

lemma es_publish_verdict [simp]: "fst (es_publish env cfg skb dir seq status t st) = ES_TC_NEXT"
  by (simp add: es_publish_def split: prod.split)

lemma es_publish_events:
  "events (snd (es_publish env cfg skb dir seq status t st)) = events st @
    (if ring_has_room env
     then [fst (es_snapshot env cfg skb dir (es_new_event env skb dir seq status t, st))] else [])"
  using es_snapshot_state [of env cfg skb dir "es_new_event env skb dir seq status t" st]
  by (simp add: es_publish_def case_prod_beta)

lemma counters_publish [counter_simps]:
  assumes "c \<noteq> ES_C_SNAPSHOT_FAILED"
  shows "counters (snd (es_publish env cfg skb dir seq status t st)) d c = counters st d c +
    (if d = dir \<and> c = (if ring_has_room env then ES_C_EVENTS else ES_C_RING_LOST) then 1 else 0)"
  using assms by (simp add: es_publish_def case_prod_beta counter_simps)

section \<open>A kernel to run on\<close>

text \<open>
  A kernel whose helpers answer from a frame held in memory, with room in the ring and in
  the flow table. It satisfies the documented behaviour assumed above.
\<close>

definition frame_env :: "bytes \<Rightarrow> u64 \<Rightarrow> bool \<Rightarrow> kernel_env" where
  "frame_env frame now room =
     \<lparr>counters_found = (\<lambda>_. True),
      load_bytes = (\<lambda>_ n. if unat n \<le> length frame then Some (take (unat n) frame) else None),
      ktime = now, cpu_id = 0, ring_has_room = room, flow_insert = (\<lambda>fl k v. fl(k \<mapsto> v))\<rparr>"

lemma env_ok_frame [simp]: "env_ok (frame_env frame now room)"
  by (auto simp: env_ok_def frame_env_def)

lemma flow_insert_ok_frame [simp]: "flow_insert_ok (frame_env frame now room)"
  by (auto simp: flow_insert_ok_def frame_env_def)

text \<open>A UDP datagram from 192.0.2.1:1024 to 192.0.2.2:53, 46 bytes long.\<close>

definition udp_frame :: bytes where
  "udp_frame = replicate 12 2 @ [8, 0] @
     [0x45, 0, 0, 32, 0, 1, 0, 0, 64, 17, 0, 0, 192, 0, 2, 1, 192, 0, 2, 2] @
     [4, 0, 0, 53, 0, 12, 0, 0, 1, 2, 3, 4]"

definition udp_skb :: sk_buff where
  "udp_skb = \<lparr>skb_len = 46, skb_ifindex = 3, skb_vlan_present = 0, skb_vlan_tci = 0\<rparr>"

definition udp_config :: observer_config where
  "udp_config = \<lparr>sample_every = 2, snapshot_bytes = 64, classify = 1, flow_enabled = 1,
     select_l4_proto = 17\<rparr>"

end
