(* ===== verification/Parser_Tuples.thy ===== *)
theory Parser_Tuples
  imports Parser_Safety
begin

text \<open>
  The tuple the parser leaves behind, on every return path: its arrays keep their
  length, the flag byte has one of a few values tied to the status, and the fields a
  flag does not vouch for are zero. The last point makes equal flows equal keys of the
  flow and policy maps, which compare tuples byte by byte.
\<close>

section \<open>The invariant\<close>

definition tuple_shape :: "es_tuple \<Rightarrow> bool" where
  "tuple_shape t \<longleftrightarrow> length (t_src t) = 16 \<and> length (t_dst t) = 16 \<and> vlan_room t \<and>
     t_reserved t = 0 \<and>
     (\<forall>v \<in> set (t_vlan t). v < 4096) \<and>
     drop (unat (t_vlan_count t)) (t_vlan t) = replicate (2 - unat (t_vlan_count t)) 0"

text \<open>Fields without their flag are zero.\<close>

definition tuple_canonical :: "es_tuple \<Rightarrow> bool" where
  "tuple_canonical t \<longleftrightarrow> tuple_shape t \<and>
     (has_flag (t_flags t) ES_T_PORTS_VALID \<or> t_sport t = (0, 0) \<and> t_dport t = (0, 0)) \<and>
     (if has_flag (t_flags t) ES_T_ADDR_VALID then t_ip_version t \<in> {4, 6}
      else t_ip_version t = 0 \<and> t_src t = replicate 16 0 \<and> t_dst t = replicate 16 0) \<and>
     (t_ip_version t = 4 \<longrightarrow>
        drop 4 (t_src t) = replicate 12 0 \<and> drop 4 (t_dst t) = replicate 12 0)"

fun status_flags :: "es_parse_status \<Rightarrow> u8 \<Rightarrow> bool" where
  "status_flags ES_PARSE_OK f \<longleftrightarrow> f = ES_T_L2_VALID OR ES_T_ADDR_VALID \<or>
     f = ES_T_L2_VALID OR ES_T_ADDR_VALID OR ES_T_PORTS_VALID"
| "status_flags ES_PARSE_FRAGMENT f \<longleftrightarrow>
     f = ES_T_L2_VALID OR ES_T_ADDR_VALID OR ES_T_FRAGMENT"
| "status_flags ES_PARSE_SKIPPED f \<longleftrightarrow> False"
| "status_flags _ f \<longleftrightarrow> f = 0 \<or> f = ES_T_L2_VALID \<or> f = ES_T_L2_VALID OR ES_T_ADDR_VALID"

definition result_ok :: "es_parse_status \<times> es_tuple \<Rightarrow> bool" where
  "result_ok = (\<lambda>(rc, t). tuple_canonical t \<and> status_flags rc (t_flags t) \<and>
     (has_flag (t_flags t) ES_T_PORTS_VALID \<longrightarrow> t_l4_proto t = 6 \<or> t_l4_proto t = 17))"

lemmas flag_defs [flag_simps] =
  ES_T_L2_VALID_def ES_T_ADDR_VALID_def ES_T_PORTS_VALID_def ES_T_FRAGMENT_def has_flag_def

section \<open>Stages of the parse\<close>

lemma update_order:
  "t\<lparr>t_ip_version := v, t_l4_proto := n, t_src := s, t_dst := d\<rparr> =
   t\<lparr>t_src := s, t_dst := d, t_ip_version := v\<rparr>\<lparr>t_l4_proto := n\<rparr>"
  by simp

lemma add_flag_proto:
  "add_flag m (t\<lparr>t_l4_proto := n\<rparr>) = (add_flag m t)\<lparr>t_l4_proto := n\<rparr>"
  by (simp add: add_flag_def)

definition l2_stage :: "es_tuple \<Rightarrow> bool" where
  "l2_stage t \<longleftrightarrow> tuple_canonical t \<and> t_flags t = 1"

definition addr_stage :: "es_tuple \<Rightarrow> bool" where
  "addr_stage t \<longleftrightarrow> tuple_canonical t \<and> t_flags t = 3"

lemma result_ok_l2: "l2_stage t \<Longrightarrow> rc \<in> {ES_PARSE_TRUNCATED, ES_PARSE_UNSUPPORTED, ES_PARSE_MALFORMED}
    \<Longrightarrow> result_ok (rc, t)"
  by (auto simp: l2_stage_def result_ok_def flag_simps)

lemma result_ok_addr:
  "addr_stage t \<Longrightarrow> rc \<notin> {ES_PARSE_FRAGMENT, ES_PARSE_SKIPPED} \<Longrightarrow> result_ok (rc, t)"
  by (cases rc) (auto simp: addr_stage_def result_ok_def flag_simps)

lemma addr_stage_proto [simp]: "addr_stage (t\<lparr>t_l4_proto := n\<rparr>) = addr_stage t"
  by (simp add: addr_stage_def tuple_canonical_def tuple_shape_def vlan_room_def)

lemma l2_stage_proto [simp]: "l2_stage (t\<lparr>t_l4_proto := n\<rparr>) = l2_stage t"
  by (simp add: l2_stage_def tuple_canonical_def tuple_shape_def vlan_room_def)

lemma l2_stage_ethertype [simp]: "l2_stage (t\<lparr>t_ethertype := n\<rparr>) = l2_stage t"
  by (simp add: l2_stage_def tuple_canonical_def tuple_shape_def vlan_room_def)

lemma result_ok_fragment: "addr_stage t \<Longrightarrow> result_ok (ES_PARSE_FRAGMENT, add_flag ES_T_FRAGMENT t)"
  by (auto simp: addr_stage_def result_ok_def add_flag_def flag_simps tuple_canonical_def
      tuple_shape_def vlan_room_def)

lemma result_ok_fragment_proto:
  "addr_stage t \<Longrightarrow> result_ok (ES_PARSE_FRAGMENT, (add_flag ES_T_FRAGMENT t)\<lparr>t_l4_proto := n\<rparr>)"
  using result_ok_fragment [of "t\<lparr>t_l4_proto := n\<rparr>"] by (simp add: add_flag_proto)

lemma result_ok_ports:
  assumes "addr_stage t" and "t_l4_proto t = 6 \<or> t_l4_proto t = 17"
  shows "result_ok (ES_PARSE_OK,
    add_flag ES_T_PORTS_VALID (t\<lparr>t_sport := s, t_dport := d\<rparr>))"
  using assms by (auto simp: addr_stage_def result_ok_def add_flag_def flag_simps
      tuple_canonical_def tuple_shape_def vlan_room_def)

lemma addr_stage_v4:
  assumes "l2_stage t" and "rdn p i 4 = Some s" and "rdn p j 4 = Some d"
  shows "addr_stage (add_flag ES_T_ADDR_VALID
    (t\<lparr>t_src := blit (t_src t) s, t_dst := blit (t_dst t) d, t_ip_version := 4\<rparr>))"
  using assms(1) length_rdn [OF assms(2)] length_rdn [OF assms(3)]
  by (simp add: l2_stage_def addr_stage_def add_flag_def flag_simps blit_def
      tuple_canonical_def tuple_shape_def vlan_room_def)

lemma addr_stage_v6:
  assumes "l2_stage t" and "rdn p i 16 = Some s" and "rdn p j 16 = Some d"
  shows "addr_stage (add_flag ES_T_ADDR_VALID
    (t\<lparr>t_ip_version := 6, t_src := blit (t_src t) s, t_dst := blit (t_dst t) d\<rparr>))"
  using assms(1) length_rdn [OF assms(2)] length_rdn [OF assms(3)]
  by (simp add: l2_stage_def addr_stage_def add_flag_def flag_simps blit_def
      tuple_canonical_def tuple_shape_def vlan_room_def)

lemma l2_stage_push:
  assumes "l2_stage t" and "vlan_push (v AND 0x0fff) t = Some t'"
  shows "l2_stage t'"
proof -
  have v: "v AND 0x0fff < 4096"
    by (rule order.strict_trans1 [OF word_and_le1]) simp
  from assms have "length (t_vlan t) = Suc (Suc 0)"
    by (simp add: l2_stage_def tuple_canonical_def tuple_shape_def vlan_room_def)
  then obtain a b where vl: "t_vlan t = [a, b]"
    by (auto simp: length_Suc_conv)
  have "t_vlan_count t = 0 \<or> t_vlan_count t = 1"
    using assms(2) vl by (intro unat_less_2) (simp add: vlan_push_def split: if_splits)
  then show ?thesis
  proof
    assume n: "t_vlan_count t = 0"
    with assms(2) vl have "t' = t\<lparr>t_vlan := [v AND 0x0fff, b], t_vlan_count := 1\<rparr>"
      by (simp add: vlan_push_def)
    with assms(1) v vl n show ?thesis
      by (simp add: l2_stage_def tuple_canonical_def tuple_shape_def vlan_room_def replicate_2
          flag_simps)
  next
    assume n: "t_vlan_count t = 1"
    with assms(2) vl have "t' = t\<lparr>t_vlan := [a, v AND 0x0fff], t_vlan_count := 2\<rparr>"
      by (simp add: vlan_push_def)
    with assms(1) v vl n show ?thesis
      by (simp add: l2_stage_def tuple_canonical_def tuple_shape_def vlan_room_def
          flag_simps)
  qed
qed

section \<open>The invariant, piece by piece\<close>

lemma ensures_guard_ret:
  "(\<And>rc. rc \<in> {ES_PARSE_TRUNCATED, ES_PARSE_MALFORMED} \<Longrightarrow> P (rc, t)) \<Longrightarrow> ensures P k
    \<Longrightarrow> ensures P (es_guard (es_need off n cap endp) (ret t) k)"
  by (auto simp: es_guard_def ret_def es_need_def)

lemma ensures_ret [simp]: "ensures P (ret t rc) \<longleftrightarrow> P (rc, t)"
  by (simp add: ret_def)

lemma ports_ok:
  "addr_stage t \<Longrightarrow> t_l4_proto t = 6 \<or> t_l4_proto t = 17 \<Longrightarrow> ensures result_ok (es_parse_ports p l4 t)"
  unfolding es_parse_ports_def by (intro ensures_bind) (simp add: result_ok_ports)

lemma l4_ok: "addr_stage t \<Longrightarrow> ensures result_ok (es_parse_l4 p cap endp l4 t)"
  unfolding es_parse_l4_def Let_def
  by (intro ensures_if ensures_guard_ret ensures_bind ports_ok) (auto intro: result_ok_addr)

lemma arp_ok: "l2_stage t \<Longrightarrow> ensures result_ok (es_parse_arp p cap endp off t)"
  unfolding es_parse_arp_def
  by (intro ensures_if ensures_guard_ret ensures_bind)
    (auto intro: result_ok_l2 result_ok_addr addr_stage_v4)

lemma ipv4_ok: "l2_stage t \<Longrightarrow> ensures result_ok (es_parse_ipv4 p cap endp off t)"
  unfolding es_parse_ipv4_def Let_def update_order add_flag_proto
  by (intro ensures_if ensures_guard_ret ensures_bind l4_ok)
    (auto intro!: addr_stage_proto [THEN iffD2]
      intro: result_ok_fragment_proto addr_stage_v4 result_ok_l2)

fun exit_ok :: "('a \<Rightarrow> bool) \<Rightarrow> 'a loop_exit \<Rightarrow> bool" where
  "exit_ok P (Returned rc t) \<longleftrightarrow> result_ok (rc, t)"
| "exit_ok P (Left x) \<longleftrightarrow> P x"

lemma ensures_guard_stop:
  "(\<And>rc. rc \<in> {ES_PARSE_TRUNCATED, ES_PARSE_MALFORMED} \<Longrightarrow> result_ok (rc, t))
    \<Longrightarrow> ensures (exit_ok P) k \<Longrightarrow> ensures (exit_ok P) (es_guard (es_need off n cap endp) (stop t) k)"
  by (auto simp: es_guard_def stop_def es_need_def)

lemma ensures_stop [simp]: "ensures (exit_ok P) (stop t rc) \<longleftrightarrow> result_ok (rc, t)"
  by (simp add: stop_def)

lemma ensures_exit:
  assumes "ensures (exit_ok P) m" and "\<And>x. P x \<Longrightarrow> ensures result_ok (g x)"
  shows "ensures result_ok (Option.bind m (\<lambda>r. case r of Returned rc t \<Rightarrow> ret t rc | Left x \<Rightarrow> g x))"
proof (rule ensures_bind)
  fix r
  assume "m = Some r"
  with assms(1) have "exit_ok P r" by (rule ensuresD)
  with assms(2) show "ensures result_ok (case r of Returned rc t \<Rightarrow> ret t rc | Left x \<Rightarrow> g x)"
    by (cases r) auto
qed

lemma ext_loop_ok:
  "addr_stage t \<Longrightarrow> ensures (exit_ok (\<lambda>_. True)) (es_ext_loop fuel p cap endp off next t)"
proof (induction fuel arbitrary: off "next")
  case 0
  show ?case by simp
next
  case (Suc fuel)
  show ?case
    unfolding es_ext_loop.simps Let_def add_flag_proto
    by (intro ensures_if ensures_guard_stop ensures_bind Suc.IH Suc.prems)
      (use Suc.prems in \<open>auto intro: result_ok_addr result_ok_fragment_proto\<close>)
qed

lemma ipv6_ok: "l2_stage t \<Longrightarrow> ensures result_ok (es_parse_ipv6 p cap endp off t)"
  unfolding es_parse_ipv6_def Let_def
  by (intro ensures_if ensures_guard_ret ensures_exit [OF ext_loop_ok] ensures_prod ensures_bind l4_ok)
    (auto intro!: addr_stage_proto [THEN iffD2] intro: addr_stage_v6 result_ok_l2 result_ok_addr)

lemma l3_ok: "l2_stage t \<Longrightarrow> ensures result_ok (es_parse_l3 p cap endp off ty t)"
  unfolding es_parse_l3_def Let_def
  by (intro ensures_if arp_ok ipv4_ok ipv6_ok) (auto intro: result_ok_l2)

lemma vlan_loop_ok:
  "l2_stage t \<Longrightarrow> ensures (exit_ok (\<lambda>(_, _, t). l2_stage t)) (es_vlan_loop fuel p cap endp off ty t)"
proof (induction fuel arbitrary: off ty t)
  case 0
  then show ?case by simp
next
  case (Suc fuel)
  show ?case
    unfolding es_vlan_loop.simps
    by (intro ensures_if ensures_guard_stop ensures_bind Suc.IH)
      (use Suc.prems in \<open>auto intro: result_ok_l2 l2_stage_push\<close>)
qed

lemma es_parse_result_ok: "ensures result_ok (es_parse p cap len sv vid)"
proof -
  let ?t = "es_tuple_zero\<lparr>t_flags := ES_T_L2_VALID\<rparr>"
  have l2: "l2_stage ?t"
    by (simp add: l2_stage_def tuple_canonical_def tuple_shape_def vlan_room_def
        es_tuple_zero_def flag_simps replicate_2)
  have zero: "result_ok (rc, es_tuple_zero)"
    if "rc \<in> {ES_PARSE_TRUNCATED, ES_PARSE_MALFORMED}" for rc
    using that by (auto simp: result_ok_def tuple_canonical_def tuple_shape_def vlan_room_def
        es_tuple_zero_def flag_simps replicate_2)
  have push: "l2_stage t" if "(if sv then vlan_push (vid AND 0x0fff) ?t else Some ?t) = Some t" for t
    using that l2 l2_stage_push [OF l2] by (auto split: if_splits)
  show ?thesis
    unfolding es_parse_def Let_def
    by (intro ensures_guard_ret ensures_bind ensures_exit [OF vlan_loop_ok [OF push]] zero)
      (auto intro!: l3_ok)
qed

section \<open>Properties\<close>

text \<open>
  C4: The tuple invariant of the parser, on every return path. Arrays keep their lengths, at
  most two VLAN identifiers of 12 bits are stored and the rest of the array is zero; the
  status fixes the flag byte (ports only with OK, the fragment flag exactly with FRAGMENT);
  ports are only reported for TCP and UDP with addresses and without the fragment flag;
  and fields whose flag is unset are zero, an IPv4 address filling only four bytes.
\<close>

theorem es_parse_tuple_invariant:
  assumes "es_parse p cap len sv vid = Some (rc, t)"
  shows "tuple_canonical t \<and> rc \<noteq> ES_PARSE_SKIPPED \<and> t_vlan_count t \<le> 2 \<and>
    (has_flag (t_flags t) ES_T_PORTS_VALID \<longrightarrow> rc = ES_PARSE_OK \<and>
       has_flag (t_flags t) ES_T_ADDR_VALID \<and> \<not> has_flag (t_flags t) ES_T_FRAGMENT \<and>
       (t_l4_proto t = 6 \<or> t_l4_proto t = 17)) \<and>
    (has_flag (t_flags t) ES_T_FRAGMENT \<longleftrightarrow> rc = ES_PARSE_FRAGMENT) \<and>
    status_flags rc (t_flags t)"
proof -
  have ok: "result_ok (rc, t)"
    using es_parse_result_ok assms by (rule ensuresD)
  then have "tuple_canonical t" and f: "status_flags rc (t_flags t)"
    and "has_flag (t_flags t) ES_T_PORTS_VALID \<longrightarrow> t_l4_proto t = 6 \<or> t_l4_proto t = 17"
    by (simp_all add: result_ok_def)
  moreover have "t_vlan_count t \<le> 2"
    using \<open>tuple_canonical t\<close> by (simp add: tuple_canonical_def tuple_shape_def vlan_room_def)
  moreover from f have "rc \<noteq> ES_PARSE_SKIPPED"
    and "has_flag (t_flags t) ES_T_PORTS_VALID \<longrightarrow> rc = ES_PARSE_OK \<and>
       has_flag (t_flags t) ES_T_ADDR_VALID \<and> \<not> has_flag (t_flags t) ES_T_FRAGMENT"
    and "has_flag (t_flags t) ES_T_FRAGMENT \<longleftrightarrow> rc = ES_PARSE_FRAGMENT"
    by (cases rc; auto simp: flag_simps)+
  ultimately show ?thesis by blast
qed

theorem es_parse_tuple_invariant_witness:
  "tuple_canonical (snd (the (es_parse (replicate 12 0 @ [8, 6] @ replicate 40 0) 42 54 True 7)))"
proof -
  have "map_option fst (es_parse (replicate 12 0 @ [8, 6] @ replicate 40 0) 42 54 True 7) =
    Some ES_PARSE_UNSUPPORTED"
    by code_simp
  then obtain t where "es_parse (replicate 12 0 @ [8, 6] @ replicate 40 0) 42 54 True 7 =
    Some (ES_PARSE_UNSUPPORTED, t)" by auto
  from this es_parse_tuple_invariant [OF this] show ?thesis by simp
qed

end
