(* ===== verification/Observer_Events.thy ===== *)
theory Observer_Events
  imports Tc_Observer Parser_Tuples
begin

text \<open>
  What the passive program publishes: it always returns, always passes the packet on, and
  every event it submits is one that the user-space decoder accepts. The parser's tuple
  invariant is what the decoder's checks on the tuple rest on.
\<close>

section \<open>Tuples the decoder accepts\<close>

definition event_tuple_ok :: "es_tuple \<Rightarrow> bool" where
  "event_tuple_ok t \<longleftrightarrow> tuple_sized t \<and> unat (t_vlan_count t) \<le> 2 \<and> t_reserved t = 0 \<and>
     (\<forall>i. bit (t_flags t) i \<longrightarrow> i < 4) \<and>
     (bit (t_flags t) 2 \<longrightarrow> bit (t_flags t) 1 \<and> \<not> bit (t_flags t) 3 \<and> t_l4_proto t \<in> {6, 17})"

lemma parser_flag_bits:
  fixes f :: u8
  assumes "f \<in> {0, 1, 3, 7, 11}"
  shows "\<forall>i. bit f i \<longrightarrow> i < 4" and "bit f 2 \<longleftrightarrow> f = 7"
    and "f = 7 \<Longrightarrow> bit f 1 \<and> \<not> bit f 3"
proof -
  have "\<not> has_flag f (NOT (mask 4))"
    using assms by (elim insertE emptyE; hypsubst) code_simp+
  then show "\<forall>i. bit f i \<longrightarrow> i < 4"
    by (simp only: has_flag_above not_not)
  show "bit f 2 \<longleftrightarrow> f = 7"
    using assms by (elim insertE emptyE; hypsubst) code_simp+
  show "f = 7 \<Longrightarrow> bit f 1 \<and> \<not> bit f 3"
    by (hypsubst, code_simp)
qed

lemma result_ok_event_tuple:
  assumes "result_ok (rc, t)"
  shows "event_tuple_ok t"
proof -
  have shape: "tuple_shape t" and fl: "status_flags rc (t_flags t)"
    and proto: "t_flags t = 7 \<longrightarrow> t_l4_proto t \<in> {6, 17}"
    using assms by (auto simp: result_ok_def tuple_canonical_def flag_simps)
  have "t_flags t \<in> {0, 1, 3, 7, 11}"
    using fl by (cases rc) (auto simp: flag_simps)
  note bits = parser_flag_bits [OF this]
  show ?thesis
    using shape proto bits
    by (auto simp: event_tuple_ok_def tuple_shape_def tuple_sized_def vlan_room_def word_le_nat_alt)
qed

lemma event_tuple_zero: "event_tuple_ok es_tuple_zero"
  by (simp add: event_tuple_ok_def tuple_sized_def es_tuple_zero_def)

lemma es_parse_returns:
  assumes "unat (parse_window cap len) \<le> length p"
  obtains rc t where "es_parse p cap len sv vid = Some (rc, t)" and "result_ok (rc, t)"
proof -
  have "es_parse p cap len sv vid \<noteq> None"
    using sound_es_parse agree_refl [OF assms] by (rule soundD)
  then show ?thesis
    using es_parse_result_ok [of p cap len sv vid] that by (auto dest: ensuresD)
qed

lemma es_classify_returns:
  assumes "env_ok env"
  obtains status t where "es_classify env cfg skb = Some (status, t)" and "event_tuple_ok t"
proof (cases "classify cfg \<noteq> 0 \<or> flow_enabled cfg \<noteq> 0 \<or> select_l4_proto cfg \<noteq> 0")
  case False
  then show ?thesis
    using that [of ES_PARSE_SKIPPED] by (simp add: es_classify_def event_tuple_zero)
next
  case True
  let ?cap = "if skb_len skb > ES_PARSE_BYTES then ES_PARSE_BYTES else skb_len skb"
  let ?xs = "if ?cap \<noteq> 0 then load_bytes env 0 ?cap else None"
  show ?thesis
  proof (cases ?xs)
    case None
    with True show ?thesis
      using that [of ES_PARSE_TRUNCATED] by (simp add: es_classify_def event_tuple_zero Let_def)
  next
    case (Some xs)
    then have "length (blit (replicate 128 0) xs) = 128"
      using assms by (auto simp: env_ok_def blit_def ES_PARSE_BYTES_def word_le_nat_alt not_less
          split: if_splits)
    then have "unat (parse_window ?cap (skb_len skb)) \<le> length (blit (replicate 128 0) xs)"
      by (simp add: unat_parse_window)
    then show ?thesis
      using True Some that
      by (elim es_parse_returns [of _ _ _ "skb_vlan_present skb \<noteq> 0" "ucast (skb_vlan_tci skb)"])
        (auto simp: es_classify_def Let_def intro: result_ok_event_tuple)
  qed
qed

section \<open>The event\<close>

lemma unat_es_want:
  "unat (es_want cfg skb) = min (min (unat (snapshot_bytes cfg)) 128) (unat (skb_len skb))"
  by (auto simp: es_want_def Let_def ES_SNAPSHOT_MAX_def word_le_nat_alt word_less_nat_alt)

lemma unat_want_u16: "unat (ucast (es_want cfg skb) :: u16) = unat (es_want cfg skb)"
  using unat_es_want [of cfg skb] by (simp add: unsigned_ucast_eq take_bit_nat_eq_self)

lemma event_flag_bits:
  fixes f :: u8
  assumes "f = 0 \<or> f = ES_E_VLAN_STRIPPED"
  shows "\<forall>i. bit f i \<longrightarrow> i < 3" "\<not> bit f 1"
    and "\<forall>i. bit (f OR ES_E_PREFIX_TRUNCATED) i \<longrightarrow> i < 3" "\<not> bit (f OR ES_E_PREFIX_TRUNCATED) 1"
    and "\<forall>i. bit (f OR ES_E_COPY_FAILED) i \<longrightarrow> i < 3"
proof -
  have "\<not> has_flag f (NOT (mask 3)) \<and> \<not> has_flag (f OR ES_E_PREFIX_TRUNCATED) (NOT (mask 3)) \<and>
      \<not> has_flag (f OR ES_E_COPY_FAILED) (NOT (mask 3)) \<and>
      \<not> bit f 1 \<and> \<not> bit (f OR ES_E_PREFIX_TRUNCATED) 1"
    using assms by (elim disjE; hypsubst) code_simp+
  then show "\<forall>i. bit f i \<longrightarrow> i < 3" "\<not> bit f 1"
    "\<forall>i. bit (f OR ES_E_PREFIX_TRUNCATED) i \<longrightarrow> i < 3" "\<not> bit (f OR ES_E_PREFIX_TRUNCATED) 1"
    "\<forall>i. bit (f OR ES_E_COPY_FAILED) i \<longrightarrow> i < 3"
    unfolding has_flag_above not_not by blast+
qed

lemma status_code_le: "unat (status_code status) \<le> 5"
  by (cases status) simp_all

lemma direction_code_less: "unat (direction_code dir) < 2"
  by (cases dir) simp_all

lemma new_event_valid:
  assumes "event_tuple_ok t" and "skb_ifindex skb \<noteq> 0"
  shows "event_valid (es_new_event env skb dir seq status t)"
  using assms event_flag_bits(1,2)
  by (auto simp: event_valid_def es_new_event_def event_tuple_ok_def event_sized_def
      ES_ABI_VERSION_def ES_HOOK_TC_def ES_LINKTYPE_ETHERNET_def status_code_le direction_code_less)

lemma snapshot_valid:
  assumes "event_valid e" and "e_captured_len e = 0" and "e_prefix e = replicate 128 0"
    and "e_original_len e = skb_len skb" and "e_flags e = 0 \<or> e_flags e = ES_E_VLAN_STRIPPED"
    and "env_ok env"
  shows "event_valid (fst (es_snapshot env cfg skb dir (e, st)))"
proof (cases "load_bytes env 1 (es_want cfg skb)")
  case None
  then show ?thesis
    using assms(1-3) event_flag_bits(5) [OF assms(5)]
    by (simp add: es_snapshot_def Let_def event_valid_def event_sized_def)
next
  case (Some xs)
  then have "length xs = unat (es_want cfg skb)"
    using assms(6) by (auto simp: env_ok_def)
  then have "length (blit (e_prefix e) xs) = 128"
    by (simp add: assms(3) blit_def unat_es_want)
  then show ?thesis
    using assms(1,4) event_flag_bits [OF assms(5)] Some
    by (auto simp: es_snapshot_def Let_def event_valid_def event_sized_def unat_want_u16 unat_es_want)
qed

text \<open>One step of the observer, seen from the ring buffer.\<close>

lemma published_event_valid:
  assumes "env_ok env" and "skb_ifindex skb \<noteq> 0" and "event_tuple_ok t"
  shows "event_valid (fst (es_snapshot env cfg skb dir (es_new_event env skb dir seq status t, st)))"
  by (intro snapshot_valid new_event_valid assms) (simp_all add: es_new_event_def)

lemma published_event_ifindex:
  "e_ifindex (fst (es_snapshot env cfg skb dir (es_new_event env skb dir seq status t, st))) = skb_ifindex skb"
  by (auto simp: es_snapshot_def Let_def es_new_event_def split: option.split)

lemma es_observe_result:
  assumes "env_ok env"
  obtains st' es where "es_observe env cfg skb dir st = Some (ES_TC_NEXT, st')"
    and "events st' = events st @ es" and "length es \<le> 1"
    and "skb_ifindex skb \<noteq> 0 \<Longrightarrow> \<forall>e \<in> set es. event_valid e"
    and "\<forall>e \<in> set es. e_ifindex e = skb_ifindex skb"
proof (cases "counters_found env dir")
  case False
  then show ?thesis using that [of st "[]"] by (simp add: es_observe_unfound)
next
  case True
  obtain status t where c: "es_classify env cfg skb = Some (status, t)" and t: "event_tuple_ok t"
    using assms by (rule es_classify_returns)
  let ?st3 = "accounted env cfg skb dir status t st"
  let ?st4 = "bump dir ES_C_SELECTED 1 ?st3"
  let ?pub = "es_publish env cfg skb dir (counters st dir ES_C_PACKETS + 1) status t ?st4"
  note eq = es_observe_eq [OF c True, of st]
  show ?thesis
  proof (cases "\<not> filtered cfg status t \<and> sampled cfg (counters st dir ES_C_SELECTED + 1)")
    case False
    then show ?thesis
      using that [of ?st3 "[]"] that [of ?st4 "[]"]
      by (cases "filtered cfg status t") (simp_all add: eq Let_def)
  next
    case True
    then have "es_observe env cfg skb dir st = Some (ES_TC_NEXT, snd ?pub)"
      using es_publish_verdict [of env cfg skb dir "counters st dir ES_C_PACKETS + 1" status t ?st4]
      by (simp add: eq Let_def prod_eq_iff del: es_publish_verdict)
    then show ?thesis
      by (rule that) (auto simp: es_publish_events published_event_valid published_event_ifindex assms t)
  qed
qed

section \<open>Properties\<close>

text \<open>
  C7: Passive observation. Whatever the packet, the settings, the counters and the answers
  of the kernel (its load helper copying as many bytes as it was asked for), the ingress and
  egress programs return, with the verdict \<open>ES_TC_NEXT\<close>: telemetry never drops or redirects
  a packet, and the parser inside makes no wild access.
\<close>

theorem es_observe_passive:
  assumes "env_ok env"
  shows "map_option fst (es_ingress env cfg skb st) = Some ES_TC_NEXT \<and>
    map_option fst (es_egress env cfg skb st) = Some ES_TC_NEXT"
proof -
  have "map_option fst (es_observe env cfg skb dir st) = Some ES_TC_NEXT" for dir
    by (rule es_observe_result [OF assms, of cfg skb dir st]) simp
  then show ?thesis
    by (simp add: es_ingress_def es_egress_def)
qed

text \<open>
  C8: Kernel and user space agree on events. Every event a run of the observer submits for
  a packet of a real interface is accepted by the user-space decoder, which hands back the
  same event: one packet adds at most one event, and its image decodes to itself.
\<close>

theorem es_observe_events_decode:
  assumes "env_ok env" and "skb_ifindex skb \<noteq> 0"
    and "es_observe env cfg skb dir st = Some (verdict, st')"
  shows "\<exists>es. events st' = events st @ es \<and> length es \<le> 1 \<and>
    (\<forall>e \<in> set es. DecodeEvent (Some (event_bytes e)) (length (event_bytes e)) = Some e)"
  by (rule es_observe_result [OF assms(1), of cfg skb dir st])
    (use assms decode_valid in auto)

theorem es_observe_passive_witness:
  "map_option fst (es_ingress (frame_env udp_frame 5 True) udp_config udp_skb observer_start) =
     Some ES_TC_NEXT"
  using es_observe_passive [OF env_ok_frame] by blast

theorem es_observe_events_decode_witness:
  "\<exists>st' e. es_observe (frame_env udp_frame 5 True) (udp_config\<lparr>sample_every := 1\<rparr>) udp_skb ES_INGRESS
      observer_start = Some (ES_TC_NEXT, st') \<and> events st' = [e] \<and>
    DecodeEvent (Some (event_bytes e)) (length (event_bytes e)) = Some e"
proof -
  have "map_option (\<lambda>r. length (events (snd r)))
      (es_observe (frame_env udp_frame 5 True) (udp_config\<lparr>sample_every := 1\<rparr>) udp_skb ES_INGRESS
        observer_start) = Some 1"
    by code_simp
  moreover obtain st' where run: "es_observe (frame_env udp_frame 5 True) (udp_config\<lparr>sample_every := 1\<rparr>)
      udp_skb ES_INGRESS observer_start = Some (ES_TC_NEXT, st')"
    by (rule es_observe_result [OF env_ok_frame])
  ultimately have "length (events st') = 1"
    by simp
  then obtain e where e: "events st' = [e]"
    by (auto simp: length_Suc_conv)
  have "skb_ifindex udp_skb \<noteq> 0"
    by (simp add: udp_skb_def)
  from es_observe_events_decode [OF env_ok_frame this run] e run show ?thesis
    by (auto simp: observer_start_def)
qed

end
