(* ===== verification/Observer_Counters.thy ===== *)
theory Observer_Counters
  imports Observer_Events
begin

text \<open>
  What the counters of the passive program mean over any sequence of packets: packets and
  bytes are counted, the sampler publishes or loses exactly one packet in
  \<open>sample_every\<close> of those selected, and the sequence numbers of the events of a
  direction increase.
\<close>

section \<open>One packet\<close>

text \<open>Whether the packet passes the telemetry selection of line 88.\<close>

fun chosen :: "observer_config \<Rightarrow> arrival \<Rightarrow> bool" where
  "chosen cfg (env, skb, dir) =
     (case es_classify env cfg skb of Some (status, t) \<Rightarrow> \<not> filtered cfg status t | None \<Rightarrow> False)"

fun counter_gain :: "observer_config \<Rightarrow> arrival \<Rightarrow> bool \<Rightarrow> es_counter_id \<Rightarrow> u64" where
  "counter_gain cfg (env, skb, dir) smp ES_C_PACKETS = 1"
| "counter_gain cfg (env, skb, dir) smp ES_C_BYTES = ucast (skb_len skb)"
| "counter_gain cfg (env, skb, dir) smp ES_C_SELECTED = of_bool (chosen cfg (env, skb, dir))"
| "counter_gain cfg (env, skb, dir) smp ES_C_EVENTS = of_bool (smp \<and> ring_has_room env)"
| "counter_gain cfg (env, skb, dir) smp ES_C_RING_LOST = of_bool (smp \<and> \<not> ring_has_room env)"
| "counter_gain cfg (env, skb, dir) smp _ = 0"

definition main_counters :: "es_counter_id set" where
  "main_counters = {ES_C_PACKETS, ES_C_BYTES, ES_C_SELECTED, ES_C_EVENTS, ES_C_RING_LOST}"

lemma observe_step:
  assumes "env_ok env" and "counters_found env dir"
    and "es_observe env cfg skb dir st = Some (v, st')"
    and "smp = (chosen cfg (env, skb, dir) \<and> sampled cfg (counters st dir ES_C_SELECTED + 1))"
  shows "c \<in> main_counters \<Longrightarrow> counters st' d c = counters st d c +
      (if d = dir then counter_gain cfg (env, skb, dir) smp c else 0)"
    and "\<exists>e. e_direction e = direction_code dir \<and> e_sequence e = counters st dir ES_C_PACKETS + 1 \<and>
      events st' = events st @ (if smp \<and> ring_has_room env then [e] else [])"
proof -
  obtain status t where c: "es_classify env cfg skb = Some (status, t)"
    using assms(1) by (rule es_classify_returns)
  let ?st3 = "accounted env cfg skb dir status t st"
  let ?st4 = "bump dir ES_C_SELECTED 1 ?st3"
  let ?pub = "es_publish env cfg skb dir (counters st dir ES_C_PACKETS + 1) status t ?st4"
  have st': "st' = (if filtered cfg status t then ?st3 else if smp then snd ?pub else ?st4)"
    using assms(3,4) by (auto simp: es_observe_eq [OF c assms(2)] Let_def c split: if_splits)
  have smp: "smp \<Longrightarrow> \<not> filtered cfg status t" and ch: "chosen cfg (env, skb, dir) = (\<not> filtered cfg status t)"
    using assms(4) by (simp_all add: c)
  show "counters st' d c = counters st d c + (if d = dir then counter_gain cfg (env, skb, dir) smp c else 0)"
    if "c \<in> main_counters"
    using that ch smp by (auto simp: main_counters_def st' counter_simps)
  let ?e0 = "es_new_event env skb dir (counters st dir ES_C_PACKETS + 1) status t"
  let ?e = "fst (es_snapshot env cfg skb dir (?e0, ?st4))"
  have "e_direction ?e = direction_code dir" and "e_sequence ?e = counters st dir ES_C_PACKETS + 1"
    by (auto simp: es_snapshot_def Let_def es_new_event_def split: option.split)
  moreover have "events st' = events st @ (if smp \<and> ring_has_room env then [?e] else [])"
    using smp by (auto simp: st' es_publish_events)
  ultimately show "\<exists>e. e_direction e = direction_code dir \<and> e_sequence e = counters st dir ES_C_PACKETS + 1 \<and>
      events st' = events st @ (if smp \<and> ring_has_room env then [e] else [])"
    by blast
qed

section \<open>Runs\<close>

abbreviation kernels_ok :: "arrival list \<Rightarrow> bool" where
  "kernels_ok xs \<equiv> \<forall>a \<in> set xs. env_ok (fst a)"

lemma observe_run_Cons:
  "observe_run cfg ((env, skb, dir) # xs) st =
     (case es_observe env cfg skb dir st of None \<Rightarrow> None | Some (v, st') \<Rightarrow> observe_run cfg xs st')"
  by (cases dir) (simp_all add: es_ingress_def es_egress_def)

lemma observe_run_returns:
  "kernels_ok xs \<Longrightarrow> \<exists>st'. observe_run cfg xs st = Some st'"
proof (induction xs arbitrary: st)
  case Nil
  then show ?case by simp
next
  case (Cons a xs)
  obtain env skb dir where a: "a = (env, skb, dir)" by (cases a)
  have "env_ok env" using Cons.prems by (simp add: a)
  then show ?case
    by (rule es_observe_result [of env cfg skb dir st])
      (use Cons in \<open>simp add: a observe_run_Cons del: observe_run.simps\<close>)
qed

lemma observe_run_induct:
  assumes step: "\<And>ys env skb dir st v st'. I ys st \<Longrightarrow> E env \<Longrightarrow>
      es_observe env cfg skb dir st = Some (v, st') \<Longrightarrow> I (ys @ [(env, skb, dir)]) st'"
    and "\<forall>a \<in> set xs. E (fst a)" and "observe_run cfg xs st = Some st'" and "I ys st"
  shows "I (ys @ xs) st'"
  using assms(2-4)
proof (induction xs arbitrary: ys st)
  case Nil
  then show ?case by simp
next
  case (Cons a xs)
  obtain env skb dir where a: "a = (env, skb, dir)" by (cases a)
  obtain v st1 where one: "es_observe env cfg skb dir st = Some (v, st1)"
    and rest: "observe_run cfg xs st1 = Some st'"
    using Cons.prems(2) by (auto simp: a observe_run_Cons simp del: observe_run.simps split: option.splits)
  have "I (ys @ [(env, skb, dir)]) st1"
    using Cons.prems(1,3) one by (intro step) (simp_all add: a)
  then show ?case
    using Cons.IH [OF _ rest, of "ys @ [(env, skb, dir)]"] Cons.prems(1) by (simp add: a)
qed

text \<open>The packets of a direction that were counted, those selected, and its events.\<close>

definition seen :: "es_direction \<Rightarrow> arrival list \<Rightarrow> arrival list" where
  "seen dir xs = filter (\<lambda>(env, skb, d). d = dir \<and> counters_found env d) xs"

definition chosen_in :: "observer_config \<Rightarrow> es_direction \<Rightarrow> arrival list \<Rightarrow> arrival list" where
  "chosen_in cfg dir xs = filter (chosen cfg) (seen dir xs)"

definition bytes_in :: "es_direction \<Rightarrow> arrival list \<Rightarrow> u64" where
  "bytes_in dir xs = sum_list (map (\<lambda>(env, skb, d). ucast (skb_len skb)) (seen dir xs))"

definition events_of :: "es_direction \<Rightarrow> observer \<Rightarrow> es_event list" where
  "events_of dir st = filter (\<lambda>e. e_direction e = direction_code dir) (events st)"

definition traffic_counted :: "observer_config \<Rightarrow> arrival list \<Rightarrow> observer \<Rightarrow> bool" where
  "traffic_counted cfg xs st \<longleftrightarrow> (\<forall>dir.
     counters st dir ES_C_PACKETS = word_of_nat (length (seen dir xs)) \<and>
     counters st dir ES_C_BYTES = bytes_in dir xs \<and>
     counters st dir ES_C_SELECTED = word_of_nat (length (chosen_in cfg dir xs)) \<and>
     counters st dir ES_C_EVENTS = word_of_nat (length (events_of dir st)))"

lemma direction_code_inj [simp]: "direction_code d = direction_code d' \<longleftrightarrow> d = d'"
  by (cases d; cases d') simp_all

lemma seen_snoc [simp]: "seen d (ys @ [(env, skb, dir)]) =
    seen d ys @ (if d = dir \<and> counters_found env dir then [(env, skb, dir)] else [])"
  by (auto simp: seen_def)

lemma chosen_in_snoc: "chosen_in cfg d (ys @ [(env, skb, dir)]) = chosen_in cfg d ys @
    (if d = dir \<and> counters_found env dir \<and> chosen cfg (env, skb, dir) then [(env, skb, dir)] else [])"
  by (simp add: chosen_in_def)

lemma traffic_counted_step:
  assumes "traffic_counted cfg ys st" and "env_ok env"
    and obs: "es_observe env cfg skb dir st = Some (v, st')"
  shows "traffic_counted cfg (ys @ [(env, skb, dir)]) st'"
proof (cases "counters_found env dir")
  case False
  then show ?thesis
    using assms(1) obs
    by (auto simp: es_observe_unfound traffic_counted_def chosen_in_snoc bytes_in_def simp del: chosen.simps)
next
  case True
  note step = observe_step [OF assms(2) True obs refl]
  obtain e where "e_direction e = direction_code dir" and ev: "events st' = events st @
      (if (chosen cfg (env, skb, dir) \<and> sampled cfg (counters st dir ES_C_SELECTED + 1)) \<and> ring_has_room env
       then [e] else [])"
    using step(2) by blast
  then show ?thesis
    using assms(1) True
    by (auto simp: traffic_counted_def step(1) main_counters_def chosen_in_snoc bytes_in_def
        events_of_def simp del: chosen.simps)
qed

section \<open>Sampling\<close>

text \<open>Published or lost so far, against the packets selected; and the order of the events.\<close>

definition sampling_exact :: "observer_config \<Rightarrow> arrival list \<Rightarrow> observer \<Rightarrow> bool" where
  "sampling_exact cfg xs st \<longleftrightarrow> (\<forall>dir.
     length (events_of dir st) + unat (counters st dir ES_C_RING_LOST) =
       length (chosen_in cfg dir xs) div unat (sample_every cfg))"

definition events_ordered :: "observer \<Rightarrow> bool" where
  "events_ordered st \<longleftrightarrow> (\<forall>dir. sorted_wrt (<) (map e_sequence (events_of dir st)) \<and>
     (\<forall>e \<in> set (events_of dir st). e_sequence e \<le> counters st dir ES_C_PACKETS))"

lemma length_chosen_in: "length (chosen_in cfg dir xs) \<le> length (seen dir xs)"
  by (simp add: chosen_in_def)

lemma length_seen: "length (seen dir xs) \<le> length xs"
  by (simp add: seen_def)

lemma unat_of_nat_u64: "n < 2 ^ 64 \<Longrightarrow> unat (word_of_nat n :: u64) = n"
  by (simp add: unat_of_nat take_bit_nat_eq_self)

lemma sampled_iff:
  assumes "k < 2 ^ 64"
  shows "sampled cfg (word_of_nat k) \<longleftrightarrow> sample_every cfg \<noteq> 0 \<and> k mod unat (sample_every cfg) = 0"
proof -
  have "unat (ucast (sample_every cfg) :: u64) = unat (sample_every cfg)"
    using unat_u32_less [of "sample_every cfg"] by (simp add: unsigned_ucast_eq take_bit_nat_eq_self)
  then show ?thesis
    using assms by (simp add: sampled_def word_unat_eq_iff unat_mod unat_of_nat_u64)
qed

lemma sampling_exact_step:
  assumes inv: "sampling_exact cfg ys st" and count: "traffic_counted cfg ys st" and "env_ok env"
    and len: "length ys + 1 < 2 ^ 64"
    and obs: "es_observe env cfg skb dir st = Some (v, st')"
  shows "sampling_exact cfg (ys @ [(env, skb, dir)]) st'"
proof (cases "counters_found env dir")
  case False
  then show ?thesis
    using inv obs by (auto simp: es_observe_unfound sampling_exact_def chosen_in_snoc simp del: chosen.simps)
next
  case True
  let ?n = "unat (sample_every cfg)" and ?ch = "chosen cfg (env, skb, dir)"
  let ?k = "length (chosen_in cfg dir ys)" and ?lost = "counters st dir ES_C_RING_LOST"
  let ?smp = "?ch \<and> sampled cfg (counters st dir ES_C_SELECTED + 1)"
  note step = observe_step [OF assms(3) True obs refl]
  obtain e where "e_direction e = direction_code dir" and ev: "events st' = events st @
      (if ?smp \<and> ring_has_room env then [e] else [])"
    using step(2) by blast
  then have evs: "length (events_of d st') =
      length (events_of d st) + (if d = dir \<and> ?smp \<and> ring_has_room env then 1 else 0)" for d
    by (auto simp: events_of_def)
  have k: "Suc ?k < 2 ^ 64"
    using len length_chosen_in [of cfg dir ys] length_seen [of dir ys] by linarith
  have "counters st dir ES_C_SELECTED + 1 = word_of_nat (Suc ?k)"
    using count by (simp add: traffic_counted_def)
  then have smp: "?smp \<longleftrightarrow> ?ch \<and> ?n \<noteq> 0 \<and> Suc ?k mod ?n = 0"
    using k by (simp only: sampled_iff unat_eq_0)
  have inv_dir: "length (events_of dir st) + unat ?lost = ?k div ?n"
    using inv by (simp add: sampling_exact_def)
  then have "unat ?lost \<le> ?k"
    using div_le_dividend [of ?k ?n] by linarith
  then have "unat (?lost + of_bool b) = unat ?lost + of_bool b" for b
    using k by (cases b) (simp_all add: unat_add_small)
  then have lost: "unat (counters st' dir ES_C_RING_LOST) = unat ?lost + of_bool (?smp \<and> \<not> ring_has_room env)"
    by (simp add: step(1) main_counters_def)
  have new: "length (chosen_in cfg dir (ys @ [(env, skb, dir)])) = ?k + of_bool ?ch"
    using True by (simp add: chosen_in_snoc del: chosen.simps)
  have "length (events_of dir st') + unat (counters st' dir ES_C_RING_LOST) = ?k div ?n + of_bool ?smp"
    using inv_dir by (simp only: evs lost) (simp add: of_bool_def)
  also have "\<dots> = length (chosen_in cfg dir (ys @ [(env, skb, dir)])) div ?n"
    unfolding new smp by (cases ?ch) (simp_all add: div_Suc)
  finally have "length (events_of dir st') + unat (counters st' dir ES_C_RING_LOST) =
      length (chosen_in cfg dir (ys @ [(env, skb, dir)])) div ?n" .
  moreover have "length (events_of d st') + unat (counters st' d ES_C_RING_LOST) =
      length (chosen_in cfg d (ys @ [(env, skb, dir)])) div ?n" if "d \<noteq> dir" for d
    using inv that evs [of d] step(1) [of ES_C_RING_LOST d]
    by (simp add: sampling_exact_def main_counters_def chosen_in_snoc del: chosen.simps)
  ultimately show ?thesis
    unfolding sampling_exact_def by metis
qed

lemma events_ordered_step:
  assumes inv: "events_ordered st" and count: "traffic_counted cfg ys st" and "env_ok env"
    and len: "length ys + 1 < 2 ^ 64"
    and obs: "es_observe env cfg skb dir st = Some (v, st')"
  shows "events_ordered st'"
proof (cases "counters_found env dir")
  case False
  then show ?thesis using inv obs by (simp add: es_observe_unfound)
next
  case True
  let ?p = "counters st dir ES_C_PACKETS"
  note step = observe_step [OF assms(3) True obs refl]
  have "unat ?p = length (seen dir ys)"
    using count len length_seen [of dir ys] by (simp add: traffic_counted_def unat_of_nat_u64)
  then have "unat (?p + 1) = unat ?p + 1"
    using len length_seen [of dir ys] unat_add_small [of ?p 1] by simp
  then have p: "?p < ?p + 1"
    by (simp add: word_less_nat_alt)
  have p': "counters st' d ES_C_PACKETS = counters st d ES_C_PACKETS + (if d = dir then 1 else 0)" for d
    by (simp add: step(1) main_counters_def)
  obtain e where e: "e_direction e = direction_code dir" "e_sequence e = ?p + 1"
    and "\<exists>b. events st' = events st @ (if b then [e] else [])"
    using step(2) by blast
  then obtain b where ev: "events st' = events st @ (if b then [e] else [])"
    by blast
  have evs: "events_of d st' = events_of d st @ (if b \<and> d = dir then [e] else [])" for d
    by (cases b) (simp_all add: events_of_def ev e(1) eq_commute)
  have "sorted_wrt (<) (map e_sequence (events_of d st')) \<and>
      (\<forall>e \<in> set (events_of d st'). e_sequence e \<le> counters st' d ES_C_PACKETS)" for d
  proof (cases "d = dir")
    case True
    then have "\<forall>x \<in> set (events_of dir st). e_sequence x \<le> ?p"
      and "sorted_wrt (<) (map e_sequence (events_of dir st))"
      using inv by (simp_all add: events_ordered_def)
    moreover from this have "\<forall>x \<in> set (events_of dir st). e_sequence x < ?p + 1"
      by (blast intro: order.strict_trans1 [OF _ p])
    moreover have "counters st' dir ES_C_PACKETS = ?p + 1"
      using p' [of dir] by simp
    ultimately show ?thesis
      using e(2) evs [of dir] True by (cases b) (auto simp: sorted_wrt_append intro: order.strict_implies_order)
  next
    case False
    then show ?thesis
      using inv evs [of d] p' [of d] by (auto simp: events_ordered_def)
  qed
  then show ?thesis by (simp add: events_ordered_def)
qed

lemma observe_run_invariants:
  assumes "kernels_ok xs" and "length xs < 2 ^ 64" and "observe_run cfg xs observer_start = Some st'"
  shows "traffic_counted cfg xs st'" and "sampling_exact cfg xs st'" and "events_ordered st'"
proof -
  let ?I = "\<lambda>ys st. length ys < 2 ^ 64 \<longrightarrow>
    traffic_counted cfg ys st \<and> sampling_exact cfg ys st \<and> events_ordered st"
  have "?I ([] @ xs) st'"
    using _ assms(1,3)
  proof (rule observe_run_induct [where I = ?I and E = env_ok])
    fix ys env skb dir st v st'
    assume I: "?I ys st" and env: "env_ok env" and obs: "es_observe env cfg skb dir st = Some (v, st')"
    show "?I (ys @ [(env, skb, dir)]) st'"
    proof
      assume "length (ys @ [(env, skb, dir)]) < 2 ^ 64"
      then have len: "length ys + 1 < 2 ^ 64" by simp
      with I have t: "traffic_counted cfg ys st" and s: "sampling_exact cfg ys st"
        and o: "events_ordered st" by simp_all
      show "traffic_counted cfg (ys @ [(env, skb, dir)]) st' \<and>
        sampling_exact cfg (ys @ [(env, skb, dir)]) st' \<and> events_ordered st'"
        using traffic_counted_step [OF t env obs] sampling_exact_step [OF s t env len obs]
          events_ordered_step [OF o t env len obs] by blast
    qed
  next
    show "?I [] observer_start"
      by (simp add: traffic_counted_def sampling_exact_def events_ordered_def observer_start_def
          seen_def chosen_in_def bytes_in_def events_of_def)
  qed
  then show "traffic_counted cfg xs st'" and "sampling_exact cfg xs st'" and "events_ordered st'"
    using assms(2) by simp_all
qed

section \<open>Properties\<close>

text \<open>
  One CPU on its own: the observer runs over any sequence of packets, and its counters mean what they say.
  For fewer than 2^64 packets, in each direction: PACKETS is the number of packets that
  reached it and BYTES their total length modulo 2^64, SELECTED the number that passed the
  telemetry selection, and EVENTS the number of that direction's events in the ring buffer.
\<close>

theorem observe_run_counts:
  assumes "kernels_ok xs" and "length xs < 2 ^ 64"
  shows "\<exists>st'. observe_run cfg xs observer_start = Some st' \<and> traffic_counted cfg xs st' \<and>
    (\<forall>dir. unat (counters st' dir ES_C_PACKETS) = length (seen dir xs) \<and>
       unat (counters st' dir ES_C_SELECTED) = length (chosen_in cfg dir xs))"
proof -
  obtain st' where run: "observe_run cfg xs observer_start = Some st'"
    using observe_run_returns [OF assms(1)] by blast
  have "length (seen dir xs) < 2 ^ 64" and "length (chosen_in cfg dir xs) < 2 ^ 64" for dir
    using assms(2) length_seen [of dir xs] length_chosen_in [of cfg dir xs] by linarith+
  then show ?thesis
    using run observe_run_invariants(1) [OF assms run] by (simp add: traffic_counted_def unat_of_nat_u64)
qed

text \<open>
  One CPU on its own: exact sampling. After any run of fewer than 2^64 packets, in each direction, the
  events published plus those the ring buffer had no room for (RING_LOST) are exactly the
  number of selected packets divided by \<open>sample_every\<close>; with \<open>sample_every = 0\<close> there
  are none.
\<close>

theorem observe_run_samples_one_in_n:
  assumes "kernels_ok xs" and "length xs < 2 ^ 64" and "observe_run cfg xs observer_start = Some st'"
  shows "length (events_of dir st') + unat (counters st' dir ES_C_RING_LOST) =
    (if sample_every cfg = 0 then 0 else length (chosen_in cfg dir xs) div unat (sample_every cfg))"
  using observe_run_invariants(2) [OF assms] by (simp add: sampling_exact_def)

text \<open>
  Events are in order. In each direction the sequence numbers of the events in the ring
  buffer are strictly increasing, and none exceeds the packet counter, so a gap tells the
  reader how many packets passed between two events.
\<close>

theorem observe_run_sequences_increase:
  assumes "kernels_ok xs" and "length xs < 2 ^ 64" and "observe_run cfg xs observer_start = Some st'"
  shows "sorted_wrt (<) (map e_sequence (events_of dir st')) \<and>
    (\<forall>e \<in> set (events_of dir st'). e_sequence e \<le> counters st' dir ES_C_PACKETS)"
  using observe_run_invariants(3) [OF assms] by (simp add: events_ordered_def)

text \<open>Three UDP packets, of which the second is sampled.\<close>

definition udp_arrivals :: "arrival list" where
  "udp_arrivals = [(frame_env udp_frame 5 True, udp_skb, ES_INGRESS),
     (frame_env udp_frame 6 True, udp_skb, ES_INGRESS), (frame_env udp_frame 7 True, udp_skb, ES_INGRESS)]"

lemma udp_arrivals_ok: "kernels_ok udp_arrivals" "length udp_arrivals < 2 ^ 64"
  by (simp_all add: udp_arrivals_def)

lemma udp_run:
  obtains st' where "observe_run udp_config udp_arrivals observer_start = Some st'"
    and "map e_sequence (events_of ES_INGRESS st') = [2]"
proof -
  have "map_option (\<lambda>st. map e_sequence (events_of ES_INGRESS st))
      (observe_run udp_config udp_arrivals observer_start) = Some [2]"
    by code_simp
  then show ?thesis using that by auto
qed

theorem observe_run_counts_witness:
  "\<exists>st'. observe_run udp_config udp_arrivals observer_start = Some st' \<and>
    traffic_counted udp_config udp_arrivals st'"
  using observe_run_counts [OF udp_arrivals_ok, of udp_config] by blast

theorem observe_run_samples_one_in_n_witness:
  "\<exists>st'. observe_run udp_config udp_arrivals observer_start = Some st' \<and>
    length (events_of ES_INGRESS st') = 1 \<and>
    1 + unat (counters st' ES_INGRESS ES_C_RING_LOST) =
      length (chosen_in udp_config ES_INGRESS udp_arrivals) div 2"
proof (rule udp_run)
  fix st'
  assume run: "observe_run udp_config udp_arrivals observer_start = Some st'"
    and "map e_sequence (events_of ES_INGRESS st') = [2]"
  then have "length (events_of ES_INGRESS st') = 1" by auto
  then show ?thesis
    using observe_run_samples_one_in_n [OF udp_arrivals_ok run, of ES_INGRESS] run
    by (auto simp: udp_config_def)
qed

theorem observe_run_sequences_increase_witness:
  "\<exists>st'. map e_sequence (events_of ES_INGRESS st') = [2] \<and>
    (\<forall>e \<in> set (events_of ES_INGRESS st'). e_sequence e \<le> counters st' ES_INGRESS ES_C_PACKETS)"
proof (rule udp_run)
  fix st'
  assume run: "observe_run udp_config udp_arrivals observer_start = Some st'"
    and "map e_sequence (events_of ES_INGRESS st') = [2]"
  then show ?thesis
    using observe_run_sequences_increase [OF udp_arrivals_ok run, of ES_INGRESS]
    by (intro exI [of _ st']) simp
qed

end
