(* ===== verification/Observer_Flows.thy ===== *)
theory Observer_Flows
  imports Observer_Counters
begin

text \<open>
  What the flow table of the passive program holds. The kernel's LRU table may refuse an
  insertion or evict an entry at any insertion; an entry that is there describes exactly
  the packets of its flow since it was created, and with a table that keeps everything,
  all of them.
\<close>

section \<open>The flow of a packet\<close>

fun flow_of :: "observer_config \<Rightarrow> arrival \<Rightarrow> es_flow_key option" where
  "flow_of cfg (env, skb, dir) =
     (if counters_found env dir \<and> flow_enabled cfg \<noteq> 0 then
        (case es_classify env cfg skb of
           Some (status, t) \<Rightarrow>
             if status = ES_PARSE_OK \<and> has_flag (t_flags t) ES_T_PORTS_VALID
             then Some (flow_key skb dir t) else None
         | None \<Rightarrow> None)
      else None)"

definition flow_hits :: "observer_config \<Rightarrow> es_flow_key \<Rightarrow> arrival list \<Rightarrow> arrival list" where
  "flow_hits cfg k xs = filter (\<lambda>a. flow_of cfg a = Some k) xs"

text \<open>The entry that describes a non-empty list of packets.\<close>

definition flow_view :: "arrival list \<Rightarrow> es_flow_value" where
  "flow_view zs = \<lparr>f_first_ns = ktime (fst (hd zs)), f_last_ns = ktime (fst (last zs)),
     f_packets = word_of_nat (length zs),
     f_bytes = sum_list (map (\<lambda>(env, skb, d). ucast (skb_len skb)) zs)\<rparr>"

lemma flow_update_zero: "flow_update (ktime env) (skb_len skb) flow_zero = flow_view [(env, skb, dir)]"
  by (simp add: flow_update_def flow_zero_def flow_view_def)

lemma flow_update_view:
  assumes "zs \<noteq> []" and "length zs < 2 ^ 64"
  shows "flow_update (ktime env) (skb_len skb) (flow_view zs) = flow_view (zs @ [(env, skb, dir)])"
proof -
  have "unat (word_of_nat (length zs) :: u64) = length zs"
    using assms(2) by (rule unat_of_nat_u64)
  then have "(word_of_nat (length zs) :: u64) \<noteq> 0"
    using assms(1) by (metis length_greater_0_conv less_numeral_extra(3) unat_0)
  then show ?thesis
    using assms(1) by (simp add: flow_update_def flow_view_def Let_def)
qed

section \<open>One packet\<close>

text \<open>The table after \<open>bpf_map_lookup_elem\<close>, the insertion of a zero entry and the update.\<close>

definition flow_touch :: "kernel_env \<Rightarrow> sk_buff \<Rightarrow> es_flow_key \<Rightarrow> flow_table \<Rightarrow> flow_table" where
  "flow_touch env skb k fl =
     (let fl' = (if fl k = None then flow_insert env fl k flow_zero else fl)
      in case fl' k of None \<Rightarrow> fl'
         | Some f \<Rightarrow> fl'(k \<mapsto> flow_update (ktime env) (skb_len skb) f))"

lemma flows_publish [simp]: "flows (snd (es_publish env cfg skb dir seq status t st)) = flows st"
proof -
  have "flows (snd (es_snapshot env cfg skb dir (e, st))) = flows st" for e
    by (auto simp: es_snapshot_def Let_def split: option.split)
  then show ?thesis
    by (simp add: es_publish_def case_prod_beta)
qed

lemma flows_count_flow:
  "flows (es_count_flow env skb dir t (ktime env) st) =
    (if has_flag (t_flags t) ES_T_PORTS_VALID then flow_touch env skb (flow_key skb dir t) (flows st)
     else flows st)"
  by (auto simp: es_count_flow_def flow_touch_def Let_def split: option.split)

lemma flows_step:
  assumes "env_ok env" and "es_observe env cfg skb dir st = Some (v, st')"
  shows "flows st' = (case flow_of cfg (env, skb, dir) of None \<Rightarrow> flows st
    | Some k \<Rightarrow> flow_touch env skb k (flows st))"
proof (cases "counters_found env dir")
  case False
  then show ?thesis using assms(2) by (simp add: es_observe_unfound)
next
  case True
  obtain status t where c: "es_classify env cfg skb = Some (status, t)"
    using assms(1) by (rule es_classify_returns)
  let ?st3 = "accounted env cfg skb dir status t st"
  let ?st4 = "bump dir ES_C_SELECTED 1 ?st3"
  have "st' = (if filtered cfg status t then ?st3
      else if sampled cfg (counters st dir ES_C_SELECTED + 1)
      then snd (es_publish env cfg skb dir (counters st dir ES_C_PACKETS + 1) status t ?st4) else ?st4)"
    using assms(2) by (auto simp: es_observe_eq [OF c True] Let_def split: if_splits)
  then have "flows st' = flows ?st3"
    by simp
  also have "\<dots> = (case flow_of cfg (env, skb, dir) of None \<Rightarrow> flows st
      | Some k \<Rightarrow> flow_touch env skb k (flows st))"
    using True by (simp add: accounted_def Let_def c flows_count_flow)
  finally show ?thesis .
qed

section \<open>Runs\<close>

definition flows_exact :: "observer_config \<Rightarrow> arrival list \<Rightarrow> observer \<Rightarrow> bool" where
  "flows_exact cfg xs st \<longleftrightarrow> (\<forall>k f. flows st k = Some f \<longrightarrow>
     (\<exists>ys zs. flow_hits cfg k xs = ys @ zs \<and> zs \<noteq> [] \<and> f = flow_view zs))"

definition flows_complete :: "observer_config \<Rightarrow> arrival list \<Rightarrow> observer \<Rightarrow> bool" where
  "flows_complete cfg xs st \<longleftrightarrow> (\<forall>k. flows st k =
     (if flow_hits cfg k xs = [] then None else Some (flow_view (flow_hits cfg k xs))))"

definition keeps_flows :: "kernel_env \<Rightarrow> bool" where
  "keeps_flows env \<longleftrightarrow> (\<forall>fl k v. flow_insert env fl k v = fl(k \<mapsto> v))"

lemma flow_hits_snoc: "flow_hits cfg k (ys @ [(env, skb, dir)]) = flow_hits cfg k ys @
    (if flow_of cfg (env, skb, dir) = Some k then [(env, skb, dir)] else [])"
  by (simp add: flow_hits_def)

lemma length_flow_hits: "length (flow_hits cfg k ys) \<le> length ys"
  by (simp add: flow_hits_def)

lemma flow_insertD:
  assumes "flow_insert_ok env"
  shows "flow_insert env fl k v k = Some x \<Longrightarrow> x = v"
    and "flow_insert env fl k v k' = Some x \<Longrightarrow> k' \<noteq> k \<Longrightarrow> fl k' = Some x"
  using assms unfolding flow_insert_ok_def by (metis option.distinct(1) option.inject)+

lemma flow_touch_other:
  assumes "flow_insert_ok env" and "k' \<noteq> k" and "flow_touch env skb k fl k' = Some f"
  shows "fl k' = Some f"
proof (cases "fl k")
  case None
  then have "flow_insert env fl k flow_zero k' = Some f"
    using assms(2,3) by (cases "flow_insert env fl k flow_zero k") (simp_all add: flow_touch_def)
  then show ?thesis
    using assms(1,2) by (blast intro: flow_insertD)
next
  case (Some f0)
  then show ?thesis using assms(2,3) by (simp add: flow_touch_def)
qed

lemma flow_touch_same:
  assumes "flow_insert_ok env" and "flow_touch env skb k fl k = Some f"
  shows "f = flow_update (ktime env) (skb_len skb) (case fl k of None \<Rightarrow> flow_zero | Some f0 \<Rightarrow> f0)"
proof (cases "fl k")
  case None
  then obtain x where x: "flow_insert env fl k flow_zero k = Some x"
    and "f = flow_update (ktime env) (skb_len skb) x"
    using assms(2) by (auto simp: flow_touch_def Let_def split: option.splits)
  then show ?thesis
    using flow_insertD(1) [OF assms(1) x] None by simp
next
  case (Some f0)
  then show ?thesis using assms(2) by (simp add: flow_touch_def)
qed

lemma flow_touch_keeps:
  "keeps_flows env \<Longrightarrow> flow_touch env skb k fl =
    fl(k \<mapsto> flow_update (ktime env) (skb_len skb) (case fl k of None \<Rightarrow> flow_zero | Some f0 \<Rightarrow> f0))"
  by (auto simp: flow_touch_def keeps_flows_def split: option.splits)

lemma flows_exact_step:
  assumes inv: "flows_exact cfg ys st" and "env_ok env" and ins: "flow_insert_ok env"
    and len: "length ys < 2 ^ 64" and obs: "es_observe env cfg skb dir st = Some (v, st')"
  shows "flows_exact cfg (ys @ [(env, skb, dir)]) st'"
proof (cases "flow_of cfg (env, skb, dir)")
  case None
  then show ?thesis
    using inv flows_step [OF assms(2) obs] by (simp add: flows_exact_def flow_hits_snoc)
next
  case (Some k)
  then have fl: "flows st' = flow_touch env skb k (flows st)"
    using flows_step [OF assms(2) obs] by simp
  show ?thesis
    unfolding flows_exact_def
  proof (intro allI impI)
    fix k' f
    assume f: "flows st' k' = Some f"
    show "\<exists>us zs. flow_hits cfg k' (ys @ [(env, skb, dir)]) = us @ zs \<and> zs \<noteq> [] \<and> f = flow_view zs"
    proof (cases "k' = k")
      case False
      then have "flows st k' = Some f"
        using flow_touch_other [OF ins] f by (simp add: fl)
      then show ?thesis
        using inv False Some by (simp add: flows_exact_def flow_hits_snoc)
    next
      case True
      have upd: "f = flow_update (ktime env) (skb_len skb)
          (case flows st k of None \<Rightarrow> flow_zero | Some f0 \<Rightarrow> f0)"
        using flow_touch_same [OF ins] f by (simp add: fl True)
      show ?thesis
      proof (cases "flows st k")
        case None
        then have "f = flow_view [(env, skb, dir)]"
          using upd flow_update_zero by simp
        then show ?thesis
          using Some True by (auto simp: flow_hits_snoc)
      next
        case (Some f0)
        then obtain us zs where hits: "flow_hits cfg k ys = us @ zs" and zs: "zs \<noteq> []" "f0 = flow_view zs"
          using inv unfolding flows_exact_def by blast
        have "length zs \<le> length ys"
          using length_flow_hits [of cfg k ys] by (simp add: hits)
        then have "f = flow_view (zs @ [(env, skb, dir)])"
          using upd Some zs len by (simp add: flow_update_view)
        then show ?thesis
          using hits True \<open>flow_of cfg (env, skb, dir) = Some k\<close> by (auto simp: flow_hits_snoc)
      qed
    qed
  qed
qed

lemma flows_complete_step:
  assumes inv: "flows_complete cfg ys st" and "env_ok env" and keep: "keeps_flows env"
    and len: "length ys < 2 ^ 64" and obs: "es_observe env cfg skb dir st = Some (v, st')"
  shows "flows_complete cfg (ys @ [(env, skb, dir)]) st'"
proof (cases "flow_of cfg (env, skb, dir)")
  case None
  then show ?thesis
    using inv flows_step [OF assms(2) obs] by (simp add: flows_complete_def flow_hits_snoc)
next
  case (Some k)
  have "length (flow_hits cfg k ys) < 2 ^ 64"
    using len length_flow_hits [of cfg k ys] by linarith
  then have "flow_update (ktime env) (skb_len skb) (case flows st k of None \<Rightarrow> flow_zero | Some f0 \<Rightarrow> f0) =
      flow_view (flow_hits cfg k ys @ [(env, skb, dir)])"
    using inv flow_update_view [of "flow_hits cfg k ys"] flow_update_zero
    by (simp add: flows_complete_def)
  then show ?thesis
    using inv Some flows_step [OF assms(2) obs]
    by (simp add: flows_complete_def flow_hits_snoc flow_touch_keeps [OF keep])
qed

lemma flows_run:
  assumes step: "\<And>ys env skb dir st v st'. I ys st \<Longrightarrow> env_ok env \<Longrightarrow> Q env \<Longrightarrow> length ys < 2 ^ 64 \<Longrightarrow>
      es_observe env cfg skb dir st = Some (v, st') \<Longrightarrow> I (ys @ [(env, skb, dir)]) st'"
    and "kernels_ok xs" and "\<forall>a \<in> set xs. Q (fst a)" and "length xs < 2 ^ 64"
    and run: "observe_run cfg xs observer_start = Some st'" and "I [] observer_start"
  shows "I xs st'"
proof -
  let ?J = "\<lambda>ys st. length ys < 2 ^ 64 \<longrightarrow> I ys st"
  have "\<forall>a \<in> set xs. env_ok (fst a) \<and> Q (fst a)"
    using assms(2,3) by blast
  with _ have "?J ([] @ xs) st'"
    using run
  proof (rule observe_run_induct [where I = ?J and E = "\<lambda>env. env_ok env \<and> Q env"])
    fix ys env skb dir st v st'
    assume J: "?J ys st" and env: "env_ok env \<and> Q env"
      and obs: "es_observe env cfg skb dir st = Some (v, st')"
    show "?J (ys @ [(env, skb, dir)]) st'"
    proof
      assume "length (ys @ [(env, skb, dir)]) < 2 ^ 64"
      then have "length ys < 2 ^ 64" by simp
      with J env obs step [of ys st env skb dir v st'] show "I (ys @ [(env, skb, dir)]) st'"
        by blast
    qed
  qed (use assms(6) in blast)
  with assms(4) show ?thesis by simp
qed

section \<open>Properties\<close>

text \<open>
  One CPU on its own: an entry of the flow table tells the truth. For any run of fewer than 2^64 packets
  on kernels that may refuse insertions and evict entries, an entry that is present
  describes exactly the packets of its flow since some point, at least one: the time of the
  first and of the last of them, their number and their bytes. Packets of other flows,
  fragments and packets that did not parse are never mixed in.
\<close>

theorem observe_run_flow_entries:
  assumes "kernels_ok xs" and "\<forall>a \<in> set xs. flow_insert_ok (fst a)" and "length xs < 2 ^ 64"
    and "observe_run cfg xs observer_start = Some st'" and "flows st' k = Some f"
  shows "\<exists>ys zs. flow_hits cfg k xs = ys @ zs \<and> zs \<noteq> [] \<and> f = flow_view zs"
proof -
  have "flows_exact cfg [] observer_start"
    by (simp add: flows_exact_def observer_start_def)
  with flows_exact_step assms(1-4) have "flows_exact cfg xs st'"
    by (rule flows_run [where I = "flows_exact cfg" and Q = flow_insert_ok])
  with assms(5) show ?thesis by (simp add: flows_exact_def)
qed

text \<open>
  With a table that keeps every entry, the flow table is complete: after any run, a
  flow has an entry if and only if one of its packets was seen, and the entry counts all of
  its packets and bytes from the first to the last.
\<close>

theorem observe_run_flow_table:
  assumes "kernels_ok xs" and "\<forall>a \<in> set xs. keeps_flows (fst a)" and "length xs < 2 ^ 64"
    and "observe_run cfg xs observer_start = Some st'"
  shows "flows st' k = (if flow_hits cfg k xs = [] then None else Some (flow_view (flow_hits cfg k xs)))"
proof -
  have "flows_complete cfg [] observer_start"
    by (simp add: flows_complete_def observer_start_def flow_hits_def)
  with flows_complete_step assms have "flows_complete cfg xs st'"
    by (rule flows_run [where I = "flows_complete cfg" and Q = keeps_flows])
  then show ?thesis by (simp add: flows_complete_def)
qed

definition udp_tuple :: es_tuple where
  "udp_tuple = \<lparr>t_src = [192, 0, 2, 1] @ replicate 12 0, t_dst = [192, 0, 2, 2] @ replicate 12 0,
     t_sport = (4, 0), t_dport = (0, 53), t_ethertype = 0x0800, t_vlan = [0, 0], t_ip_version = 4,
     t_l4_proto = 17, t_flags = 7, t_vlan_count = 0, t_reserved = 0\<rparr>"

definition udp_key :: es_flow_key where
  "udp_key = flow_key udp_skb ES_INGRESS udp_tuple"

lemma udp_classify: "es_classify (frame_env udp_frame now room) udp_config udp_skb =
    Some (ES_PARSE_OK, udp_tuple)"
proof -
  have "es_parse (blit (replicate 128 0) udp_frame) 46 46 False 0 = Some (ES_PARSE_OK, udp_tuple)"
    by code_simp
  then show ?thesis
    by (simp add: es_classify_def udp_config_def udp_skb_def ES_PARSE_BYTES_def frame_env_def)
      (simp add: udp_frame_def)
qed

lemma udp_arrivals_keep: "\<forall>a \<in> set udp_arrivals. keeps_flows (fst a)"
  and udp_arrivals_insert: "\<forall>a \<in> set udp_arrivals. flow_insert_ok (fst a)"
  by (simp_all add: udp_arrivals_def keeps_flows_def) (simp add: frame_env_def)

lemma udp_flow_hits: "flow_hits udp_config udp_key udp_arrivals = udp_arrivals"
  by (simp add: flow_hits_def udp_arrivals_def udp_classify udp_key_def)
    (simp add: udp_config_def udp_tuple_def frame_env_def flow_key_def flag_simps)

theorem observe_run_flow_table_witness:
  "\<exists>st' f. observe_run udp_config udp_arrivals observer_start = Some st' \<and>
    flows st' udp_key = Some f \<and> f_packets f = 3"
proof (rule udp_run)
  fix st'
  assume run: "observe_run udp_config udp_arrivals observer_start = Some st'"
  have "udp_arrivals \<noteq> []" and "length udp_arrivals = 3"
    by (simp_all add: udp_arrivals_def)
  then show ?thesis
    using observe_run_flow_table [OF udp_arrivals_ok(1) udp_arrivals_keep udp_arrivals_ok(2) run, of udp_key]
      run by (simp add: udp_flow_hits flow_view_def)
qed

theorem observe_run_flow_entries_witness:
  "\<exists>st' f ys zs. observe_run udp_config udp_arrivals observer_start = Some st' \<and>
    flows st' udp_key = Some f \<and> flow_hits udp_config udp_key udp_arrivals = ys @ zs \<and>
    zs \<noteq> [] \<and> f = flow_view zs"
proof (rule udp_run)
  fix st'
  assume run: "observe_run udp_config udp_arrivals observer_start = Some st'"
  have "flows_complete udp_config [] observer_start"
    by (simp add: flows_complete_def observer_start_def flow_hits_def)
  with flows_complete_step udp_arrivals_ok(1) udp_arrivals_keep udp_arrivals_ok(2) run
  have "flows_complete udp_config udp_arrivals st'"
    by (rule flows_run [where I = "flows_complete udp_config" and Q = keeps_flows])
  moreover have "udp_arrivals \<noteq> []"
    by (simp add: udp_arrivals_def)
  ultimately obtain f where "flows st' udp_key = Some f"
    by (auto simp: flows_complete_def udp_flow_hits)
  then show ?thesis
    using observe_run_flow_entries [OF udp_arrivals_ok(1) udp_arrivals_insert udp_arrivals_ok(2) run] run
    by blast
qed

end
