(* ===== verification/Observer_Cpus.thy ===== *)
theory Observer_Cpus
  imports Observer_Flows
begin

text \<open>
  The passive program on every CPU of a machine. The three maps of
  \<open>bpf/elephantshrew_tc.bpf.c\<close> are shared differently: \<open>counters\<close> is a per-CPU array, so each
  CPU has its own; \<open>events\<close> is one ring buffer; \<open>flows\<close> is a per-CPU LRU hash, whose keys all
  CPUs share and whose value each CPU has its own copy of. A packet is handled on the CPU of
  its arrival, on that CPU's view of the maps, and its effect is carried back into them. A
  packet runs to its end before the next one: what a CPU does with its own counters and its
  own copy of a value is not visible to the others.

  Documented behaviour of the per-CPU hash: inserting a key stores the value for the CPU that
  inserts it and zero for the others, and evicting a key removes it for all of them.
\<close>

section \<open>The maps of a machine\<close>

record host =
  cpu_counters :: "u32 \<Rightarrow> es_direction \<Rightarrow> es_counters"
  ring :: "es_event list"
  flow_map :: "es_flow_key \<Rightarrow> (u32 \<Rightarrow> es_flow_value) option"

definition host_start :: host where
  "host_start = \<lparr>cpu_counters = (\<lambda>_ _ _. 0), ring = [], flow_map = (\<lambda>_. None)\<rparr>"

text \<open>What a program that runs on a CPU sees, and the maps after it.\<close>

definition view :: "u32 \<Rightarrow> host \<Rightarrow> observer" where
  "view c h = \<lparr>counters = cpu_counters h c, events = ring h,
     flows = (\<lambda>k. map_option (\<lambda>f. f c) (flow_map h k))\<rparr>"

definition write_back :: "u32 \<Rightarrow> observer \<Rightarrow> host \<Rightarrow> host" where
  "write_back c st h = \<lparr>cpu_counters = (cpu_counters h)(c := counters st), ring = events st,
     flow_map = (\<lambda>k. case flows st k of
         None \<Rightarrow> None
       | Some f \<Rightarrow> Some ((case flow_map h k of None \<Rightarrow> \<lambda>_. flow_zero | Some g \<Rightarrow> g)(c := f)))\<rparr>"

fun host_step :: "observer_config \<Rightarrow> arrival \<Rightarrow> host \<Rightarrow> host option" where
  "host_step cfg (env, skb, dir) h =
     (let c = cpu_id env; st = view c h
      in map_option (\<lambda>(verdict, st'). write_back c st' h)
           (case dir of ES_INGRESS \<Rightarrow> es_ingress env cfg skb st | ES_EGRESS \<Rightarrow> es_egress env cfg skb st))"

fun host_run :: "observer_config \<Rightarrow> arrival list \<Rightarrow> host \<Rightarrow> host option" where
  "host_run cfg [] h = Some h"
| "host_run cfg (a # xs) h = Option.bind (host_step cfg a h) (host_run cfg xs)"

text \<open>The packets of a CPU, its events, and the observer that CPU would be on its own.\<close>

definition on_cpu :: "u32 \<Rightarrow> arrival list \<Rightarrow> arrival list" where
  "on_cpu c xs = filter (\<lambda>a. cpu_id (fst a) = c) xs"

definition cpu_events :: "u32 \<Rightarrow> host \<Rightarrow> es_event list" where
  "cpu_events c h = filter (\<lambda>e. e_cpu e = c) (ring h)"

definition cpu_observer :: "u32 \<Rightarrow> host \<Rightarrow> observer" where
  "cpu_observer c h = (view c h)\<lparr>events := cpu_events c h\<rparr>"

lemma view_write_back [simp]: "view c (write_back c st h) = st"
  by (rule observer.equality) (auto simp: view_def write_back_def split: option.split)

lemma write_back_simps [simp]:
  "ring (write_back c st h) = events st"
  "cpu_counters (write_back c st h) = (cpu_counters h)(c := counters st)"
  by (simp_all add: write_back_def)

lemma view_simps [simp]:
  "counters (view c h) = cpu_counters h c" "events (view c h) = ring h"
  "flows (view c h) k = map_option (\<lambda>f. f c) (flow_map h k)"
  by (simp_all add: view_def)

lemma on_cpu_snoc [simp]:
  "on_cpu c (ys @ [a]) = on_cpu c ys @ (if cpu_id (fst a) = c then [a] else [])"
  by (simp add: on_cpu_def)

lemma host_step_eq: "host_step cfg (env, skb, dir) h =
    map_option (\<lambda>(verdict, st'). write_back (cpu_id env) st' h)
      (es_observe env cfg skb dir (view (cpu_id env) h))"
  by (cases dir) (simp_all add: es_ingress_def es_egress_def Let_def)

section \<open>The program does not read the ring\<close>

text \<open>Each stage commutes with replacing the events submitted so far.\<close>

lemma bump_frame: "bump d c n (st\<lparr>events := xs\<rparr>) = (bump d c n st)\<lparr>events := xs\<rparr>"
  by (simp add: bump_def)

lemma es_count_status_frame:
  "es_count_status dir status (st\<lparr>events := xs\<rparr>) = (es_count_status dir status st)\<lparr>events := xs\<rparr>"
  by (simp add: es_count_status_def bump_frame)

lemma es_count_flow_frame: "es_count_flow env skb dir t now (st\<lparr>events := xs\<rparr>) =
    (es_count_flow env skb dir t now st)\<lparr>events := xs\<rparr>"
  by (simp add: es_count_flow_def Let_def bump_def split: option.split)

lemma accounted_frame: "accounted env cfg skb dir status t (st\<lparr>events := xs\<rparr>) =
    (accounted env cfg skb dir status t st)\<lparr>events := xs\<rparr>"
  by (simp add: accounted_def Let_def bump_frame es_count_status_frame es_count_flow_frame)

lemma es_snapshot_frame: "es_snapshot env cfg skb dir (e, st\<lparr>events := xs\<rparr>) =
    map_prod id (\<lambda>st. st\<lparr>events := xs\<rparr>) (es_snapshot env cfg skb dir (e, st))"
  by (simp add: es_snapshot_def Let_def bump_frame split: option.split)

lemma published_event_cpu:
  "e_cpu (fst (es_snapshot env cfg skb dir (es_new_event env skb dir seq status t, st))) = cpu_id env"
  by (auto simp: es_snapshot_def Let_def es_new_event_def split: option.split)

lemma es_publish_frame:
  obtains es where "\<forall>xs. es_publish env cfg skb dir seq status t (st\<lparr>events := xs\<rparr>) =
      (ES_TC_NEXT, (snd (es_publish env cfg skb dir seq status t st))\<lparr>events := xs @ es\<rparr>)"
    and "\<forall>e \<in> set es. e_cpu e = cpu_id env"
proof (cases "ring_has_room env")
  case True
  let ?r = "es_snapshot env cfg skb dir (es_new_event env skb dir seq status t, st)"
  show ?thesis
    by (rule that [of "[fst ?r]"])
      (simp_all add: True es_publish_def es_snapshot_frame case_prod_beta bump_def published_event_cpu)
next
  case False
  then show ?thesis
    using that [of "[]"] by (simp add: es_publish_def bump_frame)
qed

text \<open>So a run adds events that do not depend on those already there, all of its own CPU.\<close>

lemma es_observe_frame:
  assumes "env_ok env" and "es_observe env cfg skb dir st = Some (v, st')"
  obtains es where "events st' = events st @ es" and "\<forall>e \<in> set es. e_cpu e = cpu_id env"
    and "\<And>xs. es_observe env cfg skb dir (st\<lparr>events := xs\<rparr>) = Some (v, st'\<lparr>events := xs @ es\<rparr>)"
proof (cases "counters_found env dir")
  case False
  then show ?thesis
    using assms(2) that [of "[]"] by (simp add: es_observe_unfound)
next
  case True
  obtain status t where c: "es_classify env cfg skb = Some (status, t)"
    using assms(1) by (rule es_classify_returns)
  let ?st4 = "bump dir ES_C_SELECTED 1 (accounted env cfg skb dir status t st)"
  note eq = es_observe_eq [OF c True]
  obtain es where pub: "\<forall>xs. es_publish env cfg skb dir (counters st dir ES_C_PACKETS + 1) status t
        (?st4\<lparr>events := xs\<rparr>) =
      (ES_TC_NEXT, (snd (es_publish env cfg skb dir (counters st dir ES_C_PACKETS + 1) status t ?st4))
        \<lparr>events := xs @ es\<rparr>)" and cpu: "\<forall>e \<in> set es. e_cpu e = cpu_id env"
    by (rule es_publish_frame [of env cfg skb dir "counters st dir ES_C_PACKETS + 1" status t ?st4])
  have own: "?st4\<lparr>events := events st\<rparr> = ?st4"
    by simp
  consider "filtered cfg status t \<or> \<not> sampled cfg (counters st dir ES_C_SELECTED + 1)"
    | "\<not> filtered cfg status t" "sampled cfg (counters st dir ES_C_SELECTED + 1)"
    by blast
  then show ?thesis
  proof cases
    case 1
    then show ?thesis
      using assms(2) by (intro that [of "[]"]) (auto simp: eq Let_def accounted_frame bump_frame split: if_splits)
  next
    case 2
    then have "es_observe env cfg skb dir (st\<lparr>events := xs\<rparr>) =
        (let r = es_publish env cfg skb dir (counters st dir ES_C_PACKETS + 1) status t ?st4
         in Some (ES_TC_NEXT, (snd r)\<lparr>events := xs @ es\<rparr>))" for xs
      by (simp add: eq Let_def accounted_frame bump_frame pub)
    moreover have st': "v = ES_TC_NEXT"
        "st' = snd (es_publish env cfg skb dir (counters st dir ES_C_PACKETS + 1) status t ?st4)"
      using assms(2) 2 by (simp_all add: eq Let_def prod_eq_iff)
    moreover have "st' = st'\<lparr>events := events st @ es\<rparr>"
      using arg_cong [OF pub [rule_format, of "events st", unfolded own], of snd] by (simp add: st'(2))
    then have "events st' = events st @ es"
      by (rule ssubst) simp
    ultimately show ?thesis
      using cpu by (intro that [of es]) (simp_all add: Let_def)
  qed
qed

section \<open>One packet\<close>

text \<open>
  On the CPU of the packet it is one run of the observer; the other CPUs keep their counters
  and their events.
\<close>

lemma host_step_view:
  assumes "host_step cfg (env, skb, dir) h = Some h'"
  obtains v st' where "es_observe env cfg skb dir (view (cpu_id env) h) = Some (v, st')"
    and "h' = write_back (cpu_id env) st' h"
  using assms that by (auto simp: host_step_eq simp del: host_step.simps)

lemma host_step_cpu:
  assumes "env_ok env" and "host_step cfg (env, skb, dir) h = Some h'"
  obtains v where
    "es_observe env cfg skb dir (cpu_observer (cpu_id env) h) = Some (v, cpu_observer (cpu_id env) h')"
    and "\<And>c. c \<noteq> cpu_id env \<Longrightarrow> cpu_counters h' c = cpu_counters h c \<and> cpu_events c h' = cpu_events c h"
proof -
  let ?c = "cpu_id env"
  obtain v st' where obs: "es_observe env cfg skb dir (view ?c h) = Some (v, st')" and h': "h' = write_back ?c st' h"
    using assms(2) by (rule host_step_view)
  obtain es where es: "events st' = ring h @ es" "\<forall>e \<in> set es. e_cpu e = ?c"
    and frame: "\<And>xs. es_observe env cfg skb dir ((view ?c h)\<lparr>events := xs\<rparr>) = Some (v, st'\<lparr>events := xs @ es\<rparr>)"
    using assms(1) obs by (rule es_observe_frame) simp
  have all: "filter (\<lambda>e. e_cpu e = ?c) es = es"
    using es(2) by (simp add: filter_id_conv)
  have "es_observe env cfg skb dir (cpu_observer ?c h) = Some (v, cpu_observer ?c h')"
    unfolding cpu_observer_def frame by (simp add: h' cpu_events_def es(1) all)
  moreover have "filter (\<lambda>e. e_cpu e = c) es = []" if "c \<noteq> ?c" for c
    using es(2) that by (auto simp: filter_empty_conv)
  ultimately show ?thesis
    by (intro that) (simp_all add: h' cpu_events_def es(1))
qed

lemma host_step_returns:
  assumes "env_ok env"
  obtains h' where "host_step cfg (env, skb, dir) h = Some h'"
  by (rule es_observe_result [OF assms, of cfg skb dir "view (cpu_id env) h"])
    (use that in \<open>simp add: host_step_eq del: host_step.simps\<close>)

section \<open>Runs\<close>

lemma host_run_returns: "kernels_ok xs \<Longrightarrow> \<exists>h'. host_run cfg xs h = Some h'"
proof (induction xs arbitrary: h)
  case Nil
  then show ?case by simp
next
  case (Cons a xs)
  obtain env skb dir where a: "a = (env, skb, dir)" by (cases a)
  then have "env_ok env" using Cons.prems by simp
  then obtain h1 where "host_step cfg a h = Some h1"
    unfolding a by (rule host_step_returns [where cfg = cfg and skb = skb and dir = dir and h = h])
  then show ?case using Cons by simp
qed

lemma host_run_induct:
  assumes step: "\<And>ys env skb dir h h'. I ys h \<Longrightarrow> E env \<Longrightarrow> length ys + 1 < 2 ^ 64 \<Longrightarrow>
      host_step cfg (env, skb, dir) h = Some h' \<Longrightarrow> I (ys @ [(env, skb, dir)]) h'"
    and "\<forall>a \<in> set xs. E (fst a)" and "host_run cfg xs h = Some h'" and "I ys h"
    and "length (ys @ xs) < 2 ^ 64"
  shows "I (ys @ xs) h'"
  using assms(2-5)
proof (induction xs arbitrary: ys h)
  case Nil
  then show ?case by simp
next
  case (Cons a xs)
  obtain env skb dir where a: "a = (env, skb, dir)" by (cases a)
  obtain h1 where one: "host_step cfg a h = Some h1" and rest: "host_run cfg xs h1 = Some h'"
    using Cons.prems(2) by (auto simp: bind_eq_Some_conv)
  have "I (ys @ [a]) h1"
    using step [of ys h env skb dir h1] Cons.prems one unfolding a by (simp del: host_step.simps)
  then show ?case
    using Cons.IH [OF _ rest, of "ys @ [a]"] Cons.prems by simp
qed

text \<open>Every CPU on its own is exact, whatever the others do.\<close>

definition cpu_exact :: "observer_config \<Rightarrow> arrival list \<Rightarrow> observer \<Rightarrow> bool" where
  "cpu_exact cfg xs st \<longleftrightarrow> traffic_counted cfg xs st \<and> sampling_exact cfg xs st \<and> events_ordered st"

lemma cpu_exact_cong:
  assumes "counters st = counters st'" and "events st = events st'"
  shows "cpu_exact cfg xs st \<longleftrightarrow> cpu_exact cfg xs st'"
  by (simp add: cpu_exact_def traffic_counted_def sampling_exact_def events_ordered_def events_of_def assms)

lemma cpu_exact_step:
  assumes "cpu_exact cfg ys st" and "env_ok env" and "length ys + 1 < 2 ^ 64"
    and "es_observe env cfg skb dir st = Some (v, st')"
  shows "cpu_exact cfg (ys @ [(env, skb, dir)]) st'"
  using assms traffic_counted_step [OF _ assms(2,4)] sampling_exact_step [OF _ _ assms(2,3,4)]
    events_ordered_step [OF _ _ assms(2,3,4)]
  by (simp add: cpu_exact_def)

lemma length_on_cpu: "length (on_cpu c xs) \<le> length xs"
  by (simp add: on_cpu_def)

lemma host_run_exact:
  assumes "kernels_ok xs" and "length xs < 2 ^ 64" and "host_run cfg xs host_start = Some h"
  shows "cpu_exact cfg (on_cpu c xs) (cpu_observer c h)"
proof -
  let ?I = "\<lambda>ys h. \<forall>c. cpu_exact cfg (on_cpu c ys) (cpu_observer c h)"
  have "?I ([] @ xs) h"
    using _ assms(1,3)
  proof (rule host_run_induct [where I = ?I and E = env_ok])
    fix ys env skb dir h h'
    assume I: "?I ys h" and env: "env_ok env" and len: "length ys + 1 < 2 ^ 64"
      and step: "host_step cfg (env, skb, dir) h = Some h'"
    obtain v where obs: "es_observe env cfg skb dir (cpu_observer (cpu_id env) h) =
        Some (v, cpu_observer (cpu_id env) h')"
      and other: "\<And>c. c \<noteq> cpu_id env \<Longrightarrow> cpu_counters h' c = cpu_counters h c \<and> cpu_events c h' = cpu_events c h"
      using env step by (rule host_step_cpu) blast
    have "cpu_exact cfg (on_cpu c (ys @ [(env, skb, dir)])) (cpu_observer c h')" for c
    proof (cases "c = cpu_id env")
      case True
      have "length (on_cpu c ys) + 1 < 2 ^ 64"
        using len length_on_cpu [of c ys] by linarith
      then show ?thesis
        using cpu_exact_step [OF I [rule_format] env _ obs] True by simp
    next
      case False
      then show ?thesis
        using I other [OF False] cpu_exact_cong [of "cpu_observer c h'" "cpu_observer c h"]
        by (simp add: cpu_observer_def)
    qed
    then show "?I (ys @ [(env, skb, dir)]) h'" by blast
  next
    show "?I [] host_start"
      by (simp add: cpu_exact_def traffic_counted_def sampling_exact_def events_ordered_def seen_def chosen_in_def
          bytes_in_def events_of_def on_cpu_def cpu_observer_def cpu_events_def host_start_def)
    show "length ([] @ xs) < 2 ^ 64" using assms(2) by simp
  qed
  then show ?thesis by simp
qed

section \<open>The flow table of all CPUs\<close>

definition flow_entry :: "arrival list \<Rightarrow> es_flow_value" where
  "flow_entry zs = (if zs = [] then flow_zero else flow_view zs)"

lemma flow_update_entry:
  "length zs < 2 ^ 64 \<Longrightarrow>
   flow_update (ktime env) (skb_len skb) (flow_entry zs) = flow_entry (zs @ [(env, skb, dir)])"
  using flow_update_view [of zs env skb dir] flow_update_zero [of env skb dir] by (simp add: flow_entry_def)

text \<open>An entry describes, for each CPU, that CPU's packets of the flow since one common point.\<close>

definition host_flows :: "observer_config \<Rightarrow> arrival list \<Rightarrow> host \<Rightarrow> bool" where
  "host_flows cfg xs h \<longleftrightarrow> (\<forall>k g. flow_map h k = Some g \<longrightarrow>
     (\<exists>ys zs. xs = ys @ zs \<and> flow_hits cfg k zs \<noteq> [] \<and>
        (\<forall>c. g c = flow_entry (flow_hits cfg k (on_cpu c zs)))))"

lemma flow_map_write_back:
  assumes "flow_map (write_back c st h) k = Some g"
  obtains f where "flows st k = Some f"
    and "g = (case flow_map h k of None \<Rightarrow> \<lambda>_. flow_zero | Some g0 \<Rightarrow> g0)(c := f)"
  using assms that by (auto simp: write_back_def split: option.splits)

lemma flow_map_kept:
  assumes "flow_map (write_back c st h) k = Some g"
    and "\<And>f. flows st k = Some f \<Longrightarrow> flows (view c h) k = Some f"
  shows "flow_map h k = Some g"
  using assms(1) by (rule flow_map_write_back) (use assms(2) in auto)

lemma flow_hits_on_cpu: "length (flow_hits cfg k (on_cpu c zs)) \<le> length zs"
  using length_flow_hits [of cfg k "on_cpu c zs"] length_on_cpu [of c zs] by linarith

lemma flow_hits_on_cpu_snoc:
  "flow_hits cfg k (on_cpu c (zs @ [(env, skb, dir)])) = flow_hits cfg k (on_cpu c zs) @
    (if cpu_id env = c \<and> flow_of cfg (env, skb, dir) = Some k then [(env, skb, dir)] else [])"
  by (simp add: flow_hits_snoc del: flow_of.simps)

text \<open>The entry of the packet's own flow after the packet.\<close>

lemma host_entry_own:
  assumes touch: "flows st' k = Some f" "flows st' = flow_touch env skb k (flows (view (cpu_id env) h))"
    and "flow_insert_ok env" and inv: "host_flows cfg xs h" and len: "length xs < 2 ^ 64"
    and k: "flow_of cfg (env, skb, dir) = Some k"
  defines "g \<equiv> (case flow_map h k of None \<Rightarrow> \<lambda>_. flow_zero | Some g0 \<Rightarrow> g0)(cpu_id env := f)"
    and "a \<equiv> (env, skb, dir)"
  shows "\<exists>ys zs. xs @ [a] = ys @ zs \<and> flow_hits cfg k zs \<noteq> [] \<and>
    (\<forall>c. g c = flow_entry (flow_hits cfg k (on_cpu c zs)))"
proof -
  let ?c = "cpu_id env"
  have f: "f = flow_update (ktime env) (skb_len skb)
      (case flows (view ?c h) k of None \<Rightarrow> flow_zero | Some f0 \<Rightarrow> f0)"
    using flow_touch_same [OF assms(3) touch(1) [unfolded touch(2)]] .
  have hit: "flow_hits cfg k (zs @ [a]) \<noteq> []" for zs
    by (simp add: a_def flow_hits_snoc k del: flow_of.simps)
  have ext: "(case flow_map h k of None \<Rightarrow> \<lambda>_. flow_zero | Some g0 \<Rightarrow> g0) =
      (\<lambda>c. flow_entry (flow_hits cfg k (on_cpu c zs))) \<Longrightarrow> length zs < 2 ^ 64 \<Longrightarrow>
      g c = flow_entry (flow_hits cfg k (on_cpu c (zs @ [a])))" for zs c
    using f flow_update_entry [of "flow_hits cfg k (on_cpu ?c zs)" env skb dir] flow_hits_on_cpu [of cfg k ?c zs]
    by (cases "flow_map h k") (auto simp: g_def a_def flow_hits_on_cpu_snoc k fun_eq_iff
        simp del: flow_of.simps on_cpu_snoc)
  show ?thesis
  proof (cases "flow_map h k")
    case None
    then have "\<forall>c. g c = flow_entry (flow_hits cfg k (on_cpu c ([] @ [a])))"
      using ext [of "[]"] by (simp add: flow_entry_def flow_hits_def on_cpu_def)
    then show ?thesis
      using hit [of "[]"] by (intro exI [of _ xs] exI [of _ "[a]"]) simp
  next
    case (Some g0)
    then obtain ys zs where xs: "xs = ys @ zs"
      and g0: "\<forall>c. g0 c = flow_entry (flow_hits cfg k (on_cpu c zs))"
      using inv unfolding host_flows_def by blast
    have "\<forall>c. g c = flow_entry (flow_hits cfg k (on_cpu c (zs @ [a])))"
      using ext [of zs] g0 Some len xs by (simp add: fun_eq_iff)
    then show ?thesis
      using hit [of zs] xs by (intro exI [of _ ys] exI [of _ "zs @ [a]"]) simp
  qed
qed

lemma host_flows_step:
  assumes inv: "host_flows cfg xs h" and "env_ok env" and ins: "flow_insert_ok env"
    and len: "length xs < 2 ^ 64" and step: "host_step cfg (env, skb, dir) h = Some h'"
  shows "host_flows cfg (xs @ [(env, skb, dir)]) h'"
proof -
  let ?c = "cpu_id env"
  obtain v st' where obs: "es_observe env cfg skb dir (view ?c h) = Some (v, st')" and h': "h' = write_back ?c st' h"
    using step by (rule host_step_view)
  note fl = flows_step [OF assms(2) obs]
  have kept: "\<exists>ys zs. xs @ [(env, skb, dir)] = ys @ zs \<and> flow_hits cfg k zs \<noteq> [] \<and>
      (\<forall>c. g c = flow_entry (flow_hits cfg k (on_cpu c zs)))"
    if "flow_map h k = Some g" and k: "flow_of cfg (env, skb, dir) \<noteq> Some k" for k g
  proof -
    obtain ys zs where "xs = ys @ zs" and "flow_hits cfg k zs \<noteq> []"
      and "\<forall>c. g c = flow_entry (flow_hits cfg k (on_cpu c zs))"
      using inv \<open>flow_map h k = Some g\<close> unfolding host_flows_def by blast
    then show ?thesis
      using k by (intro exI [of _ ys] exI [of _ "zs @ [(env, skb, dir)]"])
        (simp add: flow_hits_snoc flow_hits_on_cpu_snoc del: flow_of.simps on_cpu_snoc)
  qed
  show ?thesis
    unfolding host_flows_def
  proof (intro allI impI)
    fix k g
    assume g: "flow_map h' k = Some g"
    show "\<exists>ys zs. xs @ [(env, skb, dir)] = ys @ zs \<and> flow_hits cfg k zs \<noteq> [] \<and>
        (\<forall>c. g c = flow_entry (flow_hits cfg k (on_cpu c zs)))"
    proof (cases "flow_of cfg (env, skb, dir) = Some k")
      case True
      then have touch: "flows st' = flow_touch env skb k (flows (view ?c h))"
        using fl by simp
      obtain f where f: "flows st' k = Some f"
        and "g = (case flow_map h k of None \<Rightarrow> \<lambda>_. flow_zero | Some g0 \<Rightarrow> g0)(?c := f)"
        using g unfolding h' by (rule flow_map_write_back)
      then show ?thesis
        using host_entry_own [OF f touch ins inv len True] by simp
    next
      case False
      have "flows (view ?c h) k = Some f" if "flows st' k = Some f" for f
        using that fl False
        by (cases "flow_of cfg (env, skb, dir)")
          (auto intro: flow_touch_other [OF ins] simp del: flow_of.simps view_simps)
      then have "flow_map h k = Some g"
        using flow_map_kept [OF g [unfolded h']] by blast
      then show ?thesis using False by (rule kept)
    qed
  qed
qed

text \<open>With a table that keeps every entry, every flow that was seen has its whole entry.\<close>

definition host_flows_complete :: "observer_config \<Rightarrow> arrival list \<Rightarrow> host \<Rightarrow> bool" where
  "host_flows_complete cfg xs h \<longleftrightarrow> (\<forall>k. flow_map h k =
     (if flow_hits cfg k xs = [] then None else Some (\<lambda>c. flow_entry (flow_hits cfg k (on_cpu c xs)))))"

lemma on_cpu_no_hits: "flow_hits cfg k xs = [] \<Longrightarrow> flow_hits cfg k (on_cpu c xs) = []"
  by (simp add: flow_hits_def on_cpu_def filter_empty_conv)

lemma host_flows_complete_step:
  assumes inv: "host_flows_complete cfg xs h" and "env_ok env" and keep: "keeps_flows env"
    and len: "length xs < 2 ^ 64" and step: "host_step cfg (env, skb, dir) h = Some h'"
  shows "host_flows_complete cfg (xs @ [(env, skb, dir)]) h'"
proof -
  let ?c = "cpu_id env"
  obtain v st' where obs: "es_observe env cfg skb dir (view ?c h) = Some (v, st')" and h': "h' = write_back ?c st' h"
    using step by (rule host_step_view)
  note fl = flows_step [OF assms(2) obs]
  show ?thesis
    unfolding host_flows_complete_def
  proof
    fix k
    let ?entries = "\<lambda>c. flow_entry (flow_hits cfg k (on_cpu c xs))"
    have h: "flow_map h k = (if flow_hits cfg k xs = [] then None else Some ?entries)"
      using inv by (simp add: host_flows_complete_def)
    have old: "(case flow_map h k of None \<Rightarrow> \<lambda>_. flow_zero | Some g0 \<Rightarrow> g0) = ?entries"
      using on_cpu_no_hits by (auto simp: h flow_entry_def fun_eq_iff)
    have seen: "(case flows (view ?c h) k of None \<Rightarrow> flow_zero | Some f0 \<Rightarrow> f0) = ?entries ?c"
      using on_cpu_no_hits [of cfg k xs ?c] by (simp add: h flow_entry_def)
    show "flow_map h' k = (if flow_hits cfg k (xs @ [(env, skb, dir)]) = [] then None
        else Some (\<lambda>c. flow_entry (flow_hits cfg k (on_cpu c (xs @ [(env, skb, dir)])))))"
    proof (cases "flow_of cfg (env, skb, dir) = Some k")
      case True
      have "flows st' k = Some (flow_update (ktime env) (skb_len skb) (?entries ?c))"
        using fl True seen by (simp add: flow_touch_keeps [OF keep] del: flow_of.simps view_simps)
      moreover have "flow_update (ktime env) (skb_len skb) (?entries ?c) =
          flow_entry (flow_hits cfg k (on_cpu ?c xs) @ [(env, skb, dir)])"
        using flow_hits_on_cpu [of cfg k ?c xs] len by (intro flow_update_entry) linarith
      ultimately have "flow_map h' k =
          Some (?entries(?c := flow_entry (flow_hits cfg k (on_cpu ?c xs) @ [(env, skb, dir)])))"
        unfolding h' by (simp add: write_back_def old)
      then show ?thesis
        using True by (auto simp: flow_hits_snoc flow_hits_on_cpu_snoc fun_eq_iff simp del: flow_of.simps on_cpu_snoc)
    next
      case False
      then have "flows st' k = flows (view ?c h) k"
        using fl by (cases "flow_of cfg (env, skb, dir)")
          (auto simp: flow_touch_keeps [OF keep] simp del: flow_of.simps view_simps)
      then have "flow_map h' k = flow_map h k"
        unfolding h' by (simp add: write_back_def split: option.split)
      then show ?thesis
        using False by (simp add: h flow_hits_snoc flow_hits_on_cpu_snoc del: flow_of.simps on_cpu_snoc)
    qed
  qed
qed

section \<open>The ring of all CPUs\<close>

lemma length_by_key:
  fixes key :: "'a \<Rightarrow> 'b :: finite"
  shows "length xs = (\<Sum>c\<in>UNIV. length (filter (\<lambda>x. key x = c) xs))"
proof (induction xs)
  case Nil
  then show ?case by simp
next
  case (Cons x xs)
  have "(\<Sum>c\<in>UNIV. length (filter (\<lambda>y. key y = c) (x # xs))) =
      (\<Sum>c\<in>UNIV. (if key x = c then 1 else 0) + length (filter (\<lambda>y. key y = c) xs))"
    by (intro sum.cong) simp_all
  then show ?case
    using Cons.IH by (simp add: sum.distrib)
qed

lemma length_ring: "length (ring h) = (\<Sum>c\<in>UNIV. length (events (cpu_observer c h)))"
  unfolding cpu_observer_def cpu_events_def using length_by_key [of "ring h" e_cpu] by simp

lemma host_run_events_valid:
  assumes "kernels_ok xs" and "\<forall>a \<in> set xs. skb_ifindex (fst (snd a)) = i" and "i \<noteq> 0"
    and "length xs < 2 ^ 64" and "host_run cfg xs host_start = Some h"
  shows "\<forall>e \<in> set (ring h). event_valid e \<and> e_ifindex e = i"
proof -
  let ?I = "\<lambda>(ys :: arrival list) h. (\<forall>a \<in> set ys. skb_ifindex (fst (snd a)) = i) \<longrightarrow>
    (\<forall>e \<in> set (ring h). event_valid e \<and> e_ifindex e = i)"
  have "?I ([] @ xs) h"
  proof (rule host_run_induct [where I = ?I and E = env_ok, OF _ assms(1,5)])
    fix ys env skb dir h h1
    assume I: "?I ys h" and env: "env_ok env" and step: "host_step cfg (env, skb, dir) h = Some h1"
    obtain v st' where "es_observe env cfg skb dir (view (cpu_id env) h) = Some (v, st')"
      and "h1 = write_back (cpu_id env) st' h"
      using step by (rule host_step_view)
    then show "?I (ys @ [(env, skb, dir)]) h1"
      by - (rule es_observe_result [OF env, of cfg skb dir "view (cpu_id env) h"], use I assms(3) in auto)
  qed (use assms(4) in \<open>simp_all add: host_start_def\<close>)
  then show ?thesis using assms(2) by simp
qed

text \<open>With room in the ring for every event, no CPU counts a lost one.\<close>

lemma host_run_none_lost:
  assumes "kernels_ok xs" and "\<forall>a \<in> set xs. ring_has_room (fst a)" and "length xs < 2 ^ 64"
    and "host_run cfg xs host_start = Some h"
  shows "cpu_counters h c dir ES_C_RING_LOST = 0"
proof -
  let ?I = "\<lambda>(ys :: arrival list) h. \<forall>c dir. cpu_counters h c dir ES_C_RING_LOST = 0"
  have both: "\<forall>a \<in> set xs. env_ok (fst a) \<and> ring_has_room (fst a)"
    using assms(1,2) by blast
  have "?I ([] @ xs) h"
  proof (rule host_run_induct [where I = ?I and E = "\<lambda>env. env_ok env \<and> ring_has_room env"
        and ys = "[]", OF _ both assms(4)])
    fix ys env skb dir h h1
    assume I: "?I ys h" and env: "env_ok env \<and> ring_has_room env"
      and step: "host_step cfg (env, skb, dir) h = Some h1"
    obtain v st' where obs: "es_observe env cfg skb dir (view (cpu_id env) h) = Some (v, st')"
      and h1: "h1 = write_back (cpu_id env) st' h"
      using step by (rule host_step_view)
    have "counters st' d ES_C_RING_LOST = 0" for d
    proof (cases "counters_found env dir")
      case True
      then show ?thesis
        using observe_step(1) [OF _ True obs refl, of ES_C_RING_LOST d] env I by (simp add: main_counters_def)
    next
      case False
      then show ?thesis using obs I by (auto simp: es_observe_unfound)
    qed
    then show "?I (ys @ [(env, skb, dir)]) h1"
      using I by (simp add: h1)
  qed (use assms(3) in \<open>simp_all add: host_start_def\<close>)
  then show ?thesis by simp
qed

section \<open>Properties\<close>

text \<open>
  C9: The observer runs over any sequence of packets on any CPUs, and its counters mean what
  they say. For fewer than 2^64 packets, on each CPU and in each direction: PACKETS is the
  number of packets that reached the program there and BYTES their total length modulo 2^64,
  SELECTED the number that passed the telemetry selection, and EVENTS the number of events
  of that CPU and direction in the ring buffer that all CPUs share.
\<close>

theorem host_run_counts:
  assumes "kernels_ok xs" and "length xs < 2 ^ 64"
  shows "\<exists>h. host_run cfg xs host_start = Some h \<and> (\<forall>c dir.
    unat (cpu_counters h c dir ES_C_PACKETS) = length (seen dir (on_cpu c xs)) \<and>
    cpu_counters h c dir ES_C_BYTES = bytes_in dir (on_cpu c xs) \<and>
    unat (cpu_counters h c dir ES_C_SELECTED) = length (chosen_in cfg dir (on_cpu c xs)) \<and>
    cpu_counters h c dir ES_C_EVENTS =
      word_of_nat (length (filter (\<lambda>e. e_cpu e = c \<and> e_direction e = direction_code dir) (ring h))))"
proof -
  obtain h where run: "host_run cfg xs host_start = Some h"
    using host_run_returns [OF assms(1)] by blast
  have "length (seen dir (on_cpu c xs)) < 2 ^ 64 \<and> length (chosen_in cfg dir (on_cpu c xs)) < 2 ^ 64" for c dir
    using assms(2) length_on_cpu [of c xs] length_seen [of dir "on_cpu c xs"]
      length_chosen_in [of cfg dir "on_cpu c xs"] by linarith
  then have "unat (cpu_counters h c dir ES_C_PACKETS) = length (seen dir (on_cpu c xs)) \<and>
      cpu_counters h c dir ES_C_BYTES = bytes_in dir (on_cpu c xs) \<and>
      unat (cpu_counters h c dir ES_C_SELECTED) = length (chosen_in cfg dir (on_cpu c xs)) \<and>
      cpu_counters h c dir ES_C_EVENTS = word_of_nat (length (events_of dir (cpu_observer c h)))" for c dir
    using host_run_exact [OF assms run, of c]
    by (simp add: cpu_exact_def traffic_counted_def cpu_observer_def unat_of_nat_u64)
  then show ?thesis
    using run by (simp add: events_of_def cpu_observer_def cpu_events_def conj_commute)
qed

text \<open>
  C10: Exact sampling. After any run of fewer than 2^64 packets, on each CPU and in each
  direction, the events published plus those the ring buffer had no room for (RING_LOST) are
  exactly the number of packets selected there divided by \<open>sample_every\<close>, none with
  \<open>sample_every = 0\<close>; and the sequence numbers of these events increase, none above the
  packet counter, so a gap tells the reader how many packets passed between two events.
\<close>

theorem host_run_samples_one_in_n:
  assumes "kernels_ok xs" and "length xs < 2 ^ 64" and "host_run cfg xs host_start = Some h"
  defines "es c dir \<equiv> filter (\<lambda>e. e_direction e = direction_code dir) (cpu_events c h)"
  shows "length (es c dir) + unat (cpu_counters h c dir ES_C_RING_LOST) =
      (if sample_every cfg = 0 then 0
       else length (chosen_in cfg dir (on_cpu c xs)) div unat (sample_every cfg)) \<and>
    sorted_wrt (<) (map e_sequence (es c dir)) \<and>
    (\<forall>e \<in> set (es c dir). e_sequence e \<le> cpu_counters h c dir ES_C_PACKETS)"
proof -
  have "events_of dir (cpu_observer c h) = es c dir" and "counters (cpu_observer c h) = cpu_counters h c"
    by (simp_all add: events_of_def cpu_observer_def es_def)
  moreover have "sampling_exact cfg (on_cpu c xs) (cpu_observer c h)" and "events_ordered (cpu_observer c h)"
    using host_run_exact [OF assms(1-3), of c] by (simp_all add: cpu_exact_def)
  ultimately show ?thesis
    unfolding sampling_exact_def events_ordered_def by (auto dest!: spec [of _ dir])
qed

text \<open>
  C11: An entry of the flow table tells the truth on every CPU at once. For any run of fewer
  than 2^64 packets on kernels that may refuse insertions and evict entries, an entry that is
  present goes back to one point of the run: each CPU's copy describes exactly the packets of
  the flow that this CPU handled since that point (the time of the first and of the last,
  their number and their bytes, or zeros if there are none), and at least one CPU has one.
  Packets of other flows, fragments and packets that did not parse are never mixed in.
\<close>

theorem host_run_flow_entries:
  assumes "kernels_ok xs" and "\<forall>a \<in> set xs. flow_insert_ok (fst a)" and "length xs < 2 ^ 64"
    and "host_run cfg xs host_start = Some h" and "flow_map h k = Some g"
  shows "\<exists>ys zs. xs = ys @ zs \<and> flow_hits cfg k zs \<noteq> [] \<and> (\<forall>c. g c =
    (if flow_hits cfg k (on_cpu c zs) = [] then flow_zero else flow_view (flow_hits cfg k (on_cpu c zs))))"
proof -
  have both: "\<forall>a \<in> set xs. env_ok (fst a) \<and> flow_insert_ok (fst a)"
    using assms(1,2) by blast
  have "host_flows cfg ([] @ xs) h"
  proof (rule host_run_induct [where I = "host_flows cfg" and E = "\<lambda>env. env_ok env \<and> flow_insert_ok env",
        OF _ both assms(4)])
    show "host_flows cfg [] host_start"
      by (simp add: host_flows_def host_start_def)
  qed (use host_flows_step assms(3) in auto)
  then show ?thesis
    using assms(5) by (simp add: host_flows_def flow_entry_def)
qed

text \<open>
  Four UDP packets, the first three on CPU 0 and the last on CPU 1: each CPU samples its own,
  so one is published, and the entry of the flow has a copy for both.
\<close>

definition two_cpu_arrivals :: "arrival list" where
  "two_cpu_arrivals = udp_arrivals @ [((frame_env udp_frame 8 True)\<lparr>cpu_id := 1\<rparr>, udp_skb, ES_INGRESS)]"

lemma other_cpu [simp]:
  "env_ok (env\<lparr>cpu_id := c\<rparr>) = env_ok env" "flow_insert_ok (env\<lparr>cpu_id := c\<rparr>) = flow_insert_ok env"
  "keeps_flows (env\<lparr>cpu_id := c\<rparr>) = keeps_flows env"
  by (simp_all add: env_ok_def flow_insert_ok_def keeps_flows_def)

lemma frame_env_simps [simp]:
  "keeps_flows (frame_env frame now room)" "ring_has_room (frame_env frame now room) = room"
  by (simp_all add: keeps_flows_def frame_env_def)

lemma two_cpu_ok: "kernels_ok two_cpu_arrivals" "length two_cpu_arrivals < 2 ^ 64"
    "\<forall>a \<in> set two_cpu_arrivals. flow_insert_ok (fst a)" "\<forall>a \<in> set two_cpu_arrivals. keeps_flows (fst a)"
    "\<forall>a \<in> set two_cpu_arrivals. ring_has_room (fst a)"
  by (simp_all add: two_cpu_arrivals_def udp_arrivals_def)

lemma es_classify_cpu: "es_classify (env\<lparr>cpu_id := c\<rparr>) cfg skb = es_classify env cfg skb"
  by (simp add: es_classify_def Let_def)

lemma two_cpu_chosen:
  "length (chosen_in udp_config ES_INGRESS (on_cpu 0 two_cpu_arrivals)) = 3"
  "length (chosen_in udp_config ES_INGRESS (on_cpu 1 two_cpu_arrivals)) = 1"
  by (simp_all add: two_cpu_arrivals_def udp_arrivals_def chosen_in_def seen_def on_cpu_def es_classify_cpu
      udp_classify) (simp_all add: frame_env_def filtered_def udp_config_def udp_tuple_def)

lemma two_cpu_flow: "\<forall>a \<in> set two_cpu_arrivals. flow_of udp_config a = Some udp_key"
  by (simp add: two_cpu_arrivals_def udp_arrivals_def es_classify_cpu udp_classify udp_key_def)
    (simp add: udp_config_def udp_tuple_def frame_env_def flow_key_def flag_simps)

lemma two_cpu_hits:
  "flow_hits udp_config udp_key two_cpu_arrivals = two_cpu_arrivals"
  "flow_hits udp_config udp_key (on_cpu c two_cpu_arrivals) = on_cpu c two_cpu_arrivals"
  using two_cpu_flow by (auto simp: flow_hits_def on_cpu_def filter_id_conv intro!: filter_cong simp del: flow_of.simps)

lemma two_cpu_lengths: "two_cpu_arrivals \<noteq> []"
    "length (on_cpu 0 two_cpu_arrivals) = 3" "length (on_cpu 1 two_cpu_arrivals) = 1"
  by (simp_all add: on_cpu_def two_cpu_arrivals_def udp_arrivals_def frame_env_def)

lemma two_cpu_run:
  obtains h where "host_run udp_config two_cpu_arrivals host_start = Some h"
    and "\<And>c. cpu_counters h c ES_INGRESS ES_C_RING_LOST = 0"
    and "\<And>k. flow_map h k = (if flow_hits udp_config k two_cpu_arrivals = [] then None
      else Some (\<lambda>c. flow_entry (flow_hits udp_config k (on_cpu c two_cpu_arrivals))))"
proof -
  obtain h where run: "host_run udp_config two_cpu_arrivals host_start = Some h"
    using host_run_returns [OF two_cpu_ok(1)] by blast
  have both: "\<forall>a \<in> set two_cpu_arrivals. env_ok (fst a) \<and> keeps_flows (fst a)"
    using two_cpu_ok(1,4) by blast
  have "host_flows_complete udp_config ([] @ two_cpu_arrivals) h"
  proof (rule host_run_induct [where I = "host_flows_complete udp_config"
        and E = "\<lambda>env. env_ok env \<and> keeps_flows env", OF _ both run])
    show "host_flows_complete udp_config [] host_start"
      by (simp add: host_flows_complete_def host_start_def flow_hits_def)
  qed (use host_flows_complete_step two_cpu_ok(2) in auto)
  then show ?thesis
    using that run host_run_none_lost [OF two_cpu_ok(1,5,2) run] by (simp add: host_flows_complete_def)
qed

theorem host_run_counts_witness:
  "\<exists>h. host_run udp_config two_cpu_arrivals host_start = Some h \<and>
    unat (cpu_counters h 0 ES_INGRESS ES_C_SELECTED) = 3 \<and> unat (cpu_counters h 1 ES_INGRESS ES_C_SELECTED) = 1"
  using host_run_counts [OF two_cpu_ok(1,2), of udp_config] two_cpu_chosen by auto

theorem host_run_samples_one_in_n_witness:
  "\<exists>h. host_run udp_config two_cpu_arrivals host_start = Some h \<and>
    length (filter (\<lambda>e. e_direction e = direction_code ES_INGRESS) (cpu_events 0 h)) = 1 \<and>
    filter (\<lambda>e. e_direction e = direction_code ES_INGRESS) (cpu_events 1 h) = []"
proof (rule two_cpu_run)
  fix h
  assume run: "host_run udp_config two_cpu_arrivals host_start = Some h"
    and lost: "\<And>c. cpu_counters h c ES_INGRESS ES_C_RING_LOST = 0"
  note exact = host_run_samples_one_in_n [OF two_cpu_ok(1,2) run, where dir = ES_INGRESS]
  have "sample_every udp_config = 2"
    by (simp add: udp_config_def)
  then show ?thesis
    using exact [of 0] exact [of 1] run by (simp add: lost two_cpu_chosen)
qed

theorem host_run_flow_entries_witness:
  "\<exists>h g ys zs. host_run udp_config two_cpu_arrivals host_start = Some h \<and> flow_map h udp_key = Some g \<and>
    f_packets (g 0) = 3 \<and> f_packets (g 1) = 1 \<and> two_cpu_arrivals = ys @ zs \<and>
    flow_hits udp_config udp_key zs \<noteq> []"
proof (rule two_cpu_run)
  fix h
  let ?g = "\<lambda>c. flow_entry (flow_hits udp_config udp_key (on_cpu c two_cpu_arrivals))"
  assume run: "host_run udp_config two_cpu_arrivals host_start = Some h"
    and table: "\<And>k. flow_map h k = (if flow_hits udp_config k two_cpu_arrivals = [] then None
      else Some (\<lambda>c. flow_entry (flow_hits udp_config k (on_cpu c two_cpu_arrivals))))"
  have g: "flow_map h udp_key = Some ?g"
    using table [of udp_key] by (simp add: two_cpu_hits two_cpu_lengths)
  have "f_packets (?g 0) = 3" and "f_packets (?g 1) = 1"
    using two_cpu_lengths by (auto simp: two_cpu_hits flow_entry_def flow_view_def)
  then show ?thesis
    using host_run_flow_entries [OF two_cpu_ok(1,3,2) run g] run g by blast
qed

end
