(* ===== verification/Spsc_Queue.thy ===== *)
theory Spsc_Queue
  imports Shrew_Prelude
begin

text \<open>
  The bounded queue of \<open>inc/SpscQueue.hpp\<close>: a ring of \<open>capacity + 1\<close> slots with one
  sentinel, the producer's index \<open>head_\<close> and the consumer's index \<open>tail_\<close>, all
  \<open>std::size_t\<close> (64 bit) with C++'s wrap-around. The operations here are whole calls; their
  atomic steps and interleavings are in the theory of the interleaved queue. Allocation in
  the constructor is taken to succeed.

  The contract the callers use is the locale \<open>bounded_fifo\<close>: a queue behaves as a list of
  at most \<open>room\<close> items. It is interpreted on the code's operations at the end.
\<close>

section \<open>The contract of a bounded queue\<close>

datatype 'a queue_op = Push 'a | Pop

locale bounded_fifo =
  fixes push :: "'q \<Rightarrow> 'a \<Rightarrow> bool \<times> 'q"
    and pop :: "'q \<Rightarrow> 'a option \<times> 'q"
    and wf :: "'q \<Rightarrow> bool"
    and items :: "'q \<Rightarrow> 'a list"
    and room :: "'q \<Rightarrow> nat"
  assumes push_wf: "wf q \<Longrightarrow> wf (snd (push q v))"
    and push_room: "wf q \<Longrightarrow> room (snd (push q v)) = room q"
    and push_items: "wf q \<Longrightarrow> items (snd (push q v)) = (if fst (push q v) then items q @ [v] else items q)"
    and push_accepts: "wf q \<Longrightarrow> fst (push q v) \<longleftrightarrow> length (items q) < room q"
    and pop_wf: "wf q \<Longrightarrow> wf (snd (pop q))"
    and pop_room: "wf q \<Longrightarrow> room (snd (pop q)) = room q"
    and pop_items: "wf q \<Longrightarrow>
      (case items q of [] \<Rightarrow> pop q = (None, q) | x # xs \<Rightarrow> fst (pop q) = Some x \<and> items (snd (pop q)) = xs)"
    and items_room: "wf q \<Longrightarrow> length (items q) \<le> room q"
begin

text \<open>What a sequence of calls accepted, what it handed out, and the queue it leaves.\<close>

fun run_ops :: "'a queue_op list \<Rightarrow> 'q \<Rightarrow> 'a list \<times> 'a list \<times> 'q" where
  "run_ops [] q = ([], [], q)"
| "run_ops (Push v # ops) q =
     (case push q v of (b, q') \<Rightarrow> case run_ops ops q' of (ins, outs, q'') \<Rightarrow>
       (if b then v # ins else ins, outs, q''))"
| "run_ops (Pop # ops) q =
     (case pop q of (r, q') \<Rightarrow> case run_ops ops q' of (ins, outs, q'') \<Rightarrow>
       (ins, (case r of Some x \<Rightarrow> x # outs | None \<Rightarrow> outs), q''))"

lemma pop_Nil: "wf q \<Longrightarrow> items q = [] \<Longrightarrow> pop q = (None, q)"
  using pop_items [of q] by simp

lemma pop_Cons:
  assumes "wf q" and "items q = x # xs"
  shows "fst (pop q) = Some x" and "items (snd (pop q)) = xs"
  using pop_items [OF assms(1)] assms(2) by simp_all

lemma pop_None: "wf q \<Longrightarrow> fst (pop q) = None \<longleftrightarrow> items q = []"
  using pop_items [of q] by (cases "items q") auto

lemma run_ops_fifo:
  assumes "wf q" and "run_ops ops q = (ins, outs, q')"
  shows "items q @ ins = outs @ items q' \<and> wf q' \<and> room q' = room q"
  using assms
proof (induction ops q arbitrary: ins outs q' rule: run_ops.induct)
  case (1 q)
  then show ?case by simp
next
  case (2 v ops q)
  from 2(1) [of "fst (push q v)" "snd (push q v)"] 2(2,3) show ?case
    by (auto simp: push_wf push_room push_items split: prod.splits if_splits)
next
  case (3 ops q)
  obtain r q1 where pop: "pop q = (r, q1)" by (cases "pop q")
  obtain ins1 outs1 q2 where run: "run_ops ops q1 = (ins1, outs1, q2)" by (cases "run_ops ops q1")
  have "wf q1" and "room q1 = room q"
    using pop_wf [OF 3(2)] pop_room [OF 3(2)] by (simp_all add: pop)
  then have IH: "items q1 @ ins1 = outs1 @ items q2 \<and> wf q2 \<and> room q2 = room q"
    using 3(1) [OF pop [symmetric] _ run] by simp
  have "items q = (case r of Some x \<Rightarrow> x # items q1 | None \<Rightarrow> items q1)"
    using pop_items [OF 3(2)] by (cases "items q") (simp_all add: pop)
  then show ?case
    using 3(3) IH by (auto simp: pop run split: option.splits)
qed

end

section \<open>Ring indices\<close>

definition nxt :: "nat \<Rightarrow> nat \<Rightarrow> nat" where
  "nxt n i = (if i + 1 = n then 0 else i + 1)"

definition indices :: "nat \<Rightarrow> nat \<Rightarrow> nat \<Rightarrow> nat list" where
  "indices n t h = (if t \<le> h then [t..<h] else [t..<n] @ [0..<h])"

lemma nxt_less: "i < n \<Longrightarrow> nxt n i < n"
  by (auto simp: nxt_def)

lemma nxt_inj: "i < n \<Longrightarrow> j < n \<Longrightarrow> nxt n i = nxt n j \<longleftrightarrow> i = j"
  by (auto simp: nxt_def)

lemma indices_same [simp]: "indices n i i = []"
  by (simp add: indices_def)

lemma indices_pop:
  assumes "t < n" and "h < n" and "t \<noteq> h"
  shows "indices n t h = t # indices n (nxt n t) h"
  using assms by (auto simp: indices_def nxt_def upt_conv_Cons)

lemma indices_push:
  assumes "t < n" and "h < n" and "nxt n h \<noteq> t"
  shows "indices n t (nxt n h) = indices n t h @ [h]"
  using assms by (auto simp: indices_def nxt_def)

lemma indices_fresh: "t < n \<Longrightarrow> h < n \<Longrightarrow> h \<notin> set (indices n t h)"
  by (auto simp: indices_def)

lemma indices_empty: "t < n \<Longrightarrow> h < n \<Longrightarrow> indices n t h = [] \<longleftrightarrow> t = h"
  using indices_pop [of t n h] by (cases "t = h") simp_all

lemma length_indices:
  "t < n \<Longrightarrow> h < n \<Longrightarrow> length (indices n t h) = (if t \<le> h then h - t else n - t + h)"
  by (auto simp: indices_def)

lemma indices_full: "t < n \<Longrightarrow> h < n \<Longrightarrow> length (indices n t h) = n - 1 \<longleftrightarrow> nxt n h = t"
  by (auto simp: length_indices nxt_def)

lemma indices_bound: "t < n \<Longrightarrow> h < n \<Longrightarrow> length (indices n t h) \<le> n - 1"
  by (auto simp: length_indices)

section \<open>The queue\<close>

record 'a spsc_queue =
  slots :: "'a list"
  head :: u64
  tail :: u64

datatype queue_error = InvalidCapacity

text \<open>\<open>Next\<close>: the comparison is of 64-bit words.\<close>

definition Next :: "'a spsc_queue \<Rightarrow> u64 \<Rightarrow> u64" where
  "Next q i = (if i + 1 = word_of_nat (length (slots q)) then 0 else i + 1)"

text \<open>The constructor; \<open>dflt\<close> is the value-initialised \<open>T\<close> that \<open>resize\<close> writes.\<close>

definition SpscQueue :: "'a \<Rightarrow> u64 \<Rightarrow> queue_error + 'a spsc_queue" where
  "SpscQueue dflt capacity =
     (if capacity = 0 \<or> capacity = - 1 then Inl InvalidCapacity
      else Inr \<lparr>slots = replicate (unat (capacity + 1)) dflt, head = 0, tail = 0\<rparr>)"

definition TryPush :: "'a spsc_queue \<Rightarrow> 'a \<Rightarrow> bool \<times> 'a spsc_queue" where
  "TryPush q v =
     (let h = head q;
          next = Next q h
      in if next = tail q then (False, q)
         else (True, q\<lparr>slots := (slots q)[unat h := v], head := next\<rparr>))"

text \<open>The value popped, \<^const>\<open>None\<close> where the C++ returns false and leaves \<open>value\<close> alone.\<close>

definition TryPop :: "'a spsc_queue \<Rightarrow> 'a option \<times> 'a spsc_queue" where
  "TryPop q =
     (let t = tail q
      in if t = head q then (None, q)
         else (Some (slots q ! unat t), q\<lparr>tail := Next q t\<rparr>))"

section \<open>Invariant and abstraction\<close>

definition queue_ok :: "'a spsc_queue \<Rightarrow> bool" where
  "queue_ok q \<longleftrightarrow> 2 \<le> length (slots q) \<and> length (slots q) < 2 ^ 64 \<and>
     unat (head q) < length (slots q) \<and> unat (tail q) < length (slots q)"

definition contents :: "'a spsc_queue \<Rightarrow> 'a list" where
  "contents q = map (nth (slots q)) (indices (length (slots q)) (unat (tail q)) (unat (head q)))"

definition capacity_of :: "'a spsc_queue \<Rightarrow> nat" where
  "capacity_of q = length (slots q) - 1"

lemma unat_Next:
  assumes "queue_ok q" and "unat i < length (slots q)"
  shows "unat (Next q i) = nxt (length (slots q)) (unat i)"
proof -
  have "unat (word_of_nat (length (slots q)) :: u64) = length (slots q)"
    using assms(1) by (simp add: queue_ok_def unat_of_nat take_bit_nat_eq_self)
  moreover have "unat (i + 1) = unat i + 1 \<or> unat i + 1 = 2 ^ 64"
    using unat_u64_less [of i] by (auto simp: unat_word_ariths)
  ultimately show ?thesis
    using assms by (auto simp: Next_def nxt_def queue_ok_def word_unat_eq_iff)
qed

lemma Next_eq_tail:
  "queue_ok q \<Longrightarrow> Next q (head q) = tail q \<longleftrightarrow> nxt (length (slots q)) (unat (head q)) = unat (tail q)"
  using unat_Next [of q "head q"] by (auto simp: queue_ok_def word_unat_eq_iff)

lemma queue_ok_head: "queue_ok q \<Longrightarrow> queue_ok (q\<lparr>slots := (slots q)[i := v], head := Next q (head q)\<rparr>)"
  using unat_Next [of q "head q"] by (simp add: queue_ok_def nxt_less)

lemma queue_ok_tail: "queue_ok q \<Longrightarrow> queue_ok (q\<lparr>tail := Next q (tail q)\<rparr>)"
  using unat_Next [of q "tail q"] by (simp add: queue_ok_def nxt_less)

lemma contents_push:
  assumes "queue_ok q" and "Next q (head q) \<noteq> tail q"
  shows "contents (q\<lparr>slots := (slots q)[unat (head q) := v], head := Next q (head q)\<rparr>) =
    contents q @ [v]"
proof -
  let ?n = "length (slots q)" and ?h = "unat (head q)" and ?t = "unat (tail q)"
  have less: "?h < ?n" "?t < ?n"
    using assms(1) by (simp_all add: queue_ok_def)
  have "nxt ?n ?h \<noteq> ?t"
    using assms by (simp add: Next_eq_tail)
  then have "indices ?n ?t (nxt ?n ?h) = indices ?n ?t ?h @ [?h]"
    using less by (intro indices_push)
  moreover have "map (nth ((slots q)[?h := v])) (indices ?n ?t ?h) = map (nth (slots q)) (indices ?n ?t ?h)"
    using indices_fresh [OF less(2,1)] by (intro map_cong refl) (auto intro!: nth_list_update_neq)
  ultimately show ?thesis
    using less unat_Next [OF assms(1) less(1)] by (simp add: contents_def)
qed

lemma contents_pop:
  assumes "queue_ok q" and "tail q \<noteq> head q"
  shows "contents q = slots q ! unat (tail q) # contents (q\<lparr>tail := Next q (tail q)\<rparr>)"
  using indices_pop [of "unat (tail q)" "length (slots q)" "unat (head q)"] assms
    unat_Next [of q "tail q"]
  by (simp add: contents_def queue_ok_def word_unat_eq_iff)

lemma contents_Nil: "queue_ok q \<Longrightarrow> contents q = [] \<longleftrightarrow> tail q = head q"
  by (simp add: contents_def queue_ok_def indices_empty word_unat_eq_iff)

lemma contents_full: "queue_ok q \<Longrightarrow> length (contents q) = capacity_of q \<longleftrightarrow> Next q (head q) = tail q"
  by (simp add: Next_eq_tail contents_def capacity_of_def queue_ok_def indices_full [simplified])

lemma contents_bound: "queue_ok q \<Longrightarrow> length (contents q) \<le> capacity_of q"
  using indices_bound [of "unat (tail q)" "length (slots q)" "unat (head q)"]
  by (simp add: contents_def capacity_of_def queue_ok_def)

interpretation spsc: bounded_fifo TryPush TryPop queue_ok contents capacity_of
proof
  fix q :: "'a spsc_queue" and v
  assume q: "queue_ok q"
  show "queue_ok (snd (TryPush q v))" and "queue_ok (snd (TryPop q))"
    using q by (simp_all add: TryPush_def TryPop_def Let_def queue_ok_head queue_ok_tail)
  show "capacity_of (snd (TryPush q v)) = capacity_of q" and "capacity_of (snd (TryPop q)) = capacity_of q"
    by (simp_all add: TryPush_def TryPop_def Let_def capacity_of_def)
  show "contents (snd (TryPush q v)) = (if fst (TryPush q v) then contents q @ [v] else contents q)"
    using q by (simp add: TryPush_def Let_def contents_push)
  show "fst (TryPush q v) \<longleftrightarrow> length (contents q) < capacity_of q"
    using contents_bound [OF q] contents_full [OF q] by (auto simp: TryPush_def Let_def)
  show "case contents q of [] \<Rightarrow> TryPop q = (None, q)
      | x # xs \<Rightarrow> fst (TryPop q) = Some x \<and> contents (snd (TryPop q)) = xs"
    using contents_Nil [OF q] contents_pop [OF q]
    by (auto simp: TryPop_def Let_def split: list.splits)
  show "length (contents q) \<le> capacity_of q"
    using q by (rule contents_bound)
qed

lemma SpscQueue_ok:
  assumes "SpscQueue dflt capacity = Inr q"
  shows "queue_ok q" and "contents q = []" and "capacity_of q = unat capacity"
proof -
  have "capacity \<noteq> 0" and "capacity \<noteq> - 1"
    and q: "q = \<lparr>slots = replicate (unat (capacity + 1)) dflt, head = 0, tail = 0\<rparr>"
    using assms by (auto simp: SpscQueue_def split: if_splits)
  have "unat (- 1 :: u64) = 18446744073709551615"
    by (simp add: unsigned_minus_1_eq_mask mask_eq_exp_minus_1)
  with \<open>capacity \<noteq> - 1\<close> have "unat capacity \<noteq> 18446744073709551615"
    by (metis word_unat_eq_iff)
  then have "unat (capacity + 1) = unat capacity + 1"
    using unat_u64_less [of capacity] unat_add_small [of capacity 1] by simp
  moreover have "0 < unat capacity"
    using \<open>capacity \<noteq> 0\<close> by (simp add: unat_gt_0)
  ultimately have cap: "unat (capacity + 1) = unat capacity + 1" "0 < unat capacity"
    by simp_all
  have "unat capacity + 1 < 18446744073709551616"
    using unat_u64_less [of "capacity + 1"] by (simp only: cap)
  then show "queue_ok q" and "contents q = []" and "capacity_of q = unat capacity"
    using cap by (simp_all add: q queue_ok_def contents_def capacity_of_def)
qed

section \<open>Properties\<close>

text \<open>
  C12: The queue refines a bounded list. On every queue a constructor and calls can produce,
  \<open>TryPush\<close> appends its value and returns true exactly when fewer than \<open>capacity\<close> values
  wait, and otherwise returns false and changes nothing; \<open>TryPop\<close> removes the oldest value,
  or returns false and changes nothing when none waits. Indices wrap around inside the ring.
\<close>

theorem spsc_refines_list:
  assumes "queue_ok q"
  shows "queue_ok (snd (TryPush q v)) \<and> queue_ok (snd (TryPop q)) \<and>
    (if length (contents q) < capacity_of q
     then fst (TryPush q v) \<and> contents (snd (TryPush q v)) = contents q @ [v]
     else TryPush q v = (False, q)) \<and>
    (case contents q of [] \<Rightarrow> TryPop q = (None, q)
     | x # xs \<Rightarrow> fst (TryPop q) = Some x \<and> contents (snd (TryPop q)) = xs)"
proof -
  have "\<not> length (contents q) < capacity_of q \<Longrightarrow> TryPush q v = (False, q)"
    using spsc.push_accepts [OF assms, of v] by (auto simp: TryPush_def Let_def split: if_splits)
  then show ?thesis
    using assms by (simp add: spsc.push_wf spsc.pop_wf spsc.push_items spsc.push_accepts spsc.pop_items)
qed

theorem spsc_refines_list_witness:
  "TryPush \<lparr>slots = [7, 8 :: nat], head = 1, tail = 0\<rparr> 9 = (False, \<lparr>slots = [7, 8], head = 1, tail = 0\<rparr>)"
  using spsc_refines_list [of "\<lparr>slots = [7, 8 :: nat], head = 1, tail = 0\<rparr>" 9]
  by (simp add: queue_ok_def contents_def indices_def capacity_of_def)

text \<open>
  First in, first out for any sequence of calls. From a queue the constructor returns,
  whatever the sequence of \<open>TryPush\<close> and \<open>TryPop\<close> calls, the values accepted are the values
  handed out followed by the values still waiting, and never more than \<open>capacity\<close> wait.
\<close>

theorem spsc_calls_fifo:
  assumes "SpscQueue dflt capacity = Inr q" and "spsc.run_ops ops q = (accepted, taken, q')"
  shows "accepted = taken @ contents q' \<and> length (contents q') \<le> unat capacity"
  using spsc.run_ops_fifo [OF SpscQueue_ok(1) [OF assms(1)] assms(2)] SpscQueue_ok [OF assms(1)]
    spsc.items_room [of q'] by simp

theorem spsc_calls_fifo_witness:
  "\<exists>q'. spsc.run_ops [Push 9, Push 10, Pop, Pop, Push 11]
      \<lparr>slots = [0, 0 :: nat], head = 0, tail = 0\<rparr> = ([9, 11], [9], q') \<and>
    [9, 11] = [9] @ contents q' \<and> length (contents q') \<le> 1"
proof -
  have run: "spsc.run_ops [Push 9, Push 10, Pop, Pop, Push 11]
      \<lparr>slots = [0, 0 :: nat], head = 0, tail = 0\<rparr> = ([9, 11], [9], \<lparr>slots = [9, 11], head = 0, tail = 1\<rparr>)"
    by (simp add: TryPush_def TryPop_def Next_def)
  have new: "SpscQueue 0 1 = Inr \<lparr>slots = [0, 0 :: nat], head = 0, tail = 0\<rparr>"
    by (simp add: SpscQueue_def replicate_2)
  show ?thesis
    using spsc_calls_fifo [OF new run] run by auto
qed

end
