(* ===== verification/Spsc_Interleaving.thy ===== *)
theory Spsc_Interleaving
  imports Spsc_Queue
begin

text \<open>
  The queue of \<open>inc/SpscQueue.hpp\<close> with one producer and one consumer running at the same
  time. A call of \<open>TryPush\<close> or \<open>TryPop\<close> is cut at its atomic loads and stores and at its
  access to a slot; a run interleaves those steps in any order. The release store of an
  index and the acquire load that reads it order the slot accesses on either side, so a run
  of the C++ program is an interleaving provided no slot is written and accessed at once;
  that no two enabled slot accesses ever meet is proved below.

  The history variables \<open>pushed\<close> and \<open>popped\<close> record the values whose index was published,
  in the order of the stores to \<open>head_\<close> and \<open>tail_\<close>.
\<close>

section \<open>States and steps\<close>

datatype 'a producer =
    P_idle
  | P_head 'a u64              \<comment> \<open>\<open>head_\<close> loaded\<close>
  | P_room 'a u64 u64          \<comment> \<open>\<open>tail_\<close> loaded and different from \<open>next\<close>\<close>
  | P_written 'a u64 u64       \<comment> \<open>slot written\<close>

datatype 'a consumer =
    C_idle
  | C_tail u64                 \<comment> \<open>\<open>tail_\<close> loaded\<close>
  | C_some u64                 \<comment> \<open>\<open>head_\<close> loaded and different\<close>
  | C_read u64 'a              \<comment> \<open>slot read\<close>

record 'a spsc_run =
  queue :: "'a spsc_queue"
  producer :: "'a producer"
  consumer :: "'a consumer"
  pushed :: "'a list"
  popped :: "'a list"

inductive push_step :: "'a spsc_run \<Rightarrow> 'a spsc_run \<Rightarrow> bool" where
  load_head: "producer s = P_idle \<Longrightarrow>
    push_step s (s\<lparr>producer := P_head v (head (queue s))\<rparr>)"
| full: "producer s = P_head v h \<Longrightarrow> Next (queue s) h = tail (queue s) \<Longrightarrow>
    push_step s (s\<lparr>producer := P_idle\<rparr>)"
| not_full: "producer s = P_head v h \<Longrightarrow> Next (queue s) h \<noteq> tail (queue s) \<Longrightarrow>
    push_step s (s\<lparr>producer := P_room v h (Next (queue s) h)\<rparr>)"
| write_slot: "producer s = P_room v h next \<Longrightarrow>
    push_step s (s\<lparr>producer := P_written v h next,
      queue := (queue s)\<lparr>slots := (slots (queue s))[unat h := v]\<rparr>\<rparr>)"
| store_head: "producer s = P_written v h next \<Longrightarrow>
    push_step s (s\<lparr>producer := P_idle, queue := (queue s)\<lparr>head := next\<rparr>, pushed := pushed s @ [v]\<rparr>)"

inductive pop_step :: "'a spsc_run \<Rightarrow> 'a spsc_run \<Rightarrow> bool" where
  load_tail: "consumer s = C_idle \<Longrightarrow>
    pop_step s (s\<lparr>consumer := C_tail (tail (queue s))\<rparr>)"
| empty: "consumer s = C_tail t \<Longrightarrow> t = head (queue s) \<Longrightarrow>
    pop_step s (s\<lparr>consumer := C_idle\<rparr>)"
| not_empty: "consumer s = C_tail t \<Longrightarrow> t \<noteq> head (queue s) \<Longrightarrow>
    pop_step s (s\<lparr>consumer := C_some t\<rparr>)"
| read_slot: "consumer s = C_some t \<Longrightarrow>
    pop_step s (s\<lparr>consumer := C_read t (slots (queue s) ! unat t)\<rparr>)"
| store_tail: "consumer s = C_read t x \<Longrightarrow>
    pop_step s (s\<lparr>consumer := C_idle, queue := (queue s)\<lparr>tail := Next (queue s) t\<rparr>,
      popped := popped s @ [x]\<rparr>)"

definition start :: "'a spsc_queue \<Rightarrow> 'a spsc_run" where
  "start q = \<lparr>queue = q, producer = P_idle, consumer = C_idle, pushed = [], popped = []\<rparr>"

definition run_step :: "'a spsc_run \<Rightarrow> 'a spsc_run \<Rightarrow> bool" where
  "run_step s s' \<longleftrightarrow> push_step s s' \<or> pop_step s s'"

definition reach :: "'a spsc_queue \<Rightarrow> 'a spsc_run \<Rightarrow> bool" where
  "reach q = run_step\<^sup>*\<^sup>* (start q)"

lemma reach_start: "reach q (start q)"
  by (simp add: reach_def)

lemma reach_push: "reach q s \<Longrightarrow> push_step s s' \<Longrightarrow> reach q s'"
  by (auto simp: reach_def run_step_def intro: rtranclp.rtrancl_into_rtrancl)

lemma reach_pop: "reach q s \<Longrightarrow> pop_step s s' \<Longrightarrow> reach q s'"
  by (auto simp: reach_def run_step_def intro: rtranclp.rtrancl_into_rtrancl)

section \<open>The invariant of a run\<close>

fun producer_ok :: "'a spsc_queue \<Rightarrow> 'a producer \<Rightarrow> bool" where
  "producer_ok q P_idle \<longleftrightarrow> True"
| "producer_ok q (P_head v h) \<longleftrightarrow> h = head q"
| "producer_ok q (P_room v h next) \<longleftrightarrow> h = head q \<and> next = Next q h \<and> next \<noteq> tail q"
| "producer_ok q (P_written v h next) \<longleftrightarrow>
     h = head q \<and> next = Next q h \<and> next \<noteq> tail q \<and> slots q ! unat h = v"

fun consumer_ok :: "'a spsc_queue \<Rightarrow> 'a consumer \<Rightarrow> bool" where
  "consumer_ok q C_idle \<longleftrightarrow> True"
| "consumer_ok q (C_tail t) \<longleftrightarrow> t = tail q"
| "consumer_ok q (C_some t) \<longleftrightarrow> t = tail q \<and> t \<noteq> head q"
| "consumer_ok q (C_read t x) \<longleftrightarrow> t = tail q \<and> t \<noteq> head q \<and> slots q ! unat t = x"

definition run_ok :: "'a list \<Rightarrow> 'a spsc_run \<Rightarrow> bool" where
  "run_ok init s \<longleftrightarrow> queue_ok (queue s) \<and>
     producer_ok (queue s) (producer s) \<and> consumer_ok (queue s) (consumer s) \<and>
     init @ pushed s = popped s @ contents (queue s)"

lemma Next_slots [simp]: "Next (q\<lparr>slots := (slots q)[i := v]\<rparr>) = Next q"
  by (simp add: Next_def fun_eq_iff)

lemma Next_head [simp]: "Next (q\<lparr>head := h\<rparr>) = Next q"
  by (simp add: Next_def fun_eq_iff)

lemma Next_tail [simp]: "Next (q\<lparr>tail := t\<rparr>) = Next q"
  by (simp add: Next_def fun_eq_iff)

lemma Next_inj:
  assumes "queue_ok q"
  shows "Next q (head q) = Next q (tail q) \<longleftrightarrow> head q = tail q"
proof -
  let ?n = "length (slots q)"
  have less: "unat (head q) < ?n" "unat (tail q) < ?n"
    using assms by (simp_all add: queue_ok_def)
  then show ?thesis
    using nxt_inj [OF less] unat_Next [OF assms less(1)] unat_Next [OF assms less(2)]
    by (metis word_unat_eq_iff)
qed

lemma contents_slots_head:
  assumes "queue_ok q"
  shows "contents (q\<lparr>slots := (slots q)[unat (head q) := v]\<rparr>) = contents q"
  using indices_fresh [of "unat (tail q)" "length (slots q)" "unat (head q)"] assms
  by (auto simp: contents_def queue_ok_def intro!: map_cong nth_list_update_neq)

lemma contents_head:
  assumes "queue_ok q" and "Next q (head q) \<noteq> tail q"
  shows "contents (q\<lparr>head := Next q (head q)\<rparr>) = contents q @ [slots q ! unat (head q)]"
  using contents_push [OF assms, of "slots q ! unat (head q)"] by simp

lemma queue_ok_store_head: "queue_ok q \<Longrightarrow> queue_ok (q\<lparr>head := Next q (head q)\<rparr>)"
  using unat_Next [of q "head q"] by (simp add: queue_ok_def nxt_less)

lemma push_step_ok:
  assumes "push_step s s'" and "run_ok init s"
  shows "run_ok init s'"
  using assms
proof cases
  case (write_slot v h "next")
  then show ?thesis
    using assms(2)
    by (cases "consumer s")
      (auto simp: run_ok_def queue_ok_def contents_slots_head word_unat_eq_iff)
next
  case (store_head v h "next")
  then have "Next (queue s) (head (queue s)) \<noteq> tail (queue s)"
    using assms(2) by (auto simp: run_ok_def)
  then show ?thesis
    using assms(2) store_head queue_ok_store_head [of "queue s"] contents_head [of "queue s"]
    by (cases "consumer s") (auto simp: run_ok_def)
qed (auto simp: run_ok_def)

lemma pop_step_ok:
  assumes "pop_step s s'" and "run_ok init s"
  shows "run_ok init s'"
  using assms
proof cases
  case (store_tail t x)
  then have *: "tail (queue s) \<noteq> head (queue s)" "queue_ok (queue s)"
    using assms(2) by (auto simp: run_ok_def)
  then have "Next (queue s) (head (queue s)) \<noteq> Next (queue s) (tail (queue s))"
    using Next_inj [of "queue s"] by simp
  then show ?thesis
    using assms(2) store_tail queue_ok_tail [OF *(2)] contents_pop [OF *(2,1)]
    by (cases "producer s") (auto simp: run_ok_def)
qed (auto simp: run_ok_def)

interpretation spsc_run: invariant_system "\<lambda>s. \<exists>q. queue_ok q \<and> contents q = init \<and> s = start q" run_step "run_ok init"
  for init
proof
  show "\<And>s. \<exists>q. queue_ok q \<and> contents q = init \<and> s = start q \<Longrightarrow> run_ok init s"
    by (auto simp: run_ok_def start_def)
  show "\<And>s s'. run_ok init s \<Longrightarrow> run_step s s' \<Longrightarrow> run_ok init s'"
    unfolding run_step_def using push_step_ok pop_step_ok by blast
qed

lemma reach_ok: "reach q s \<Longrightarrow> queue_ok q \<Longrightarrow> run_ok (contents q) s"
  by (rule spsc_run.reached_ok [where s = "start q"]) (auto simp: reach_def)

section \<open>Properties\<close>

lemma new_queue_run:
  assumes "SpscQueue dflt cap = Inr q" and "reach q s"
  shows "run_ok [] s" and "capacity_of (queue s) = unat cap"
proof -
  show "run_ok [] s"
    using reach_ok [OF assms(2)] SpscQueue_ok [OF assms(1)] by simp
  have "run_ok [] (start q)"
    using reach_ok [OF reach_start] SpscQueue_ok [OF assms(1)] by metis
  moreover have "run_step\<^sup>*\<^sup>* (start q) s"
    using assms(2) by (simp add: reach_def)
  moreover have "capacity_of (queue v) = capacity_of q" if "capacity_of (queue u) = capacity_of q" and "run_step u v" for u v
    using that by (auto simp: capacity_of_def run_step_def elim!: push_step.cases pop_step.cases)
  moreover have "capacity_of (queue (start q)) = capacity_of q"
    by (simp add: start_def)
  ultimately have "capacity_of (queue s) = capacity_of q"
    using spsc_run.steps_keep [of "start q" s "[]" "\<lambda>u. capacity_of (queue u) = capacity_of q"] by blast
  then show "capacity_of (queue s) = unat cap"
    using SpscQueue_ok [OF assms(1)] by simp
qed

text \<open>
  C13: First in, first out under every interleaving. However the steps of one producer and
  one consumer interleave on a fresh queue, the values published are exactly the values
  taken followed by the values still in the queue, in order, and at most \<open>capacity\<close> values
  wait in it: nothing is lost, duplicated or reordered.
\<close>

theorem spsc_interleaved_fifo:
  assumes "SpscQueue dflt cap = Inr q" and "reach q s"
  shows "pushed s = popped s @ contents (queue s) \<and> length (contents (queue s)) \<le> unat cap"
  using new_queue_run [OF assms] contents_bound [of "queue s"] by (simp add: run_ok_def)

text \<open>
  C14: No data race. Whenever the producer is about to write a slot and the consumer is
  about to read one, in any reachable state, both indices lie inside the ring and differ;
  no slot is ever written and read at once.
\<close>

theorem spsc_no_race:
  assumes "SpscQueue dflt cap = Inr q" and "reach q s"
    and "producer s = P_room v h next" and "consumer s = C_some t"
  shows "unat h < length (slots (queue s)) \<and> unat t < length (slots (queue s)) \<and> unat h \<noteq> unat t"
  using new_queue_run(1) [OF assms(1,2)] assms(3,4)
  by (auto simp: run_ok_def queue_ok_def word_unat_eq_iff)

text \<open>
  The whole calls are runs of these steps: with the other thread between its steps, the
  producer's steps of one \<open>TryPush\<close> end in the state \<^const>\<open>TryPush\<close> computes, and the
  same for \<^const>\<open>TryPop\<close>.
\<close>

lemma push_call_steps:
  assumes "producer s = P_idle" and "TryPush (queue s) v = (b, q')"
  shows "push_step\<^sup>*\<^sup>* s
    (s\<lparr>producer := P_idle, queue := q', pushed := pushed s @ (if b then [v] else [])\<rparr>)"
proof (cases "Next (queue s) (head (queue s)) = tail (queue s)")
  case True
  let ?s1 = "s\<lparr>producer := P_head v (head (queue s))\<rparr>"
  have "push_step s ?s1"
    using assms(1) by (rule load_head)
  moreover have "push_step ?s1 (?s1\<lparr>producer := P_idle\<rparr>)"
    using True by (intro full [of _ v "head (queue s)"]) simp_all
  ultimately show ?thesis
    using assms True by (auto simp: TryPush_def Let_def intro: rtranclp.rtrancl_into_rtrancl)
next
  case False
  let ?q = "queue s" let ?h = "head ?q"
  let ?s1 = "s\<lparr>producer := P_head v ?h\<rparr>"
  let ?s2 = "s\<lparr>producer := P_room v ?h (Next ?q ?h)\<rparr>"
  let ?s3 = "s\<lparr>producer := P_written v ?h (Next ?q ?h), queue := ?q\<lparr>slots := (slots ?q)[unat ?h := v]\<rparr>\<rparr>"
  have "push_step s ?s1"
    using assms(1) by (rule load_head)
  moreover have "push_step ?s1 ?s2"
    using not_full [of ?s1 v ?h] False by simp
  moreover have "push_step ?s2 ?s3"
    using write_slot [of ?s2 v ?h "Next ?q ?h"] by simp
  moreover have "push_step ?s3 (s\<lparr>producer := P_idle, queue := q', pushed := pushed s @ [v]\<rparr>)"
    using store_head [of ?s3 v ?h "Next ?q ?h"] assms(2) False by (auto simp: TryPush_def Let_def)
  ultimately have "push_step\<^sup>*\<^sup>* s (s\<lparr>producer := P_idle, queue := q', pushed := pushed s @ [v]\<rparr>)"
    by (meson rtranclp.rtrancl_into_rtrancl rtranclp.rtrancl_refl)
  moreover have b
    using assms(2) False by (auto simp: TryPush_def Let_def)
  ultimately show ?thesis by simp
qed

lemma pop_call_steps:
  assumes "consumer s = C_idle" and "TryPop (queue s) = (r, q')"
  shows "pop_step\<^sup>*\<^sup>* s
    (s\<lparr>consumer := C_idle, queue := q', popped := popped s @ (case r of Some x \<Rightarrow> [x] | None \<Rightarrow> [])\<rparr>)"
proof (cases "tail (queue s) = head (queue s)")
  case True
  let ?s1 = "s\<lparr>consumer := C_tail (tail (queue s))\<rparr>"
  have "pop_step s ?s1"
    using assms(1) by (rule load_tail)
  moreover have "pop_step ?s1 (?s1\<lparr>consumer := C_idle\<rparr>)"
    using True by (intro empty [of _ "tail (queue s)"]) simp_all
  ultimately show ?thesis
    using assms True by (auto simp: TryPop_def Let_def intro: rtranclp.rtrancl_into_rtrancl)
next
  case False
  let ?q = "queue s" let ?t = "tail ?q"
  let ?s1 = "s\<lparr>consumer := C_tail ?t\<rparr>" and ?s2 = "s\<lparr>consumer := C_some ?t\<rparr>"
  let ?s3 = "s\<lparr>consumer := C_read ?t (slots ?q ! unat ?t)\<rparr>"
  let ?s4 = "s\<lparr>consumer := C_idle, queue := q', popped := popped s @ [slots ?q ! unat ?t]\<rparr>"
  have "pop_step s ?s1"
    using assms(1) by (rule load_tail)
  moreover have "pop_step ?s1 ?s2"
    using not_empty [of ?s1 ?t] False by simp
  moreover have "pop_step ?s2 ?s3"
    using read_slot [of ?s2 ?t] by simp
  moreover have "pop_step ?s3 ?s4"
    using store_tail [of ?s3 ?t] assms(2) False by (auto simp: TryPop_def Let_def)
  ultimately have "pop_step\<^sup>*\<^sup>* s ?s4"
    by (meson rtranclp.rtrancl_into_rtrancl rtranclp.rtrancl_refl)
  moreover have "r = Some (slots ?q ! unat ?t)"
    using assms(2) False by (auto simp: TryPop_def Let_def)
  ultimately show ?thesis by simp
qed

section \<open>A run in which both threads are at a slot\<close>

lemma both_at_a_slot:
  obtains s :: "nat spsc_run" where "reach \<lparr>slots = [0, 0, 0], head = 0, tail = 0\<rparr> s"
    and "pushed s = [7]" and "popped s = []" and "contents (queue s) = [7]"
    and "producer s = P_room 8 1 2" and "consumer s = C_some 0"
proof -
  let ?q = "\<lparr>slots = [0, 0, 0 :: nat], head = 0, tail = 0\<rparr>"
  let ?q1 = "\<lparr>slots = [7, 0, 0 :: nat], head = 1, tail = 0\<rparr>"
  let ?s1 = "(start ?q)\<lparr>producer := P_head 7 0\<rparr>"
  let ?s2 = "?s1\<lparr>producer := P_room 7 0 1\<rparr>"
  let ?s3 = "?s1\<lparr>producer := P_written 7 0 1, queue := ?q\<lparr>slots := [7, 0, 0]\<rparr>\<rparr>"
  let ?s4 = "?s1\<lparr>producer := P_idle, queue := ?q1, pushed := [7]\<rparr>"
  let ?s5 = "?s4\<lparr>producer := P_head 8 1\<rparr>"
  let ?s6 = "?s4\<lparr>producer := P_room 8 1 2\<rparr>"
  let ?s7 = "?s6\<lparr>consumer := C_tail 0\<rparr>"
  let ?s8 = "?s6\<lparr>consumer := C_some 0\<rparr>"
  have "push_step (start ?q) ?s1" using load_head [of "start ?q" 7] by (simp add: start_def)
  moreover have "push_step ?s1 ?s2" using not_full [of ?s1 7 0] by (simp add: start_def Next_def)
  moreover have "push_step ?s2 ?s3" using write_slot [of ?s2 7 0 1] by (simp add: start_def)
  moreover have "push_step ?s3 ?s4" using store_head [of ?s3 7 0 1] by (simp add: start_def)
  moreover have "push_step ?s4 ?s5" using load_head [of ?s4 8] by simp
  moreover have "push_step ?s5 ?s6" using not_full [of ?s5 8 1] by (simp add: Next_def)
  moreover have "pop_step ?s6 ?s7" using load_tail [of ?s6] by (simp add: start_def)
  moreover have "pop_step ?s7 ?s8" using not_empty [of ?s7 0] by simp
  ultimately have "reach ?q ?s8"
    by (meson reach_start reach_push reach_pop)
  then show ?thesis
    by (rule that) (simp_all add: start_def contents_def indices_def)
qed

lemma queue_of_2: "SpscQueue 0 2 = Inr \<lparr>slots = [0, 0, 0 :: nat], head = 0, tail = 0\<rparr>"
  by (simp add: SpscQueue_def replicate_3)

theorem spsc_interleaved_fifo_witness:
  "\<exists>s :: nat spsc_run. pushed s = [7] \<and> pushed s = popped s @ contents (queue s) \<and>
     length (contents (queue s)) \<le> 2"
proof -
  obtain s :: "nat spsc_run" where "reach \<lparr>slots = [0, 0, 0], head = 0, tail = 0\<rparr> s" "pushed s = [7]"
    by (rule both_at_a_slot)
  then show ?thesis
    using spsc_interleaved_fifo [OF queue_of_2] by force
qed

theorem spsc_no_race_witness:
  "\<exists>s :: nat spsc_run. producer s = P_room 8 1 2 \<and> consumer s = C_some 0 \<and>
     unat (1 :: u64) < length (slots (queue s)) \<and> unat (1 :: u64) \<noteq> unat (0 :: u64)"
proof -
  obtain s :: "nat spsc_run" where "reach \<lparr>slots = [0, 0, 0], head = 0, tail = 0\<rparr> s"
    "producer s = P_room 8 1 2" "consumer s = C_some 0"
    by (rule both_at_a_slot)
  then show ?thesis
    using spsc_no_race [OF queue_of_2] by blast
qed

end
