(* ===== verification/Ebpf_Telemetry.thy ===== *)
theory Ebpf_Telemetry
  imports Spsc_Queue Telemetry_Types
begin

text \<open>
  The user-space end of the ring buffers, \<open>EbpfTelemetry\<close> (\<open>src/EbpfTelemetry.cpp\<close>):
  sources are registered, a poller thread feeds ring-buffer samples to \<open>OnEvent\<close>, which
  decodes them into the bounded queue, one consumer takes records out, and
  \<open>FinishAfterDetach\<close> joins the poller and drains what is left.

  The calls are functions on \<open>Impl\<close>; libbpf's answers and the clock are their arguments.
  Threads interleave in the step relation \<open>tel_step\<close>: the poller's loop, the manager that
  registers, starts and finishes (its lifecycle calls are serialised, as the code asks),
  and the consumer. A call of \<open>OnEvent\<close> or \<open>TryPop\<close> is one step; the theory of the
  interleaved queue shows that this loses no behaviour of the queue.
\<close>

section \<open>State\<close>

record Source =
  src_ifindex :: u32
  src_netns_inode :: u64
  src_session_id :: u64

record Impl =
  im_queue :: "TelemetryRecord spsc_queue"
  im_sources :: "Source list"
  im_ring :: "(int \<times> Source) list option"  \<comment> \<open>\<^const>\<open>None\<close> while the ring pointer is null\<close>
  im_abort :: bool
  im_deadline_ns :: u64
  im_decode_errors :: u64
  im_queue_dropped :: u64
  im_shutdown_discarded :: u64
  im_poll_error :: int
  im_started :: bool
  im_finished :: bool

datatype telemetry_error = BadCapacity | InvalidSource | SystemError int | CannotStart

definition EINTR :: int where "EINTR = 4"

definition ENOMEM :: int where "ENOMEM = 12"

definition ECANCELED :: int where "ECANCELED = 125"

definition zero_record :: TelemetryRecord where
  "zero_record = \<lparr>event = load_event (replicate 216 0), netns_inode = 0, session_id = 0\<rparr>"

section \<open>Calls\<close>

definition EbpfTelemetry :: "u64 \<Rightarrow> telemetry_error + Impl" where
  "EbpfTelemetry capacity = (case SpscQueue zero_record capacity of
     Inl _ \<Rightarrow> Inl BadCapacity
   | Inr q \<Rightarrow> Inr \<lparr>im_queue = q, im_sources = [], im_ring = None, im_abort = False,
       im_deadline_ns = 0, im_decode_errors = 0, im_queue_dropped = 0,
       im_shutdown_discarded = 0, im_poll_error = 0, im_started = False, im_finished = False\<rparr>)"

text \<open>\<open>now\<close> is what \<open>NowNs\<close> reads; the result is libbpf's callback status.\<close>

definition OnEvent :: "u64 \<Rightarrow> Source \<Rightarrow> bytes option \<Rightarrow> nat \<Rightarrow> Impl \<Rightarrow> int \<times> Impl" where
  "OnEvent now source data n self =
     (if im_abort self \<or> (im_deadline_ns self \<noteq> 0 \<and> now \<ge> im_deadline_ns self) then
        (- ECANCELED, self\<lparr>im_shutdown_discarded := im_shutdown_discarded self + 1\<rparr>)
      else
        case DecodeEvent data n of
          None \<Rightarrow> (0, self\<lparr>im_decode_errors := im_decode_errors self + 1\<rparr>)
        | Some e \<Rightarrow>
            if e_ifindex e \<noteq> src_ifindex source then
              (0, self\<lparr>im_decode_errors := im_decode_errors self + 1\<rparr>)
            else
              let record = \<lparr>event = e, netns_inode = src_netns_inode source,
                            session_id = src_session_id source\<rparr>;
                  (pushed, q) = TryPush (im_queue self) record
              in if \<not> pushed then (0, self\<lparr>im_queue_dropped := im_queue_dropped self + 1\<rparr>)
                 else (0, self\<lparr>im_queue := q\<rparr>))"

text \<open>
  \<open>ring_buffer__new\<close> answers \<^const>\<open>None\<close> for a ring or \<open>Some errno\<close> for a null pointer;
  \<open>ring_buffer__add\<close> answers its return code.
\<close>

definition AddSource ::
  "(int \<Rightarrow> Source \<Rightarrow> int option) \<Rightarrow> (int \<Rightarrow> Source \<Rightarrow> int) \<Rightarrow>
   int \<Rightarrow> u32 \<Rightarrow> u64 \<Rightarrow> u64 \<Rightarrow> Impl \<Rightarrow> telemetry_error + Impl" where
  "AddSource ring_new ring_add fd ifindex netns session p =
     (if im_started p \<or> im_finished p \<or> fd < 0 \<or> ifindex = 0 then Inl InvalidSource
      else
        let source = \<lparr>src_ifindex = ifindex, src_netns_inode = netns, src_session_id = session\<rparr>;
            p' = p\<lparr>im_sources := im_sources p @ [source]\<rparr>;
            (rc, p'') =
              (case im_ring p' of
                 None \<Rightarrow> (case ring_new fd source of
                     None \<Rightarrow> (0, p'\<lparr>im_ring := Some [(fd, source)]\<rparr>)
                   | Some errno \<Rightarrow> (- (if errno \<noteq> 0 then errno else ENOMEM), p'))
               | Some regs \<Rightarrow>
                   let rc = ring_add fd source
                   in (rc, if rc = 0 then p'\<lparr>im_ring := Some (regs @ [(fd, source)])\<rparr> else p'))
        in if rc \<noteq> 0 then Inl (SystemError (- rc)) else Inr p'')"

definition Start :: "Impl \<Rightarrow> telemetry_error + Impl" where
  "Start p = (if im_ring p = None \<or> im_started p \<or> im_finished p then Inl CannotStart
              else Inr (p\<lparr>im_started := True\<rparr>))"

definition TelemetryTryPop :: "Impl \<Rightarrow> TelemetryRecord option \<times> Impl" where
  "TelemetryTryPop p = (let (r, q) = TryPop (im_queue p) in (r, p\<lparr>im_queue := q\<rparr>))"

definition Loss :: "Impl \<Rightarrow> TelemetryLoss" where
  "Loss p = \<lparr>decode_errors = im_decode_errors p, queue_dropped = im_queue_dropped p,
     shutdown_discarded = im_shutdown_discarded p, poll_error = im_poll_error p\<rparr>"

section \<open>The two loops\<close>

datatype loop_next = Again | Break

text \<open>Lines 80 to 83: what the poller does with the result of \<open>ring_buffer__poll\<close>.\<close>

definition poll_result :: "int \<Rightarrow> Impl \<Rightarrow> loop_next \<times> Impl" where
  "poll_result rc state =
     (if rc = - EINTR then (Again, state)
      else if rc = - ECANCELED \<and> im_abort state then (Break, state)
      else if rc < 0 then (Break, state\<lparr>im_poll_error := rc\<rparr>)
      else (Again, state))"

text \<open>Lines 100 to 103: what the drain does with the result of \<open>ring_buffer__consume\<close>.\<close>

definition consume_result :: "int \<Rightarrow> Impl \<Rightarrow> loop_next \<times> Impl" where
  "consume_result rc p =
     (if rc = - EINTR then (Again, p)
      else if rc = - ECANCELED \<or> rc = 0 then (Break, p)
      else if rc < 0 then (Break, p\<lparr>im_poll_error := rc\<rparr>)
      else (Again, p))"

text \<open>Lines 93 to 97, once the poller is joined: whether there is a drain.\<close>

definition begin_drain :: "u64 \<Rightarrow> int \<Rightarrow> Impl \<Rightarrow> loop_next \<times> Impl" where
  "begin_drain now timeout p =
     (let ms = (if timeout > 60000 then 60000 else timeout)
      in if ms > 0 \<and> im_ring p \<noteq> None then
           (Again, p\<lparr>im_deadline_ns := now + word_of_int ms * 1000000, im_abort := False\<rparr>)
         else (Break, p))"

section \<open>Threads\<close>

datatype poller_pc = NoThread | LoopTest | Polling | Exited

datatype manager_pc = Outside | Joining int | DrainTest | Consuming | Sealing

record tel_system =
  tel :: Impl
  poller :: poller_pc
  manager :: manager_pc
  offered :: nat                        \<comment> \<open>calls of \<open>OnEvent\<close> so far\<close>
  accepted :: "TelemetryRecord list"    \<comment> \<open>records pushed, in order\<close>
  taken :: "TelemetryRecord list"       \<comment> \<open>records popped, in order\<close>

definition tel_start :: "Impl \<Rightarrow> tel_system" where
  "tel_start p = \<lparr>tel = p, poller = NoThread, manager = Outside, offered = 0, accepted = [], taken = []\<rparr>"

text \<open>
  A call of \<open>OnEvent\<close> by whichever thread is inside libbpf, which passes a sample and its
  length, with the history it makes.
\<close>

definition deliver :: "u64 \<Rightarrow> Source \<Rightarrow> bytes \<Rightarrow> tel_system \<Rightarrow> tel_system" where
  "deliver now source sample s =
     (let p' = snd (OnEvent now source (Some sample) (length sample) (tel s)) in
      s\<lparr>tel := p', offered := offered s + 1,
        accepted := accepted s @ drop (length (contents (im_queue (tel s)))) (contents (im_queue p'))\<rparr>)"

inductive tel_step :: "tel_system \<Rightarrow> tel_system \<Rightarrow> bool" where
  add_source: "manager s = Outside \<Longrightarrow>
    AddSource ring_new ring_add fd ifindex netns session (tel s) = Inr p' \<Longrightarrow> tel_step s (s\<lparr>tel := p'\<rparr>)"
| start_poller: "manager s = Outside \<Longrightarrow> Start (tel s) = Inr p' \<Longrightarrow>
    tel_step s (s\<lparr>tel := p', poller := LoopTest\<rparr>)"
| poller_test: "poller s = LoopTest \<Longrightarrow>
    tel_step s (s\<lparr>poller := (if im_abort (tel s) then Exited else Polling)\<rparr>)"
| poller_event: "poller s = Polling \<Longrightarrow> im_ring (tel s) = Some regs \<Longrightarrow> source \<in> snd ` set regs \<Longrightarrow>
    tel_step s (deliver now source sample s)"
| poller_result: "poller s = Polling \<Longrightarrow> poll_result rc (tel s) = (next, p') \<Longrightarrow>
    tel_step s (s\<lparr>tel := p', poller := (if next = Again then LoopTest else Exited)\<rparr>)"
| finish_call: "manager s = Outside \<Longrightarrow> \<not> im_finished (tel s) \<Longrightarrow>
    tel_step s (s\<lparr>tel := (tel s)\<lparr>im_abort := True\<rparr>, manager := Joining timeout\<rparr>)"
| finish_joined: "manager s = Joining timeout \<Longrightarrow> poller s \<in> {NoThread, Exited} \<Longrightarrow>
    begin_drain now timeout (tel s) = (next, p') \<Longrightarrow>
    tel_step s (s\<lparr>tel := p', manager := (if next = Again then DrainTest else Sealing)\<rparr>)"
| drain_test: "manager s = DrainTest \<Longrightarrow>
    tel_step s (s\<lparr>manager := (if now \<ge> im_deadline_ns (tel s) then Sealing else Consuming)\<rparr>)"
| drain_event: "manager s = Consuming \<Longrightarrow> im_ring (tel s) = Some regs \<Longrightarrow> source \<in> snd ` set regs \<Longrightarrow>
    tel_step s (deliver now source sample s)"
| drain_result: "manager s = Consuming \<Longrightarrow> consume_result rc (tel s) = (next, p') \<Longrightarrow>
    tel_step s (s\<lparr>tel := p', manager := (if next = Again then DrainTest else Sealing)\<rparr>)"
| finish_return: "manager s = Sealing \<Longrightarrow>
    tel_step s (s\<lparr>tel := (tel s)\<lparr>im_abort := True, im_finished := True\<rparr>, manager := Outside\<rparr>)"
| consumer_pop: "TelemetryTryPop (tel s) = (r, p') \<Longrightarrow>
    tel_step s (s\<lparr>tel := p', taken := taken s @ (case r of Some x \<Rightarrow> [x] | None \<Rightarrow> [])\<rparr>)"

definition tel_reach :: "Impl \<Rightarrow> tel_system \<Rightarrow> bool" where
  "tel_reach p = tel_step\<^sup>*\<^sup>* (tel_start p)"

lemma tel_init: "tel_reach p (tel_start p)"
  by (simp add: tel_reach_def)

lemma tel_next: "tel_reach p s \<Longrightarrow> tel_step s s' \<Longrightarrow> tel_reach p s'"
  by (simp add: tel_reach_def)

section \<open>The effect of one sample\<close>

definition record_of :: "Source \<Rightarrow> es_event \<Rightarrow> TelemetryRecord" where
  "record_of source e = \<lparr>event = e, netns_inode = src_netns_inode source, session_id = src_session_id source\<rparr>"

lemma OnEvent_cases:
  obtains (discarded) "im_abort p \<or> im_deadline_ns p \<noteq> 0 \<and> now \<ge> im_deadline_ns p"
      and "OnEvent now source data n p = (- ECANCELED, p\<lparr>im_shutdown_discarded := im_shutdown_discarded p + 1\<rparr>)"
  | (undecoded) "\<not> im_abort p"
      and "OnEvent now source data n p = (0, p\<lparr>im_decode_errors := im_decode_errors p + 1\<rparr>)"
  | (dropped) e q where "\<not> im_abort p" and "TryPush (im_queue p) (record_of source e) = (False, q)"
      and "OnEvent now source data n p = (0, p\<lparr>im_queue_dropped := im_queue_dropped p + 1\<rparr>)"
  | (pushed) e q where "\<not> im_abort p" and "DecodeEvent data n = Some e" and "e_ifindex e = src_ifindex source"
      and "TryPush (im_queue p) (record_of source e) = (True, q)"
      and "OnEvent now source data n p = (0, p\<lparr>im_queue := q\<rparr>)"
proof (cases "im_abort p \<or> im_deadline_ns p \<noteq> 0 \<and> now \<ge> im_deadline_ns p")
  case True
  then show ?thesis by (intro discarded) (simp_all add: OnEvent_def)
next
  case live: False
  show ?thesis
  proof (cases "\<exists>e. DecodeEvent data n = Some e \<and> e_ifindex e = src_ifindex source")
    case False
    with live show ?thesis
      by (intro undecoded) (auto simp: OnEvent_def split: option.split)
  next
    case True
    then obtain e where e: "DecodeEvent data n = Some e" "e_ifindex e = src_ifindex source" by blast
    obtain b q where push: "TryPush (im_queue p) (record_of source e) = (b, q)" by (cases "TryPush (im_queue p) (record_of source e)")
    show ?thesis
      using live e push
      by (cases b) (auto simp: OnEvent_def record_of_def intro: pushed dropped)
  qed
qed

text \<open>What the queue accepted, and that the sample is accounted exactly once.\<close>

definition sample_accounted :: "Impl \<Rightarrow> Impl \<Rightarrow> TelemetryRecord list \<Rightarrow> bool" where
  "sample_accounted p p' new \<longleftrightarrow> queue_ok (im_queue p') \<and>
     contents (im_queue p') = contents (im_queue p) @ new \<and>
     im_decode_errors p' + im_queue_dropped p' + im_shutdown_discarded p' + word_of_nat (length new) =
       im_decode_errors p + im_queue_dropped p + im_shutdown_discarded p + 1"

lemma OnEvent_accounted:
  assumes "queue_ok (im_queue p)" and "OnEvent now source data n p = (rc, p')"
  obtains new where "sample_accounted p p' new"
    and "new = [] \<or> \<not> im_abort p \<and> (\<exists>e. new = [record_of source e] \<and> DecodeEvent data n = Some e \<and>
      e_ifindex e = src_ifindex source)"
    and "p' = p\<lparr>im_queue := im_queue p', im_decode_errors := im_decode_errors p',
      im_queue_dropped := im_queue_dropped p', im_shutdown_discarded := im_shutdown_discarded p'\<rparr>"
proof (cases rule: OnEvent_cases [of p now source data n])
  case discarded
  with assms show ?thesis by (intro that [of "[]"]) (auto simp: sample_accounted_def)
next
  case undecoded
  with assms show ?thesis by (intro that [of "[]"]) (auto simp: sample_accounted_def)
next
  case (dropped e q)
  with assms show ?thesis by (intro that [of "[]"]) (auto simp: sample_accounted_def)
next
  case (pushed e q)
  have "queue_ok q" and "contents q = contents (im_queue p) @ [record_of source e]"
    using spsc.push_wf [OF assms(1), of "record_of source e"]
      spsc.push_items [OF assms(1), of "record_of source e"] by (simp_all add: pushed)
  with pushed assms show ?thesis
    by (intro that [of "[record_of source e]"]) (auto simp: sample_accounted_def)
qed

section \<open>The invariant of the running system\<close>

definition record_genuine :: "Impl \<Rightarrow> TelemetryRecord \<Rightarrow> bool" where
  "record_genuine p r \<longleftrightarrow> event_valid (event r) \<and>
     (\<exists>src \<in> set (im_sources p). e_ifindex (event r) = src_ifindex src \<and>
        netns_inode r = src_netns_inode src \<and> session_id r = src_session_id src)"

definition tel_accounted :: "tel_system \<Rightarrow> bool" where
  "tel_accounted s \<longleftrightarrow> queue_ok (im_queue (tel s)) \<and>
     accepted s = taken s @ contents (im_queue (tel s)) \<and>
     word_of_nat (offered s) = im_decode_errors (tel s) + im_queue_dropped (tel s) +
       im_shutdown_discarded (tel s) + word_of_nat (length (accepted s))"

definition tel_genuine :: "tel_system \<Rightarrow> bool" where
  "tel_genuine s \<longleftrightarrow> (\<forall>r \<in> set (accepted s). record_genuine (tel s) r) \<and>
     (\<forall>regs. im_ring (tel s) = Some regs \<longrightarrow> snd ` set regs \<subseteq> set (im_sources (tel s)))"

definition tel_threads :: "tel_system \<Rightarrow> bool" where
  "tel_threads s \<longleftrightarrow>
     (manager s \<in> {DrainTest, Consuming, Sealing} \<longrightarrow> poller s \<in> {NoThread, Exited}) \<and>
     (im_finished (tel s) \<longrightarrow> manager s = Outside \<and> poller s \<in> {NoThread, Exited} \<and> im_abort (tel s)) \<and>
     (im_started (tel s) \<or> poller s = NoThread)"

lemma deliver_accounted:
  assumes "tel_accounted s"
  shows "tel_accounted (deliver now source sample s)"
proof -
  obtain rc p' where on: "OnEvent now source (Some sample) (length sample) (tel s) = (rc, p')"
    by (cases "OnEvent now source (Some sample) (length sample) (tel s)")
  have q: "queue_ok (im_queue (tel s))"
    using assms by (simp add: tel_accounted_def)
  obtain new where "sample_accounted (tel s) p' new"
    using q on by (rule OnEvent_accounted)
  then show ?thesis
    using assms by (simp add: tel_accounted_def deliver_def Let_def on sample_accounted_def add_ac)
qed

lemma deliver_genuine:
  assumes "tel_genuine s" and "queue_ok (im_queue (tel s))"
    and "im_ring (tel s) = Some regs" and "source \<in> snd ` set regs"
  shows "tel_genuine (deliver now source sample s)"
proof -
  obtain rc p' where on: "OnEvent now source (Some sample) (length sample) (tel s) = (rc, p')"
    by (cases "OnEvent now source (Some sample) (length sample) (tel s)")
  obtain new where acc: "sample_accounted (tel s) p' new"
    and new: "new = [] \<or> \<not> im_abort (tel s) \<and> (\<exists>e. new = [record_of source e] \<and>
      DecodeEvent (Some sample) (length sample) = Some e \<and> e_ifindex e = src_ifindex source)"
    and p': "p' = (tel s)\<lparr>im_queue := im_queue p', im_decode_errors := im_decode_errors p',
      im_queue_dropped := im_queue_dropped p', im_shutdown_discarded := im_shutdown_discarded p'\<rparr>"
    using assms(2) on by (rule OnEvent_accounted)
  have same: "im_sources p' = im_sources (tel s)" "im_ring p' = im_ring (tel s)"
    by (subst p'; simp)+
  have "source \<in> set (im_sources (tel s))"
    using assms(1,3,4) by (auto simp: tel_genuine_def)
  then have "\<forall>r \<in> set new. record_genuine (tel s) r"
    using new decode_inverse(1) by (auto simp: record_genuine_def record_of_def)
  moreover have "accepted (deliver now source sample s) = accepted s @ new"
    using acc by (simp add: deliver_def on sample_accounted_def)
  moreover have "tel (deliver now source sample s) = p'"
    by (simp add: deliver_def on)
  ultimately show ?thesis
    using assms(1) by (auto simp: tel_genuine_def record_genuine_def same)
qed

lemma AddSource_effect:
  assumes "AddSource ring_new ring_add fd ifindex netns session p = Inr p'"
  obtains source regs where "source = \<lparr>src_ifindex = ifindex, src_netns_inode = netns, src_session_id = session\<rparr>"
    and "p' = p\<lparr>im_sources := im_sources p @ [source], im_ring := Some (regs @ [(fd, source)])\<rparr>"
    and "regs = (case im_ring p of None \<Rightarrow> [] | Some rs \<Rightarrow> rs)"
    and "\<not> im_started p" and "\<not> im_finished p" and "0 \<le> fd" and "ifindex \<noteq> 0"
  using assms that
  by (auto simp: AddSource_def Let_def ENOMEM_def split: option.splits if_splits)

lemma Start_effect:
  assumes "Start p = Inr p'"
  shows "p' = p\<lparr>im_started := True\<rparr>" and "im_ring p \<noteq> None" and "\<not> im_started p" and "\<not> im_finished p"
  using assms by (auto simp: Start_def split: if_splits)

lemma poll_result_effect:
  "poll_result rc p = (next, p') \<Longrightarrow> p' = p \<or> p' = p\<lparr>im_poll_error := rc\<rparr>"
  by (auto simp: poll_result_def split: if_splits)

lemma consume_result_effect:
  "consume_result rc p = (next, p') \<Longrightarrow> p' = p \<or> p' = p\<lparr>im_poll_error := rc\<rparr>"
  by (auto simp: consume_result_def split: if_splits)

lemma begin_drain_effect:
  "begin_drain now timeout p = (next, p') \<Longrightarrow>
   (next = Break \<and> p' = p) \<or> (\<exists>d. next = Again \<and> p' = p\<lparr>im_deadline_ns := d, im_abort := False\<rparr>)"
  by (auto simp: begin_drain_def Let_def split: if_splits)

lemma TelemetryTryPop_effect:
  assumes "TelemetryTryPop p = (r, p')" and "queue_ok (im_queue p)"
  obtains q where "p' = p\<lparr>im_queue := q\<rparr>" and "queue_ok q"
    and "contents (im_queue p) = (case r of Some x \<Rightarrow> [x] | None \<Rightarrow> []) @ contents q"
proof -
  obtain q where pop: "TryPop (im_queue p) = (r, q)" and p': "p' = p\<lparr>im_queue := q\<rparr>"
    using assms(1) by (auto simp: TelemetryTryPop_def split: prod.splits)
  have "queue_ok q"
    using spsc.pop_wf [OF assms(2)] by (simp add: pop)
  moreover have "contents (im_queue p) = (case r of Some x \<Rightarrow> [x] | None \<Rightarrow> []) @ contents q"
    using spsc.pop_items [OF assms(2)] by (cases "contents (im_queue p)") (auto simp: pop)
  ultimately show ?thesis using p' that by blast
qed

lemma tel_accounted_step:
  assumes "tel_step s s'" and "tel_accounted s"
  shows "tel_accounted s'"
  using assms(1)
proof cases
  case (add_source ring_new ring_add fd ifindex netns session p')
  then show ?thesis
    using assms(2) by (elim AddSource_effect) (simp add: tel_accounted_def)
next
  case (start_poller p')
  then show ?thesis
    using assms(2) Start_effect(1) [of "tel s" p'] by (simp add: tel_accounted_def)
next
  case (poller_result rc "next" p')
  then show ?thesis
    using assms(2) poll_result_effect [of rc "tel s" "next" p'] by (auto simp: tel_accounted_def)
next
  case (finish_joined timeout now "next" p')
  then show ?thesis
    using assms(2) begin_drain_effect [of now timeout "tel s" "next" p'] by (auto simp: tel_accounted_def)
next
  case (drain_result rc "next" p')
  then show ?thesis
    using assms(2) consume_result_effect [of rc "tel s" "next" p'] by (auto simp: tel_accounted_def)
next
  case (consumer_pop r p')
  have "queue_ok (im_queue (tel s))"
    using assms(2) by (simp add: tel_accounted_def)
  with consumer_pop(2) show ?thesis
    using assms(2) by (elim TelemetryTryPop_effect) (auto simp: tel_accounted_def consumer_pop(1))
next
  case (poller_event regs source now sample)
  then show ?thesis using deliver_accounted [OF assms(2)] by simp
next
  case (drain_event regs source now sample)
  then show ?thesis using deliver_accounted [OF assms(2)] by simp
qed (use assms(2) in \<open>auto simp: tel_accounted_def\<close>)

lemma tel_genuine_frame:
  assumes "tel_genuine s" and "im_sources (tel s') = im_sources (tel s)"
    and "im_ring (tel s') = im_ring (tel s)" and "accepted s' = accepted s"
  shows "tel_genuine s'"
  using assms by (simp add: tel_genuine_def record_genuine_def)

lemma tel_genuine_step:
  assumes "tel_step s s'" and "tel_genuine s" and q: "queue_ok (im_queue (tel s))"
  shows "tel_genuine s'"
  using assms(1)
proof cases
  case (add_source ring_new ring_add fd ifindex netns session p')
  from add_source(3) assms(2) show ?thesis
    by (elim AddSource_effect)
      (auto simp: add_source(1) tel_genuine_def record_genuine_def split: option.splits; blast)
next
  case (start_poller p')
  then show ?thesis
    using Start_effect(1) [of "tel s" p'] by (intro tel_genuine_frame [OF assms(2)]) auto
next
  case (poller_event regs source now sample)
  then show ?thesis using deliver_genuine [OF assms(2) q] by blast
next
  case (poller_result rc "next" p')
  then show ?thesis
    using poll_result_effect [of rc "tel s" "next" p'] by (intro tel_genuine_frame [OF assms(2)]) auto
next
  case (finish_joined timeout now "next" p')
  then show ?thesis
    using begin_drain_effect [of now timeout "tel s" "next" p'] by (intro tel_genuine_frame [OF assms(2)]) auto
next
  case (drain_event regs source now sample)
  then show ?thesis using deliver_genuine [OF assms(2) q] by blast
next
  case (drain_result rc "next" p')
  then show ?thesis
    using consume_result_effect [of rc "tel s" "next" p'] by (intro tel_genuine_frame [OF assms(2)]) auto
next
  case (consumer_pop r p')
  from consumer_pop(2) q show ?thesis
    by (elim TelemetryTryPop_effect) (auto simp: consumer_pop(1) intro!: tel_genuine_frame [OF assms(2)])
qed (intro tel_genuine_frame [OF assms(2)]; simp)+

lemma deliver_frame:
  assumes "queue_ok (im_queue (tel s))"
  shows "poller (deliver now source sample s) = poller s" and "manager (deliver now source sample s) = manager s"
    and "im_started (tel (deliver now source sample s)) = im_started (tel s)"
    and "im_finished (tel (deliver now source sample s)) = im_finished (tel s)"
    and "im_abort (tel (deliver now source sample s)) = im_abort (tel s)"
proof -
  obtain rc p' where on: "OnEvent now source (Some sample) (length sample) (tel s) = (rc, p')"
    by (cases "OnEvent now source (Some sample) (length sample) (tel s)")
  have p': "p' = (tel s)\<lparr>im_queue := im_queue p', im_decode_errors := im_decode_errors p',
      im_queue_dropped := im_queue_dropped p', im_shutdown_discarded := im_shutdown_discarded p'\<rparr>"
    using assms on by (rule OnEvent_accounted)
  have "im_started p' = im_started (tel s)" "im_finished p' = im_finished (tel s)" "im_abort p' = im_abort (tel s)"
    by (subst p'; simp)+
  then show "poller (deliver now source sample s) = poller s" and "manager (deliver now source sample s) = manager s"
    and "im_started (tel (deliver now source sample s)) = im_started (tel s)"
    and "im_finished (tel (deliver now source sample s)) = im_finished (tel s)"
    and "im_abort (tel (deliver now source sample s)) = im_abort (tel s)"
    by (simp_all add: deliver_def on)
qed

lemma tel_threads_step:
  assumes "tel_step s s'" and "tel_threads s" and q: "queue_ok (im_queue (tel s))"
  shows "tel_threads s'"
  using assms(1)
proof cases
  case (add_source ring_new ring_add fd ifindex netns session p')
  from add_source(3) assms(2) show ?thesis
    by (elim AddSource_effect) (simp add: add_source(1) tel_threads_def)
next
  case (start_poller p')
  then show ?thesis
    using assms(2) Start_effect [of "tel s" p'] by (simp add: tel_threads_def)
next
  case (poller_result rc "next" p')
  then show ?thesis
    using assms(2) poll_result_effect [of rc "tel s" "next" p'] by (auto simp: tel_threads_def)
next
  case (finish_joined timeout now "next" p')
  then show ?thesis
    using assms(2) begin_drain_effect [of now timeout "tel s" "next" p'] by (auto simp: tel_threads_def)
next
  case (drain_result rc "next" p')
  then show ?thesis
    using assms(2) consume_result_effect [of rc "tel s" "next" p'] by (auto simp: tel_threads_def)
next
  case (consumer_pop r p')
  from consumer_pop(2) q show ?thesis
    using assms(2) by (elim TelemetryTryPop_effect) (auto simp: consumer_pop(1) tel_threads_def)
qed (use assms(2) in \<open>auto simp: tel_threads_def deliver_frame [OF q]\<close>)

definition tel_new :: "tel_system \<Rightarrow> bool" where
  "tel_new s \<longleftrightarrow> (\<exists>capacity p. EbpfTelemetry capacity = Inr p \<and> s = tel_start p)"

definition tel_ok :: "tel_system \<Rightarrow> bool" where
  "tel_ok s \<longleftrightarrow> tel_accounted s \<and> tel_genuine s \<and> tel_threads s"

lemma tel_ok_new:
  assumes "tel_new s"
  shows "tel_ok s"
proof -
  obtain capacity p where p: "EbpfTelemetry capacity = Inr p" and s: "s = tel_start p"
    using assms by (auto simp: tel_new_def)
  have "queue_ok (im_queue p)" and "contents (im_queue p) = []"
    using p SpscQueue_ok by (auto simp: EbpfTelemetry_def split: sum.splits)
  with p show ?thesis
    by (auto simp: s EbpfTelemetry_def tel_start_def tel_ok_def tel_accounted_def tel_genuine_def tel_threads_def
        split: sum.splits)
qed

lemma tel_ok_step: "tel_ok s \<Longrightarrow> tel_step s s' \<Longrightarrow> tel_ok s'"
  using tel_accounted_step tel_genuine_step tel_threads_step
  by (simp add: tel_ok_def) (simp add: tel_accounted_def)

interpretation telemetry: invariant_system tel_new tel_step tel_ok
  by unfold_locales (auto intro: tel_ok_new tel_ok_step)

lemma tel_reach_invariant:
  assumes "EbpfTelemetry capacity = Inr p" and "tel_reach p s"
  shows "tel_accounted s \<and> tel_genuine s \<and> tel_threads s"
  using telemetry.reached_ok [of "tel_start p" s] assms by (auto simp: tel_new_def tel_reach_def tel_ok_def)

section \<open>The drain as one call\<close>

text \<open>
  \<open>FinishAfterDetach\<close> run by itself, with the poller joined: a turn of the drain loop is
  what the clock reads at the test, the samples libbpf delivers, and the result of
  \<open>ring_buffer__consume\<close>. \<^const>\<open>None\<close> means that the loop is still running when the
  turns are used up.
\<close>

type_synonym sample_call = "u64 \<times> Source \<times> bytes"

record drain_turn =
  turn_now :: u64
  turn_samples :: "sample_call list"
  turn_rc :: int

definition on_samples :: "sample_call list \<Rightarrow> Impl \<Rightarrow> Impl" where
  "on_samples calls p = fold (\<lambda>(now, src, b) p. snd (OnEvent now src (Some b) (length b) p)) calls p"

fun drain_loop :: "drain_turn list \<Rightarrow> Impl \<Rightarrow> Impl option" where
  "drain_loop [] p = None"
| "drain_loop (turn # turns) p =
     (if turn_now turn \<ge> im_deadline_ns p then Some p
      else case consume_result (turn_rc turn) (on_samples (turn_samples turn) p) of
        (Break, p') \<Rightarrow> Some p'
      | (Again, p') \<Rightarrow> drain_loop turns p')"

definition FinishAfterDetach :: "u64 \<Rightarrow> int \<Rightarrow> drain_turn list \<Rightarrow> Impl \<Rightarrow> (int \<times> Impl) option" where
  "FinishAfterDetach now timeout turns p =
     (if im_finished p then Some (im_poll_error p, p)
      else do {
        p' \<leftarrow> (case begin_drain now timeout (p\<lparr>im_abort := True\<rparr>) of
                 (Again, p') \<Rightarrow> drain_loop turns p'
               | (Break, p') \<Rightarrow> Some p');
        let p'' = p'\<lparr>im_abort := True, im_finished := True\<rparr>;
        Some (im_poll_error p'', p'')
      })"

text \<open>The destructor: a drain of no time, which reads no clock and takes no sample.\<close>

definition destroy_telemetry :: "Impl \<Rightarrow> Impl option" where
  "destroy_telemetry p = map_option snd (FinishAfterDetach 0 0 [] p)"

lemma destroy_telemetry_total:
  "destroy_telemetry p = Some (if im_finished p then p else p\<lparr>im_abort := True, im_finished := True\<rparr>)"
  by (simp add: destroy_telemetry_def FinishAfterDetach_def begin_drain_def)

lemma OnEvent_deadline [simp]: "im_deadline_ns (snd (OnEvent now src data n p)) = im_deadline_ns p"
  by (cases rule: OnEvent_cases [of p now src data n]) simp_all

lemma on_samples_deadline [simp]: "im_deadline_ns (on_samples calls p) = im_deadline_ns p"
  unfolding on_samples_def by (induction calls arbitrary: p) (simp_all add: split_def)

lemma consume_result_deadline: "consume_result rc p = (next, p') \<Longrightarrow> im_deadline_ns p' = im_deadline_ns p"
  using consume_result_effect [of rc p "next" p'] by auto

lemma drain_loop_returns:
  "\<exists>turn \<in> set turns. turn_now turn \<ge> im_deadline_ns p \<Longrightarrow> \<exists>p'. drain_loop turns p = Some p'"
proof (induction turns arbitrary: p)
  case Nil
  then show ?case by simp
next
  case (Cons turn turns)
  obtain nx p1 where c: "consume_result (turn_rc turn) (on_samples (turn_samples turn) p) = (nx, p1)"
    by (cases "consume_result (turn_rc turn) (on_samples (turn_samples turn) p)")
  then have "im_deadline_ns p1 = im_deadline_ns p"
    using consume_result_deadline by fastforce
  then show ?case
    using Cons.IH [of p1] Cons.prems by (cases nx) (auto simp: c)
qed

section \<open>Properties\<close>

text \<open>
  C15: No sample is lost silently, and order is kept. In every state the threads can reach,
  the records taken by the consumer are a prefix of those accepted, the rest is in the
  queue in order, and the number of samples delivered equals decode errors plus queue drops
  plus shutdown discards plus accepted records (modulo 2^64, the width of the counters).
\<close>

theorem telemetry_accounts_samples:
  assumes "EbpfTelemetry capacity = Inr p" and "tel_reach p s"
  shows "accepted s = taken s @ contents (im_queue (tel s)) \<and>
    word_of_nat (offered s) = decode_errors (Loss (tel s)) + queue_dropped (Loss (tel s)) +
      shutdown_discarded (Loss (tel s)) + word_of_nat (length (accepted s))"
  using tel_reach_invariant [OF assms] by (simp add: tel_accounted_def Loss_def)

text \<open>
  C16: Only genuine records come out. Every record the consumer takes holds a valid event
  whose interface is that of a registered source, and carries the namespace and session of
  that source.
\<close>

theorem telemetry_records_genuine:
  assumes "EbpfTelemetry capacity = Inr p" and "tel_reach p s" and "r \<in> set (taken s)"
  shows "event_valid (event r) \<and> (\<exists>src \<in> set (im_sources (tel s)).
    e_ifindex (event r) = src_ifindex src \<and> netns_inode r = src_netns_inode src \<and>
    session_id r = src_session_id src)"
  using tel_reach_invariant [OF assms(1,2)] assms(3)
  by (simp add: tel_accounted_def tel_genuine_def record_genuine_def)

text \<open>
  One producer at a time. In every reachable state, if the manager is inside the drain
  then the poller thread is not running, so the queue never has two producers; and once
  the component is finished neither of them can deliver a sample and a poller that was
  started has exited.
\<close>

theorem telemetry_single_producer:
  assumes "EbpfTelemetry capacity = Inr p" and "tel_reach p s"
  shows "\<not> (poller s = Polling \<and> manager s = Consuming) \<and>
    (im_finished (tel s) \<longrightarrow> poller s \<in> {NoThread, Exited} \<and> manager s \<noteq> Consuming \<and> im_abort (tel s))"
  using tel_reach_invariant [OF assms] by (auto simp: tel_threads_def)

text \<open>
  C17: Finishing ends. Whatever libbpf delivers and returns, \<open>FinishAfterDetach\<close> returns as
  soon as one of its clock readings reaches the deadline it set (at most a minute away);
  it leaves the component finished and aborting, so that a second call changes nothing,
  every later sample is discarded, and no source can be added nor the poller started.
\<close>

theorem FinishAfterDetach_final:
  assumes "\<not> im_finished p"
    and "\<exists>turn \<in> set turns. turn_now turn \<ge> now + word_of_int (min timeout 60000) * 1000000"
  shows "\<exists>rc p'. FinishAfterDetach now timeout turns p = Some (rc, p') \<and> im_finished p' \<and>
    rc = im_poll_error p' \<and> FinishAfterDetach now2 timeout2 turns2 p' = Some (rc, p') \<and>
    fst (OnEvent now3 src data n p') = - ECANCELED \<and> Start p' = Inl CannotStart \<and>
    AddSource ring_new ring_add fd ifindex netns session p' = Inl InvalidSource"
proof -
  obtain nx p1 where b: "begin_drain now timeout (p\<lparr>im_abort := True\<rparr>) = (nx, p1)"
    by (cases "begin_drain now timeout (p\<lparr>im_abort := True\<rparr>)")
  have "\<exists>p2. (case nx of Again \<Rightarrow> drain_loop turns p1 | Break \<Rightarrow> Some p1) = Some p2"
  proof (cases nx)
    case Again
    then have "im_deadline_ns p1 = now + word_of_int (min timeout 60000) * 1000000"
      using b by (auto simp: begin_drain_def Let_def min_def split: if_splits)
    with Again assms(2) drain_loop_returns [of turns p1] show ?thesis by simp
  qed simp
  then obtain p2 where "(case nx of Again \<Rightarrow> drain_loop turns p1 | Break \<Rightarrow> Some p1) = Some p2"
    by blast
  then have "FinishAfterDetach now timeout turns p =
      Some (im_poll_error p2, p2\<lparr>im_abort := True, im_finished := True\<rparr>)"
    using assms(1) b by (cases nx) (simp_all add: FinishAfterDetach_def)
  then show ?thesis
    by (simp add: FinishAfterDetach_def OnEvent_def Start_def AddSource_def)
qed

section \<open>A run: one source, one event, one record taken\<close>

definition good_event :: es_event where
  "good_event = zero_event\<lparr>e_abi_version := 2, e_record_size := 216, e_ifindex := 3,
     e_original_len := 42, e_hook := 1, e_link_type := 1\<rparr>"

lemma good_event_valid: "event_valid good_event"
proof -
  have "\<not> bad_header good_event \<and> \<not> bad_copy good_event \<and> \<not> bad_ports good_event"
    by code_simp
  moreover have "event_sized good_event"
    using zero_event_sized by (simp add: good_event_def event_sized_def)
  ultimately show ?thesis
    using accepted_iff_valid [of good_event] by blast
qed

definition demo_source :: Source where
  "demo_source = \<lparr>src_ifindex = 3, src_netns_inode = 11, src_session_id = 12\<rparr>"

definition demo_impl :: Impl where
  "demo_impl = \<lparr>im_queue = \<lparr>slots = [zero_record, zero_record], head = 0, tail = 0\<rparr>, im_sources = [],
     im_ring = None, im_abort = False, im_deadline_ns = 0, im_decode_errors = 0, im_queue_dropped = 0,
     im_shutdown_discarded = 0, im_poll_error = 0, im_started = False, im_finished = False\<rparr>"

lemma demo_new: "EbpfTelemetry 1 = Inr demo_impl"
  by (simp add: EbpfTelemetry_def SpscQueue_def demo_impl_def replicate_2)

lemma demo_run:
  obtains s where "tel_reach demo_impl s" and "taken s = [record_of demo_source good_event]"
    and "offered s = 1" and "poller s = Polling" and "im_sources (tel s) = [demo_source]"
proof -
  let ?s0 = "tel_start demo_impl"
  let ?p1 = "demo_impl\<lparr>im_sources := [demo_source], im_ring := Some [(7, demo_source)]\<rparr>"
  let ?p2 = "?p1\<lparr>im_started := True\<rparr>"
  let ?r = "record_of demo_source good_event"
  let ?q3 = "\<lparr>slots = [?r, zero_record], head = 1, tail = 0\<rparr>"
  let ?q4 = "\<lparr>slots = [?r, zero_record], head = 1, tail = 1\<rparr>"
  let ?s1 = "?s0\<lparr>tel := ?p1\<rparr>" and ?s2 = "?s0\<lparr>tel := ?p2, poller := LoopTest\<rparr>"
  let ?s3 = "?s0\<lparr>tel := ?p2, poller := Polling\<rparr>"
  let ?s4 = "?s3\<lparr>tel := ?p2\<lparr>im_queue := ?q3\<rparr>, offered := 1, accepted := [?r]\<rparr>"
  let ?s5 = "?s4\<lparr>tel := ?p2\<lparr>im_queue := ?q4\<rparr>, taken := [?r]\<rparr>"
  have "AddSource (\<lambda>_ _. None) (\<lambda>_ _. 0) 7 3 11 12 demo_impl = Inr ?p1"
    by (simp add: AddSource_def demo_impl_def demo_source_def Let_def)
  then have "tel_step ?s0 ?s1"
    using add_source [of ?s0 "\<lambda>_ _. None" "\<lambda>_ _. 0" 7 3 11 12 ?p1] by (simp add: tel_start_def)
  moreover have "tel_step ?s1 ?s2"
    using start_poller [of ?s1 ?p2] by (simp add: tel_start_def Start_def demo_impl_def)
  moreover have "tel_step ?s2 ?s3"
    using poller_test [of ?s2] by (simp add: demo_impl_def)
  moreover have "tel_step ?s3 ?s4"
  proof -
    have "OnEvent 0 demo_source (Some (event_bytes good_event)) (length (event_bytes good_event)) ?p2 =
        (0, ?p2\<lparr>im_queue := ?q3\<rparr>)"
      using decode_valid [OF good_event_valid]
      by (simp add: OnEvent_def demo_impl_def demo_source_def good_event_def TryPush_def Next_def record_of_def)
    then have "deliver 0 demo_source (event_bytes good_event) ?s3 = ?s4"
      by (simp add: deliver_def tel_start_def demo_impl_def contents_def indices_def)
    then show ?thesis
      using poller_event [of ?s3 "[(7, demo_source)]" demo_source 0 "event_bytes good_event"] by simp
  qed
  moreover have "tel_step ?s4 ?s5"
    using consumer_pop [of ?s4 "Some ?r" "?p2\<lparr>im_queue := ?q4\<rparr>"]
    by (simp add: TelemetryTryPop_def TryPop_def Next_def tel_start_def)
  ultimately have "tel_reach demo_impl ?s5"
    by (meson tel_init tel_next)
  then show ?thesis
    by (rule that) simp_all
qed

theorem telemetry_accounts_samples_witness:
  "\<exists>s :: tel_system. offered s = 1 \<and> accepted s = taken s @ contents (im_queue (tel s)) \<and>
    word_of_nat (offered s) = decode_errors (Loss (tel s)) + queue_dropped (Loss (tel s)) +
      shutdown_discarded (Loss (tel s)) + word_of_nat (length (accepted s))"
  by (rule demo_run) (use telemetry_accounts_samples [OF demo_new] in blast)

theorem telemetry_records_genuine_witness:
  "\<exists>(s :: tel_system) r. taken s = [r] \<and> event_valid (event r) \<and> session_id r = 12"
proof (rule demo_run)
  fix s
  assume s: "tel_reach demo_impl s" "taken s = [record_of demo_source good_event]"
    and src: "im_sources (tel s) = [demo_source]"
  then show ?thesis
    using telemetry_records_genuine [OF demo_new s(1), of "record_of demo_source good_event"]
    by (auto simp: demo_source_def)
qed

theorem telemetry_single_producer_witness:
  "\<exists>s :: tel_system. poller s = Polling \<and> manager s \<noteq> Consuming"
  by (rule demo_run) (use telemetry_single_producer [OF demo_new] in blast)

theorem FinishAfterDetach_final_witness:
  "\<exists>rc p'. FinishAfterDetach 5 100000 [\<lparr>turn_now = 60000000005, turn_samples = [], turn_rc = 1\<rparr>] (demo_impl\<lparr>im_ring := Some []\<rparr>) =
      Some (rc, p') \<and> im_finished p' \<and> Start p' = Inl CannotStart"
proof -
  have fresh: "\<not> im_finished (demo_impl\<lparr>im_ring := Some []\<rparr>)"
    by (simp add: demo_impl_def)
  have late: "\<exists>turn \<in> set [\<lparr>turn_now = 60000000005, turn_samples = [], turn_rc = 1\<rparr> :: drain_turn].
      turn_now turn \<ge> 5 + word_of_int (min 100000 60000) * 1000000"
    by simp
  show ?thesis
    using FinishAfterDetach_final [OF fresh late, of 0 0 "[]" 0 demo_source None 0
        "\<lambda>_ _. None" "\<lambda>_ _. 0" 0 0 0 0] by blast
qed

end
