(* ===== verification/Ebpf_Object.thy ===== *)
theory Ebpf_Object
  imports Tc_Observer
begin

text \<open>
  Loading the passive observer into the kernel: \<open>LoadObserver\<close> of \<open>src/EbpfObject.cpp\<close> opens
  the generated skeleton of the chosen attachment API, writes the options into the program's
  read-only data, sizes the maps, selects the directions and loads. The generated skeletons
  and libbpf are a record of parameters: the answer of every call.
\<close>

section \<open>Options and results\<close>

datatype TcApi = Legacy | Tcx

record ObjectOptions =
  oo_sample_every :: u32
  oo_snapshot_bytes :: u32
  oo_ring_buffer_bytes :: u32
  oo_max_flows :: u32
  oo_select_l4_proto :: u8
  oo_classify :: bool
  oo_flow_enabled :: bool
  oo_ingress :: bool
  oo_egress :: bool

definition ObjectOptions_new :: ObjectOptions where
  "ObjectOptions_new = \<lparr>oo_sample_every = 128, oo_snapshot_bytes = 0, oo_ring_buffer_bytes = 8 * 1024 * 1024,
     oo_max_flows = 4096, oo_select_l4_proto = 0, oo_classify = True, oo_flow_enabled = False,
     oo_ingress = True, oo_egress = True\<rparr>"

text \<open>A skeleton between opening and loading: read-only data, map sizes, selected programs.\<close>

record skeleton =
  rodata :: observer_config
  events_entries :: u32
  flows_entries :: u32
  autoload_ingress :: bool
  autoload_egress :: bool

text \<open>
  \<open>sk_open\<close> gives a skeleton or the \<open>errno\<close> left with a null pointer; the setters and
  \<open>sk_load\<close> answer libbpf's return code for the skeleton as it is then.
\<close>

record skeleton_api =
  sk_open :: "int + skeleton"
  set_events_entries :: "skeleton \<Rightarrow> int"
  set_flows_entries :: "skeleton \<Rightarrow> int"
  set_autoload_ingress :: "skeleton \<Rightarrow> int"
  set_autoload_egress :: "skeleton \<Rightarrow> int"
  sk_load :: "skeleton \<Rightarrow> int"
  map_fds :: "skeleton \<Rightarrow> int \<times> int \<times> int"  \<comment> \<open>events, counters, flows\<close>

record LoadedObserver =
  owner :: skeleton
  lo_ingress :: bool       \<comment> \<open>the program pointer is not null\<close>
  lo_egress :: bool
  events_fd :: int
  counters_fd :: int
  flows_fd :: int

datatype object_error = ObjectSystemError int string | NoDirection | ApiNotBuilt

definition E_NOMEM :: int where "E_NOMEM = 12"

section \<open>Loading\<close>

definition Check :: "int \<Rightarrow> string \<Rightarrow> 'a \<Rightarrow> object_error + 'a" where
  "Check rc what x = (if rc \<noteq> 0 then Inl (ObjectSystemError (- rc) what) else Inr x)"

definition write_rodata :: "ObjectOptions \<Rightarrow> skeleton \<Rightarrow> skeleton" where
  "write_rodata o1 s = s\<lparr>rodata := \<lparr>sample_every = oo_sample_every o1, snapshot_bytes = oo_snapshot_bytes o1,
     classify = of_bool (oo_classify o1), flow_enabled = of_bool (oo_flow_enabled o1),
     select_l4_proto = oo_select_l4_proto o1\<rparr>\<rparr>"

definition LoadTyped :: "skeleton_api \<Rightarrow> ObjectOptions \<Rightarrow> object_error + LoadedObserver" where
  "LoadTyped api o1 =
     andThen (case sk_open api of
         Inl errno \<Rightarrow> Inl (ObjectSystemError (if errno \<noteq> 0 then errno else E_NOMEM) ''open observer skeleton'')
       | Inr s \<Rightarrow> Inr (write_rodata o1 s)) (\<lambda>s.
     andThen (let s = s\<lparr>events_entries := oo_ring_buffer_bytes o1\<rparr>
              in Check (set_events_entries api s) ''resize ring'' s) (\<lambda>s.
     andThen (let s = s\<lparr>flows_entries := (if oo_flow_enabled o1 then oo_max_flows o1 else 1)\<rparr>
              in Check (set_flows_entries api s) ''resize flows'' s) (\<lambda>s.
     andThen (let s = s\<lparr>autoload_ingress := oo_ingress o1\<rparr>
              in Check (set_autoload_ingress api s) ''select ingress'' s) (\<lambda>s.
     andThen (let s = s\<lparr>autoload_egress := oo_egress o1\<rparr>
              in Check (set_autoload_egress api s) ''select egress'' s) (\<lambda>s.
     andThen (Check (sk_load api s) ''load observer; inspect libbpf/verifier diagnostics'' s) (\<lambda>s.
       let fds = map_fds api s
       in Inr \<lparr>owner = s, lo_ingress = oo_ingress o1, lo_egress = oo_egress o1,
               events_fd = fst fds, counters_fd = fst (snd fds), flows_fd = snd (snd fds)\<rparr>))))))"

text \<open>\<open>tcx\<close> is \<^const>\<open>None\<close> in a build without \<open>ES_HAS_TCX\<close>.\<close>

definition LoadObserver ::
  "skeleton_api \<Rightarrow> skeleton_api option \<Rightarrow> ObjectOptions \<Rightarrow> TcApi \<Rightarrow> object_error + LoadedObserver" where
  "LoadObserver legacy tcx o1 api =
     (if \<not> oo_ingress o1 \<and> \<not> oo_egress o1 then Inl NoDirection
      else if api = Legacy then LoadTyped legacy o1
      else case tcx of None \<Rightarrow> Inl ApiNotBuilt | Some t \<Rightarrow> LoadTyped t o1)"

section \<open>Lemmas\<close>

text \<open>The skeleton as the kernel gets it.\<close>

definition configured :: "ObjectOptions \<Rightarrow> skeleton \<Rightarrow> skeleton" where
  "configured o1 s = (write_rodata o1 s)\<lparr>events_entries := oo_ring_buffer_bytes o1,
     flows_entries := (if oo_flow_enabled o1 then oo_max_flows o1 else 1),
     autoload_ingress := oo_ingress o1, autoload_egress := oo_egress o1\<rparr>"

lemma Check_Inr: "Check rc what x = Inr y \<longleftrightarrow> rc = 0 \<and> y = x"
  by (auto simp: Check_def)

lemma Check_Inl: "Check rc what x = Inl e \<longleftrightarrow> rc \<noteq> 0 \<and> e = ObjectSystemError (- rc) what"
  by (auto simp: Check_def)

lemma andThen_Inl: "andThen r f = Inl e \<longleftrightarrow> r = Inl e \<or> (\<exists>x. r = Inr x \<and> f x = Inl e)"
  by (auto simp: andThen_def split: sum.split)

lemma LoadTyped_Inr:
  assumes "LoadTyped api o1 = Inr l"
  obtains s where "sk_open api = Inr s" and "owner l = configured o1 s" and "sk_load api (configured o1 s) = 0"
    and "lo_ingress l = oo_ingress o1" and "lo_egress l = oo_egress o1"
    and "(events_fd l, counters_fd l, flows_fd l) = map_fds api (owner l)"
  using assms
  by (auto simp: LoadTyped_def andThen_Inr Check_Inr Let_def configured_def split: sum.splits prod.splits)

lemma LoadTyped_Inl:
  assumes "LoadTyped api o1 = Inl e"
  obtains code what where "e = ObjectSystemError code what" and "code \<noteq> 0"
  using assms
  by (auto simp: LoadTyped_def andThen_Inl Check_Inl Let_def E_NOMEM_def split: sum.splits prod.splits if_splits)

lemma LoadObserver_sampling: "LoadObserver legacy tcx o1 api = Inr l \<Longrightarrow> sample_every (rodata (owner l)) = oo_sample_every o1"
  by (auto simp: LoadObserver_def configured_def write_rodata_def elim!: LoadTyped_Inr split: if_splits option.splits)

section \<open>Property\<close>

text \<open>
  Loading honours the options or fails visibly. A loaded observer was loaded by the
  kernel with exactly the options asked for: sampling, snapshot, classification, flow and
  protocol settings in its read-only data, the ring and flow maps sized (one flow entry when
  flows are off), and the programs of exactly the selected directions, of which there is at
  least one. Otherwise the error says why: no direction selected, an API that was not built,
  or a system error with a non-zero code, the latter only for a valid request.
\<close>

theorem LoadObserver_honours_options:
  "case LoadObserver legacy tcx o1 api of
     Inr l \<Rightarrow> rodata (owner l) = \<lparr>sample_every = oo_sample_every o1, snapshot_bytes = oo_snapshot_bytes o1,
         classify = of_bool (oo_classify o1), flow_enabled = of_bool (oo_flow_enabled o1),
         select_l4_proto = oo_select_l4_proto o1\<rparr> \<and>
       events_entries (owner l) = oo_ring_buffer_bytes o1 \<and>
       flows_entries (owner l) = (if oo_flow_enabled o1 then oo_max_flows o1 else 1) \<and>
       lo_ingress l = oo_ingress o1 \<and> autoload_ingress (owner l) = oo_ingress o1 \<and>
       lo_egress l = oo_egress o1 \<and> autoload_egress (owner l) = oo_egress o1 \<and>
       (oo_ingress o1 \<or> oo_egress o1) \<and>
       (case api of Legacy \<Rightarrow> sk_load legacy (owner l) = 0 | Tcx \<Rightarrow> \<exists>t. tcx = Some t \<and> sk_load t (owner l) = 0)
   | Inl NoDirection \<Rightarrow> \<not> oo_ingress o1 \<and> \<not> oo_egress o1
   | Inl ApiNotBuilt \<Rightarrow> api = Tcx \<and> tcx = None
   | Inl (ObjectSystemError code what) \<Rightarrow> code \<noteq> 0 \<and> (oo_ingress o1 \<or> oo_egress o1) \<and> (api = Legacy \<or> (\<exists>t. tcx = Some t))"
proof -
  have typed: "case LoadTyped sk o1 of
      Inr l \<Rightarrow> owner l = configured o1 (THE s. sk_open sk = Inr s) \<and> sk_load sk (owner l) = 0 \<and>
        lo_ingress l = oo_ingress o1 \<and> lo_egress l = oo_egress o1
    | Inl e \<Rightarrow> (\<exists>code what. e = ObjectSystemError code what \<and> code \<noteq> 0)" for sk
    by (auto elim: LoadTyped_Inr LoadTyped_Inl split: sum.split)
  note fields = configured_def write_rodata_def
  show ?thesis
  proof (cases "oo_ingress o1 \<or> oo_egress o1")
    case False
    then show ?thesis by (simp add: LoadObserver_def)
  next
    case dir: True
    show ?thesis
    proof (cases api)
      case Legacy
      with dir typed [of legacy] show ?thesis
        by (auto simp: LoadObserver_def fields split: sum.split)
    next
      case Tcx
      show ?thesis
      proof (cases tcx)
        case None
        with dir Tcx show ?thesis by (simp add: LoadObserver_def)
      next
        case (Some t)
        with dir Tcx typed [of t] show ?thesis
          by (auto simp: LoadObserver_def fields split: sum.split)
      qed
    qed
  qed
qed

end
