(* ===== verification/Telemetry_Pipeline.thy ===== *)
theory Telemetry_Pipeline
  imports Observer_Counters Ebpf_Telemetry Ebpf_Object
begin

text \<open>
  The telemetry path from end to end: the events a loaded observer submits to its ring
  buffer, delivered to \<open>OnEvent\<close> one after the other, and what the consumer's queue then
  holds. The lemmas here carry one event and one packet; the property is in the root theory.
\<close>

section \<open>Delivering events\<close>

definition live :: "Impl \<Rightarrow> bool" where
  "live p \<longleftrightarrow> queue_ok (im_queue p) \<and> \<not> im_abort p \<and> im_deadline_ns p = 0"

lemma OnEvent_valid_event:
  fixes now :: u64
  assumes "live p" and "event_valid e" and "e_ifindex e = src_ifindex src"
  defines "p' \<equiv> snd (OnEvent now src (Some (event_bytes e)) (length (event_bytes e)) p)"
    and "full \<equiv> length (contents (im_queue p)) = capacity_of (im_queue p)"
  shows "live p'" and "capacity_of (im_queue p') = capacity_of (im_queue p)"
    and "contents (im_queue p') = contents (im_queue p) @ (if full then [] else [record_of src e])"
    and "im_queue_dropped p' = im_queue_dropped p + of_bool full"
    and "im_decode_errors p' = im_decode_errors p"
    and "im_shutdown_discarded p' = im_shutdown_discarded p"
proof -
  let ?push = "TryPush (im_queue p) (record_of src e)"
  have q: "queue_ok (im_queue p)" using assms(1) by (simp add: live_def)
  have accepts: "fst ?push \<longleftrightarrow> \<not> full"
    using spsc.push_accepts [OF q, of "record_of src e"] spsc.items_room [OF q] by (auto simp: full_def)
  have "p' = (if fst ?push then p\<lparr>im_queue := snd ?push\<rparr> else p\<lparr>im_queue_dropped := im_queue_dropped p + 1\<rparr>)"
    using assms(1,3) decode_valid [OF assms(2)]
    by (simp add: p'_def OnEvent_def live_def record_of_def case_prod_beta Let_def)
  then show "live p'" and "capacity_of (im_queue p') = capacity_of (im_queue p)"
    and "contents (im_queue p') = contents (im_queue p) @ (if full then [] else [record_of src e])"
    and "im_queue_dropped p' = im_queue_dropped p + of_bool full"
    and "im_decode_errors p' = im_decode_errors p" and "im_shutdown_discarded p' = im_shutdown_discarded p"
    using assms(1) spsc.push_wf [OF q, of "record_of src e"] spsc.push_items [OF q, of "record_of src e"]
      spsc.push_room [OF q, of "record_of src e"] accepts
    by (auto simp: live_def)
qed

lemma on_samples_Cons: "on_samples ((now, src, b) # calls) p =
    on_samples calls (snd (OnEvent now src (Some b) (length b) p))"
  by (simp add: on_samples_def)

lemma on_samples_events:
  assumes "live p" and "\<forall>e \<in> set es. event_valid e \<and> e_ifindex e = src_ifindex src"
    and "map snd calls = map (\<lambda>e. (src, event_bytes e)) es"
  defines "free \<equiv> capacity_of (im_queue p) - length (contents (im_queue p))"
  shows "contents (im_queue (on_samples calls p)) = contents (im_queue p) @ map (record_of src) (take free es) \<and>
    im_queue_dropped (on_samples calls p) = im_queue_dropped p + word_of_nat (length es - free) \<and>
    im_decode_errors (on_samples calls p) = im_decode_errors p \<and>
    im_shutdown_discarded (on_samples calls p) = im_shutdown_discarded p"
  unfolding free_def using assms(1-3)
proof (induction es arbitrary: calls p)
  case Nil
  then show ?case by (simp add: on_samples_def)
next
  case (Cons e es)
  from Cons.prems(3) obtain now rest where calls: "calls = (now, src, event_bytes e) # rest"
    and rest: "map snd rest = map (\<lambda>e. (src, event_bytes e)) es"
    by (cases calls) auto
  define p1 where "p1 = snd (OnEvent now src (Some (event_bytes e)) (length (event_bytes e)) p)"
  let ?len = "length (contents (im_queue p))" and ?cap = "capacity_of (im_queue p)"
  have "event_valid e" and "e_ifindex e = src_ifindex src" using Cons.prems(2) by simp_all
  note one = OnEvent_valid_event [OF Cons.prems(1) this, of now, folded p1_def]
  note IH = Cons.IH [OF one(1) _ rest]
  have "?len \<le> ?cap"
    using Cons.prems(1) spsc.items_room by (auto simp: live_def)
  then consider "?len = ?cap" | n where "?cap - ?len = Suc n" "?cap - Suc ?len = n" "?len \<noteq> ?cap"
    by (cases "?cap - ?len") auto
  then show ?case
    unfolding calls on_samples_Cons p1_def [symmetric]
    by cases (use IH Cons.prems(2) in \<open>simp_all add: one\<close>)
qed

text \<open>A fresh component with room for \<open>capacity\<close> records keeps exactly the first ones.\<close>

lemma fresh_telemetry:
  assumes "EbpfTelemetry capacity = Inr p" and "\<forall>e \<in> set es. event_valid e \<and> e_ifindex e = src_ifindex src"
    and "map snd calls = map (\<lambda>e. (src, event_bytes e)) es"
  shows "contents (im_queue (on_samples calls p)) = map (record_of src) (take (unat capacity) es) \<and>
    Loss (on_samples calls p) = \<lparr>decode_errors = 0,
      queue_dropped = word_of_nat (length es - unat capacity), shutdown_discarded = 0,
      poll_error = im_poll_error (on_samples calls p)\<rparr>"
proof -
  have "live p" "contents (im_queue p) = []" "capacity_of (im_queue p) = unat capacity"
    "im_decode_errors p = 0" "im_queue_dropped p = 0" "im_shutdown_discarded p = 0"
    using assms(1) SpscQueue_ok by (auto simp: EbpfTelemetry_def live_def split: sum.splits)
  then show ?thesis
    using on_samples_events [OF _ assms(2,3), of p] by (simp add: Loss_def)
qed

section \<open>Events of a run\<close>

lemma observe_run_events_valid:
  assumes "kernels_ok xs" and "\<forall>a \<in> set xs. skb_ifindex (fst (snd a)) = i" and "i \<noteq> 0"
    and "observe_run cfg xs observer_start = Some st'"
  shows "\<forall>e \<in> set (events st'). event_valid e \<and> e_ifindex e = i"
proof -
  let ?I = "\<lambda>(ys :: arrival list) st. (\<forall>a \<in> set ys. skb_ifindex (fst (snd a)) = i) \<longrightarrow>
    (\<forall>e \<in> set (events st). event_valid e \<and> e_ifindex e = i)"
  have "?I ([] @ xs) st'"
  proof (rule observe_run_induct [where I = ?I and E = env_ok, OF _ assms(1,4)])
    fix ys env skb dir st v st1
    assume I: "?I ys st" and env: "env_ok env" and obs: "es_observe env cfg skb dir st = Some (v, st1)"
    show "?I (ys @ [(env, skb, dir)]) st1"
      by (rule es_observe_result [OF env, of cfg skb dir st]) (use I obs assms(3) in auto)
  qed (simp add: observer_start_def)
  then show ?thesis using assms(2) by simp
qed

lemma events_by_direction:
  assumes "\<forall>e \<in> set (events st). event_valid e"
  shows "length (events st) = (\<Sum>dir\<in>UNIV. length (events_of dir st))"
proof -
  have "e_direction e = direction_code ES_EGRESS \<longleftrightarrow> e_direction e \<noteq> direction_code ES_INGRESS"
    if "e \<in> set (events st)" for e
    using that assms unat_less_2 [of "e_direction e"] by (auto simp: event_valid_def)
  then have "events_of ES_EGRESS st = filter (\<lambda>e. e_direction e \<noteq> direction_code ES_INGRESS) (events st)"
    unfolding events_of_def by (intro filter_cong) auto
  then show ?thesis
    by (simp add: sum_es_direction events_of_def sum_length_filter_compl)
qed

end
