(* ===== verification/Active_Policy.thy ===== *)
theory Active_Policy
  imports Observer_Events
begin

text \<open>
  The active traffic-control program of \<open>bpf/elephantshrew_active_tc.bpf.c\<close>, with the rule
  structures of \<open>bpf/elephantshrew_policy_shared.h\<close>: one packet, one lookup of a rule (by
  its exact flow, else the default), one verdict. The rule map in force, the helpers'
  answers and the redirect helpers are parameters; what the program does is its verdict,
  its counters and the interfaces it asked the kernel to clone or redirect the packet to.
\<close>

section \<open>Rules\<close>

record es_policy_key =
  pk_flow :: es_flow_key
  pk_kind :: u32
  pk_reserved :: u32

record es_rule =
  rule_action :: u32
  rule_out_ifindex :: u32
  rule_generation :: u64

definition ES_POLICY_NEXT :: u32 where "ES_POLICY_NEXT = 0"

definition ES_POLICY_DROP :: u32 where "ES_POLICY_DROP = 1"

definition ES_POLICY_MIRROR :: u32 where "ES_POLICY_MIRROR = 2"

definition ES_POLICY_REDIRECT :: u32 where "ES_POLICY_REDIRECT = 3"

type_synonym rule_map = "es_policy_key \<Rightarrow> es_rule option"

definition zero_key :: es_policy_key where
  "zero_key = \<lparr>pk_flow = \<lparr>k_tuple = es_tuple_zero, k_ifindex = 0, k_direction = 0,
     k_reserved = [0, 0, 0]\<rparr>, pk_kind = 0, pk_reserved = 0\<rparr>"

section \<open>The kernel's answers and the program's effects\<close>

record policy_env =
  active_rules :: "rule_map option"           \<comment> \<open>\<open>bpf_map_lookup_elem(&active_rules, &zero)\<close>\<close>
  policy_counters_found :: bool
  policy_load_bytes :: "u32 \<Rightarrow> bytes option"  \<comment> \<open>\<open>bpf_skb_load_bytes(skb, 0, bytes, cap)\<close>\<close>
  clone_redirect :: "u32 \<Rightarrow> int"
  redirect :: "u32 \<Rightarrow> int"

datatype effect = Clone u32 | Redirect u32

record policy_run =
  verdict :: int
  policy_counters :: es_counters
  effects :: "effect list"

definition count1 :: "es_counter_id \<Rightarrow> es_counters \<Rightarrow> es_counters" where
  "count1 c s = s(c := s c + 1)"

definition leave :: "int \<Rightarrow> es_counters \<Rightarrow> policy_run" where
  "leave v s = \<lparr>verdict = v, policy_counters = s, effects = []\<rparr>"

section \<open>The program\<close>

text \<open>Lines 42 to 47: the status of the packet and its tuple, zero where nothing was parsed.\<close>

definition policy_parse :: "policy_env \<Rightarrow> sk_buff \<Rightarrow> (es_parse_status \<times> es_tuple) option" where
  "policy_parse env skb =
     (let cap = (if skb_len skb > ES_PARSE_BYTES then ES_PARSE_BYTES else skb_len skb)
      in case (if cap \<noteq> 0 then policy_load_bytes env cap else None) of
           None \<Rightarrow> Some (ES_PARSE_TRUNCATED, es_tuple_zero)
         | Some xs \<Rightarrow> es_parse (blit (replicate 128 0) xs) cap (skb_len skb)
             (skb_vlan_present skb \<noteq> 0) (ucast (skb_vlan_tci skb)))"

text \<open>Lines 48 to 58: the rule for the packet.\<close>

definition exact_key :: "sk_buff \<Rightarrow> es_tuple \<Rightarrow> es_policy_key" where
  "exact_key skb t = zero_key\<lparr>pk_kind := 1, pk_flow := \<lparr>k_tuple = t, k_ifindex = skb_ifindex skb,
     k_direction = direction_code ES_INGRESS, k_reserved = [0, 0, 0]\<rparr>\<rparr>"

definition select_rule :: "rule_map \<Rightarrow> sk_buff \<Rightarrow> es_parse_status \<Rightarrow> es_tuple \<Rightarrow> es_rule option" where
  "select_rule rules skb status t =
     (let r = (if status = ES_PARSE_OK \<and> has_flag (t_flags t) ES_T_PORTS_VALID
               then rules (exact_key skb t) else None)
      in case r of None \<Rightarrow> rules zero_key | Some r \<Rightarrow> Some r)"

text \<open>Lines 59 to 81: what the rule does.\<close>

definition apply_rule :: "policy_env \<Rightarrow> sk_buff \<Rightarrow> es_rule option \<Rightarrow> es_counters \<Rightarrow> policy_run" where
  "apply_rule env skb rule s = (case rule of
     None \<Rightarrow> leave ES_TC_NEXT s
   | Some selected \<Rightarrow>
       if rule_action selected = ES_POLICY_NEXT then leave ES_TC_NEXT s
       else if rule_action selected = ES_POLICY_DROP then leave ES_TC_DROP (count1 ES_C_POLICY_DROP s)
       else if rule_out_ifindex selected = 0 \<or> rule_out_ifindex selected = skb_ifindex skb then
         leave ES_TC_DROP (count1 ES_C_POLICY_DROP s)
       else if rule_action selected = ES_POLICY_MIRROR then
         let s = count1 ES_C_MIRROR_ATTEMPT s;
             s = (if clone_redirect env (rule_out_ifindex selected) < 0
                  then count1 ES_C_MIRROR_ERROR s else s)
         in \<lparr>verdict = ES_TC_NEXT, policy_counters = s, effects = [Clone (rule_out_ifindex selected)]\<rparr>
       else if rule_action selected = ES_POLICY_REDIRECT then
         \<lparr>verdict = redirect env (rule_out_ifindex selected),
          policy_counters = count1 ES_C_REDIRECT_ATTEMPT s,
          effects = [Redirect (rule_out_ifindex selected)]\<rparr>
       else leave ES_TC_DROP s)"

definition es_active_ingress :: "policy_env \<Rightarrow> sk_buff \<Rightarrow> es_counters \<Rightarrow> policy_run option" where
  "es_active_ingress env skb s = (case active_rules env of
     None \<Rightarrow> Some (leave ES_TC_NEXT s)
   | Some rules \<Rightarrow>
       if \<not> policy_counters_found env then Some (leave ES_TC_NEXT s)
       else do {
         (status, t) \<leftarrow> policy_parse env skb;
         Some (apply_rule env skb (select_rule rules skb status t) s)
       })"

section \<open>Facts\<close>

definition policy_env_ok :: "policy_env \<Rightarrow> bool" where
  "policy_env_ok env \<longleftrightarrow> (\<forall>n xs. policy_load_bytes env n = Some xs \<longrightarrow> length xs = unat n)"

lemma policy_parse_returns:
  assumes "policy_env_ok env"
  obtains status t where "policy_parse env skb = Some (status, t)" and "event_tuple_ok t"
    and "status = ES_PARSE_TRUNCATED \<and> t = es_tuple_zero \<or> result_ok (status, t)"
proof -
  let ?cap = "if skb_len skb > ES_PARSE_BYTES then ES_PARSE_BYTES else skb_len skb"
  let ?xs = "if ?cap \<noteq> 0 then policy_load_bytes env ?cap else None"
  show ?thesis
  proof (cases ?xs)
    case None
    then show ?thesis
      using that [of ES_PARSE_TRUNCATED es_tuple_zero] by (simp add: policy_parse_def event_tuple_zero Let_def)
  next
    case (Some xs)
    then have "length (blit (replicate 128 0) xs) = 128"
      using assms by (auto simp: policy_env_ok_def blit_def ES_PARSE_BYTES_def word_le_nat_alt not_less
          split: if_splits)
    then have "unat (parse_window ?cap (skb_len skb)) \<le> length (blit (replicate 128 0) xs)"
      by (simp add: unat_parse_window)
    then show ?thesis
      using Some that
      by (elim es_parse_returns [of _ _ _ "skb_vlan_present skb \<noteq> 0" "ucast (skb_vlan_tci skb)"])
        (auto simp: policy_parse_def Let_def intro: result_ok_event_tuple)
  qed
qed

lemma active_ingress_returns:
  assumes "policy_env_ok env"
  obtains r where "es_active_ingress env skb s = Some r"
proof (cases "active_rules env")
  case None
  then show ?thesis using that by (simp add: es_active_ingress_def)
next
  case (Some rules)
  obtain status t where "policy_parse env skb = Some (status, t)"
    using assms by (rule policy_parse_returns)
  with Some show ?thesis
    using that by (cases "policy_counters_found env") (simp_all add: es_active_ingress_def)
qed

text \<open>What an effect of a rule can be, and which counter goes with it.\<close>

lemma apply_rule_cases:
  obtains (passed) "apply_rule env skb rule s = leave ES_TC_NEXT s"
      and "rule = None \<or> (\<exists>r. rule = Some r \<and> rule_action r = ES_POLICY_NEXT)"
  | (dropped) r where "rule = Some r" and "rule_action r \<noteq> ES_POLICY_NEXT"
      and "rule_action r = ES_POLICY_DROP \<or> rule_out_ifindex r = 0 \<or> rule_out_ifindex r = skb_ifindex skb"
      and "apply_rule env skb rule s = leave ES_TC_DROP (count1 ES_C_POLICY_DROP s)"
  | (unknown) r where "rule = Some r" and "rule_action r \<notin> {ES_POLICY_NEXT, ES_POLICY_DROP, ES_POLICY_MIRROR, ES_POLICY_REDIRECT}"
      and "apply_rule env skb rule s = leave ES_TC_DROP s"
  | (mirrored) r where "rule = Some r" and "rule_action r = ES_POLICY_MIRROR"
      and "rule_out_ifindex r \<noteq> 0" and "rule_out_ifindex r \<noteq> skb_ifindex skb"
      and "verdict (apply_rule env skb rule s) = ES_TC_NEXT"
      and "effects (apply_rule env skb rule s) = [Clone (rule_out_ifindex r)]"
      and "policy_counters (apply_rule env skb rule s) ES_C_POLICY_DROP = s ES_C_POLICY_DROP"
  | (redirected) r where "rule = Some r" and "rule_action r = ES_POLICY_REDIRECT"
      and "rule_out_ifindex r \<noteq> 0" and "rule_out_ifindex r \<noteq> skb_ifindex skb"
      and "verdict (apply_rule env skb rule s) = redirect env (rule_out_ifindex r)"
      and "effects (apply_rule env skb rule s) = [Redirect (rule_out_ifindex r)]"
      and "policy_counters (apply_rule env skb rule s) ES_C_POLICY_DROP = s ES_C_POLICY_DROP"
proof (cases rule)
  case None
  then show ?thesis by (intro passed) (simp_all add: apply_rule_def)
next
  case (Some r)
  consider "rule_action r = ES_POLICY_NEXT" | "rule_action r = ES_POLICY_DROP"
    | "rule_action r \<notin> {ES_POLICY_NEXT, ES_POLICY_DROP}"
      "rule_out_ifindex r = 0 \<or> rule_out_ifindex r = skb_ifindex skb"
    | "rule_action r \<notin> {ES_POLICY_NEXT, ES_POLICY_DROP}" "rule_action r = ES_POLICY_MIRROR"
      "rule_out_ifindex r \<noteq> 0" "rule_out_ifindex r \<noteq> skb_ifindex skb"
    | "rule_action r \<notin> {ES_POLICY_NEXT, ES_POLICY_DROP, ES_POLICY_MIRROR}" "rule_action r = ES_POLICY_REDIRECT"
      "rule_out_ifindex r \<noteq> 0" "rule_out_ifindex r \<noteq> skb_ifindex skb"
    | "rule_action r \<notin> {ES_POLICY_NEXT, ES_POLICY_DROP, ES_POLICY_MIRROR, ES_POLICY_REDIRECT}"
      "rule_out_ifindex r \<noteq> 0" "rule_out_ifindex r \<noteq> skb_ifindex skb"
    by blast
  then show ?thesis
  proof cases
    case 1
    with Some show ?thesis by (intro passed) (simp_all add: apply_rule_def)
  next
    case 2
    with Some show ?thesis
      by (intro dropped [of r]) (simp_all add: apply_rule_def ES_POLICY_NEXT_def ES_POLICY_DROP_def)
  next
    case 3
    with Some show ?thesis by (intro dropped [of r]) (auto simp: apply_rule_def)
  next
    case 4
    with Some show ?thesis
      by (intro mirrored [of r]) (simp_all add: apply_rule_def Let_def count1_def)
  next
    case 5
    with Some show ?thesis
      by (intro redirected [of r]) (simp_all add: apply_rule_def Let_def count1_def)
  next
    case 6
    with Some show ?thesis by (intro unknown [of r]) (simp_all add: apply_rule_def)
  qed
qed

lemma apply_rule_effects:
  "(effects (apply_rule env skb rule s) = [] \<and> verdict (apply_rule env skb rule s) \<in> {ES_TC_NEXT, ES_TC_DROP}) \<or>
   (\<exists>i. i \<noteq> 0 \<and> i \<noteq> skb_ifindex skb \<and>
      (effects (apply_rule env skb rule s) = [Clone i] \<and> verdict (apply_rule env skb rule s) = ES_TC_NEXT \<or>
       effects (apply_rule env skb rule s) = [Redirect i] \<and> verdict (apply_rule env skb rule s) = redirect env i))"
  by (rule apply_rule_cases [of env skb rule s]) (auto simp: leave_def)

section \<open>Properties\<close>

text \<open>
  C18: The active program's verdicts. It returns for every packet, rule map and kernel
  answer (the load helper copying what it was asked); it asks for at most one clone or
  redirect, never to interface 0 nor back to the interface the packet came in on; a clone
  always lets the packet continue, a redirect returns the kernel's verdict, and without
  either the packet continues or is dropped. With no rule map in force it continues.
\<close>

theorem active_ingress_verdicts:
  assumes "policy_env_ok env"
  shows "\<exists>r. es_active_ingress env skb s = Some r \<and>
    (active_rules env = None \<longrightarrow> verdict r = ES_TC_NEXT) \<and>
    (effects r = [] \<and> verdict r \<in> {ES_TC_NEXT, ES_TC_DROP} \<or>
     (\<exists>i. i \<noteq> 0 \<and> i \<noteq> skb_ifindex skb \<and>
        (effects r = [Clone i] \<and> verdict r = ES_TC_NEXT \<or>
         effects r = [Redirect i] \<and> verdict r = redirect env i)))"
proof (cases "active_rules env")
  case None
  then show ?thesis by (simp add: es_active_ingress_def leave_def)
next
  case (Some rules)
  obtain status t where "policy_parse env skb = Some (status, t)"
    using assms by (rule policy_parse_returns)
  with Some show ?thesis
    using apply_rule_effects [of env skb "select_rule rules skb status t" s]
    by (cases "policy_counters_found env") (simp_all add: es_active_ingress_def leave_def)
qed

text \<open>
  Which rule governs a packet. If the packet parsed to a TCP or UDP tuple with ports
  and the map in force has a rule for its exact flow, that rule decides whatever the
  default is; otherwise (no such rule, a fragment, another protocol, a truncated or
  malformed packet) only the default rule does: two maps with the same default and no rule
  for the packet's flow act alike.
\<close>

theorem active_ingress_rule_choice:
  assumes "policy_parse env skb = Some (status, t)" and "policy_counters_found env"
  shows "es_active_ingress (env\<lparr>active_rules := Some rules\<rparr>) skb s = Some (apply_rule env skb
      (if status = ES_PARSE_OK \<and> has_flag (t_flags t) ES_T_PORTS_VALID \<and> rules (exact_key skb t) \<noteq> None
       then rules (exact_key skb t) else rules zero_key) s)"
proof -
  have "policy_load_bytes (env\<lparr>active_rules := Some rules\<rparr>) = policy_load_bytes env"
    by simp
  then have "policy_parse (env\<lparr>active_rules := Some rules\<rparr>) skb = Some (status, t)"
    using assms(1) by (simp only: policy_parse_def)
  moreover have "apply_rule (env\<lparr>active_rules := Some rules\<rparr>) skb r s = apply_rule env skb r s" for r
    by (simp add: apply_rule_def split: option.split)
  ultimately show ?thesis
    using assms(2) by (auto simp: es_active_ingress_def select_rule_def Let_def split: option.split)
qed

section \<open>A kernel with one rule\<close>

definition mirror_env :: policy_env where
  "mirror_env = \<lparr>active_rules = Some [zero_key \<mapsto> \<lparr>rule_action = ES_POLICY_MIRROR,
       rule_out_ifindex = 9, rule_generation = 1\<rparr>],
     policy_counters_found = True,
     policy_load_bytes = (\<lambda>n. if unat n \<le> length udp_frame then Some (take (unat n) udp_frame) else None),
     clone_redirect = (\<lambda>_. 0), redirect = (\<lambda>_. ES_TC_REDIRECT)\<rparr>"

lemma mirror_env_ok: "policy_env_ok mirror_env"
  by (auto simp: policy_env_ok_def mirror_env_def)

theorem active_ingress_verdicts_witness:
  "\<exists>r. es_active_ingress mirror_env udp_skb (\<lambda>_. 0) = Some r \<and> effects r = [Clone 9] \<and>
    (9 :: u32) \<noteq> skb_ifindex udp_skb \<and> verdict r = ES_TC_NEXT"
proof -
  have "map_option effects (es_active_ingress mirror_env udp_skb (\<lambda>_. 0)) = Some [Clone 9]"
    by code_simp
  then show ?thesis
    using active_ingress_verdicts [OF mirror_env_ok, of udp_skb "\<lambda>_. 0"] by auto
qed

theorem active_ingress_rule_choice_witness:
  "\<exists>t. policy_parse mirror_env udp_skb = Some (ES_PARSE_OK, t) \<and>
    es_active_ingress (mirror_env\<lparr>active_rules := Some (\<lambda>_. None)\<rparr>) udp_skb (\<lambda>_. 0) =
      Some (leave ES_TC_NEXT (\<lambda>_. 0))"
proof -
  have "map_option fst (policy_parse mirror_env udp_skb) = Some ES_PARSE_OK"
    by code_simp
  then obtain t where t: "policy_parse mirror_env udp_skb = Some (ES_PARSE_OK, t)" by auto
  moreover have "policy_counters_found mirror_env" by (simp add: mirror_env_def)
  ultimately show ?thesis
    using active_ingress_rule_choice [OF t, of "\<lambda>_. None" "\<lambda>_. 0"] by (simp add: apply_rule_def)
qed

end
