(* ===== verification/Xdp_Programs.thy ===== *)
theory Xdp_Programs
  imports Telemetry_Types
begin

text \<open>
  The two XDP programs: \<open>es_xdp\<close> of \<open>bpf/elephantshrew_xdp.bpf.c\<close>, which counts frames and,
  when forwarding is enabled, sends them to the port of a one-entry device map; and
  \<open>es_xsk\<close> of \<open>bpf/elephantshrew_xsk.bpf.c\<close>, which hands a queue's frames to its AF_XDP
  socket. \<open>bpf_redirect_map\<close> is a parameter; what the programs rely on is its documented
  behaviour: redirect if the map has the key, else the action given as flags.
\<close>

definition XDP_DROP :: int where "XDP_DROP = 1"

definition XDP_PASS :: int where "XDP_PASS = 2"

definition XDP_REDIRECT :: int where "XDP_REDIRECT = 4"

text \<open>\<open>redirect_map key flags\<close> on \<open>tx_port\<close> or \<open>xsks\<close>, whose keys are \<open>ports\<close>.\<close>

type_synonym redirect_map = "u32 \<Rightarrow> int \<Rightarrow> int"

definition redirect_map_ok :: "(u32 \<Rightarrow> bool) \<Rightarrow> redirect_map \<Rightarrow> bool" where
  "redirect_map_ok ports rm \<longleftrightarrow> (\<forall>key flags. rm key flags = (if ports key then XDP_REDIRECT else flags))"

record xdp_md =
  ctx_data :: u64
  ctx_data_end :: u64
  ctx_rx_queue_index :: u32

definition xdp_bump :: "es_counter_id \<Rightarrow> u64 \<Rightarrow> es_counters \<Rightarrow> es_counters" where
  "xdp_bump c n s = s(c := s c + n)"

text \<open>
  The counters are \<^const>\<open>None\<close> when the lookup of the counter slot fails. Packet pointers
  are 64-bit addresses; \<open>data + 14\<close> is pointer arithmetic.
\<close>

definition es_xdp ::
  "redirect_map \<Rightarrow> u8 \<Rightarrow> xdp_md \<Rightarrow> es_counters option \<Rightarrow> int \<times> es_counters option" where
  "es_xdp tx_port forwarding_enabled ctx s =
     (let s = map_option (\<lambda>s. xdp_bump ES_C_BYTES (ctx_data_end ctx - ctx_data ctx)
                (xdp_bump ES_C_PACKETS 1 s)) s
      in if forwarding_enabled = 0 then (XDP_PASS, s)
         else if unat (ctx_data ctx) + 14 > unat (ctx_data_end ctx) then (XDP_DROP, s)
         else (tx_port 0 XDP_DROP, map_option (xdp_bump ES_C_REDIRECT_ATTEMPT 1) s))"

definition es_xsk :: "redirect_map \<Rightarrow> xdp_md \<Rightarrow> int" where
  "es_xsk xsks ctx = xsks (ctx_rx_queue_index ctx) XDP_PASS"

section \<open>Runs\<close>

text \<open>A frame of \<open>len\<close> bytes lies between the two pointers of its context.\<close>

definition frame_in :: "xdp_md \<Rightarrow> nat \<Rightarrow> bool" where
  "frame_in ctx len \<longleftrightarrow> ctx_data ctx + word_of_nat len = ctx_data_end ctx \<and> unat (ctx_data ctx) + len < 2 ^ 64"

fun es_xdp_run :: "redirect_map \<Rightarrow> u8 \<Rightarrow> xdp_md list \<Rightarrow> es_counters option \<Rightarrow> int list \<times> es_counters option" where
  "es_xdp_run rm fwd [] s = ([], s)"
| "es_xdp_run rm fwd (ctx # ctxs) s =
     (let (v, s) = es_xdp rm fwd ctx s; (vs, s) = es_xdp_run rm fwd ctxs s in (v # vs, s))"

lemma es_xdp_frame:
  assumes "redirect_map_ok ports rm" and "frame_in ctx len"
  shows "es_xdp rm fwd ctx (Some s) =
      (if fwd = 0 then XDP_PASS else if len < 14 \<or> \<not> ports 0 then XDP_DROP else XDP_REDIRECT,
       Some (\<lambda>c. s c + (if c = ES_C_PACKETS then 1 else if c = ES_C_BYTES then word_of_nat len
         else if c = ES_C_REDIRECT_ATTEMPT \<and> fwd \<noteq> 0 \<and> 14 \<le> len then 1 else 0)))"
proof -
  have pos: "ctx_data ctx + word_of_nat len = ctx_data_end ctx" and small: "unat (ctx_data ctx) + len < 2 ^ 64"
    using assms(2) by (simp_all add: frame_in_def)
  then have "unat (word_of_nat len :: u64) = len"
    by (simp add: unat_of_nat take_bit_nat_eq_self)
  then have "unat (ctx_data_end ctx) = unat (ctx_data ctx) + len"
    using small unat_add_small [of "ctx_data ctx" "word_of_nat len"] by (simp flip: pos)
  moreover have "ctx_data_end ctx - ctx_data ctx = word_of_nat len"
    by (simp flip: pos)
  ultimately show ?thesis
    using assms(1)
    by (auto simp: es_xdp_def Let_def xdp_bump_def redirect_map_ok_def fun_eq_iff)
qed

section \<open>Property\<close>

text \<open>
  C19: The XDP forwarder over any run of frames. Each frame is passed when forwarding is
  off, dropped when it is shorter than an Ethernet header or no port is configured, and
  redirected otherwise, whatever came before it; afterwards the packet and byte counters
  have grown by the number of frames and the sum of their lengths, the redirect attempts by
  the number of frames that consulted the port map, and no other counter has changed. The
  socket program never drops: frames of a queue without a socket go on to the stack.
\<close>

theorem xdp_run_counts:
  assumes "redirect_map_ok ports rm" and "list_all2 frame_in ctxs lens"
  shows "es_xdp_run rm fwd ctxs (Some s) =
      (map (\<lambda>len. if fwd = 0 then XDP_PASS else if len < 14 \<or> \<not> ports 0 then XDP_DROP else XDP_REDIRECT) lens,
       Some (\<lambda>c. s c + word_of_nat (if c = ES_C_PACKETS then length lens else if c = ES_C_BYTES then sum_list lens
         else if c = ES_C_REDIRECT_ATTEMPT \<and> fwd \<noteq> 0 then length (filter (\<lambda>len. 14 \<le> len) lens) else 0))) \<and>
    (\<forall>ctx. es_xsk rm ctx = (if ports (ctx_rx_queue_index ctx) then XDP_REDIRECT else XDP_PASS))"
proof -
  have "es_xdp_run rm fwd ctxs (Some s) =
      (map (\<lambda>len. if fwd = 0 then XDP_PASS else if len < 14 \<or> \<not> ports 0 then XDP_DROP else XDP_REDIRECT) lens,
       Some (\<lambda>c. s c + word_of_nat (if c = ES_C_PACKETS then length lens else if c = ES_C_BYTES then sum_list lens
         else if c = ES_C_REDIRECT_ATTEMPT \<and> fwd \<noteq> 0 then length (filter (\<lambda>len. 14 \<le> len) lens) else 0)))"
    using assms(2)
  proof (induction arbitrary: s rule: list_all2_induct)
    case (Cons ctx ctxs len lens)
    then show ?case
      by (auto simp: es_xdp_frame [OF assms(1)] fun_eq_iff)
  qed (simp add: fun_eq_iff)
  then show ?thesis
    using assms(1) by (simp add: es_xsk_def redirect_map_ok_def)
qed

theorem xdp_run_counts_witness:
  "fst (es_xdp_run (\<lambda>key flags. if key = 0 then XDP_REDIRECT else flags) 1
      [\<lparr>ctx_data = 4096, ctx_data_end = 4156, ctx_rx_queue_index = 2\<rparr>,
       \<lparr>ctx_data = 4096, ctx_data_end = 4100, ctx_rx_queue_index = 2\<rparr>] (Some (\<lambda>_. 0))) = [XDP_REDIRECT, XDP_DROP]"
  using xdp_run_counts [of "\<lambda>key. key = 0" "\<lambda>key flags. if key = 0 then XDP_REDIRECT else flags"
      "[\<lparr>ctx_data = 4096, ctx_data_end = 4156, ctx_rx_queue_index = 2\<rparr>,
       \<lparr>ctx_data = 4096, ctx_data_end = 4100, ctx_rx_queue_index = 2\<rparr>]" "[60, 4]" 1 "\<lambda>_. 0"]
  by (simp add: redirect_map_ok_def frame_in_def)

end
