(* ===== verification/Abi_Layout.thy ===== *)
theory Abi_Layout
  imports Active_Policy Xdp_Programs
begin

text \<open>
  The binary interface between the kernel programs and user space: the declarations of
  \<open>bpf/elephantshrew_shared.h\<close> and \<open>bpf/elephantshrew_policy_shared.h\<close> under the layout rules
  of C, with the assertions at the end of the header, and the declarations of the BPF maps.
  The lemmas show that the byte images used elsewhere put every field where C does, and that
  the lookups of the array maps are inside their bounds.
\<close>

section \<open>The layout rules of C\<close>

text \<open>Integers of a number of bytes, arrays and structures, aligned as on 64-bit targets.\<close>

datatype ctype = UInt nat | Arr ctype nat | Struct "(string \<times> ctype) list"

definition round_up :: "nat \<Rightarrow> nat \<Rightarrow> nat" where
  "round_up n a = (n + a - 1) div a * a"

fun alignof :: "ctype \<Rightarrow> nat" where
  "alignof (UInt n) = n"
| "alignof (Arr t n) = alignof t"
| "alignof (Struct fs) = foldr max (map (\<lambda>f. alignof (snd f)) fs) 1"

text \<open>Where fields of given alignments and sizes start, and the end of the last one.\<close>

fun place :: "nat \<Rightarrow> (nat \<times> nat) list \<Rightarrow> nat list \<times> nat" where
  "place pos [] = ([], pos)"
| "place pos ((a, s) # fs) =
     (let start = round_up pos a; (starts, end_pos) = place (start + s) fs in (start # starts, end_pos))"

fun sizeof :: "ctype \<Rightarrow> nat" where
  "sizeof (UInt n) = n"
| "sizeof (Arr t n) = n * sizeof t"
| "sizeof (Struct fs) =
     round_up (snd (place 0 (map (\<lambda>f. (alignof (snd f), sizeof (snd f))) fs))) (alignof (Struct fs))"

fun fields :: "ctype \<Rightarrow> (string \<times> ctype) list" where
  "fields (Struct fs) = fs"
| "fields _ = []"

text \<open>The offset and the size of each field.\<close>

definition layout :: "ctype \<Rightarrow> (string \<times> nat \<times> nat) list" where
  "layout t = (let fs = fields t; sizes = map (\<lambda>f. sizeof (snd f)) fs
     in zip (map fst fs) (zip (fst (place 0 (map (\<lambda>f. (alignof (snd f), sizeof (snd f))) fs))) sizes))"

definition offsetof :: "ctype \<Rightarrow> string \<Rightarrow> nat" where
  "offsetof t name = (case map_of (layout t) name of Some (off, n) \<Rightarrow> off | None \<Rightarrow> sizeof t)"

text \<open>No byte of the structure is outside its fields.\<close>

definition no_padding :: "ctype \<Rightarrow> bool" where
  "no_padding t \<longleftrightarrow> sum_list (map (\<lambda>f. sizeof (snd f)) (fields t)) = sizeof t"

section \<open>The structures\<close>

abbreviation "uint8 \<equiv> UInt 1"
abbreviation "uint16 \<equiv> UInt 2"
abbreviation "uint32 \<equiv> UInt 4"
abbreviation "uint64 \<equiv> UInt 8"

definition struct_es_tuple :: ctype where
  "struct_es_tuple = Struct
     [(''src'', Arr uint8 16), (''dst'', Arr uint8 16), (''sport'', uint16), (''dport'', uint16),
      (''ethertype'', uint16), (''vlan'', Arr uint16 2), (''ip_version'', uint8), (''l4_proto'', uint8),
      (''flags'', uint8), (''vlan_count'', uint8), (''reserved'', uint16)]"

definition struct_es_event :: ctype where
  "struct_es_event = Struct
     [(''timestamp_mono_ns'', uint64), (''sequence'', uint64), (''ifindex'', uint32), (''original_len'', uint32),
      (''cpu'', uint32), (''abi_version'', uint16), (''record_size'', uint16), (''captured_len'', uint16),
      (''link_type'', uint16), (''direction'', uint8), (''hook'', uint8), (''parse_status'', uint8),
      (''flags'', uint8), (''tuple'', struct_es_tuple), (''prefix'', Arr uint8 128)]"

definition ES_C_MAX :: nat where
  "ES_C_MAX = length [ES_C_PACKETS, ES_C_BYTES, ES_C_SELECTED, ES_C_EVENTS, ES_C_RING_LOST, ES_C_PARSE_PARTIAL,
     ES_C_PARSE_MALFORMED, ES_C_SNAPSHOT_FAILED, ES_C_FLOW_UPDATE_FAILED, ES_C_POLICY_DROP, ES_C_MIRROR_ATTEMPT,
     ES_C_MIRROR_ERROR, ES_C_REDIRECT_ATTEMPT]"

definition struct_es_counters :: ctype where
  "struct_es_counters = Struct [(''v'', Arr uint64 ES_C_MAX)]"

definition struct_es_flow_key :: ctype where
  "struct_es_flow_key = Struct
     [(''tuple'', struct_es_tuple), (''ifindex'', uint32), (''direction'', uint8), (''reserved'', Arr uint8 3)]"

definition struct_es_flow_value :: ctype where
  "struct_es_flow_value = Struct
     [(''first_ns'', uint64), (''last_ns'', uint64), (''packets'', uint64), (''bytes'', uint64)]"

definition struct_es_policy_key :: ctype where
  "struct_es_policy_key = Struct [(''flow'', struct_es_flow_key), (''kind'', uint32), (''reserved'', uint32)]"

definition struct_es_rule :: ctype where
  "struct_es_rule = Struct [(''action'', uint32), (''out_ifindex'', uint32), (''generation'', uint64)]"

lemmas struct_defs = struct_es_tuple_def struct_es_event_def struct_es_counters_def struct_es_flow_key_def
  struct_es_flow_value_def struct_es_policy_key_def struct_es_rule_def

text \<open>The seven assertions at the end of the header.\<close>

definition es_assertions :: "bool list" where
  "es_assertions =
     [sizeof struct_es_tuple = 48,
      sizeof struct_es_event = 216,
      offsetof struct_es_event ''tuple'' = 40,
      offsetof struct_es_event ''prefix'' = 88,
      sizeof struct_es_flow_key = 56,
      sizeof struct_es_flow_value = 32,
      sizeof struct_es_counters = ES_C_MAX * 8]"

lemma es_assertions_hold: "list_all (\<lambda>b. b) es_assertions"
  by code_simp

text \<open>No structure has padding, so a key hashes no byte that is not set, and an event leaks none.\<close>

lemma structs_packed:
  "list_all no_padding [struct_es_tuple, struct_es_event, struct_es_counters, struct_es_flow_key, struct_es_flow_value,
     struct_es_policy_key, struct_es_rule]"
  by code_simp

lemma all_counters: "card (UNIV :: es_counter_id set) = ES_C_MAX"
proof -
  let ?ids = "[ES_C_PACKETS, ES_C_BYTES, ES_C_SELECTED, ES_C_EVENTS, ES_C_RING_LOST, ES_C_PARSE_PARTIAL,
     ES_C_PARSE_MALFORMED, ES_C_SNAPSHOT_FAILED, ES_C_FLOW_UPDATE_FAILED, ES_C_POLICY_DROP, ES_C_MIRROR_ATTEMPT,
     ES_C_MIRROR_ERROR, ES_C_REDIRECT_ATTEMPT]"
  have "(UNIV :: es_counter_id set) = set ?ids"
    using es_counter_id.exhaust by auto
  moreover have "distinct ?ids"
    by simp
  ultimately show ?thesis
    by (metis ES_C_MAX_def distinct_card)
qed

section \<open>The images agree with the layout\<close>

text \<open>A chain of byte strings is laid out as a structure when each has the offset and length of its field.\<close>

fun laid_out :: "nat \<Rightarrow> (string \<times> nat \<times> nat) list \<Rightarrow> bytes list \<Rightarrow> bool" where
  "laid_out pos [] bss \<longleftrightarrow> bss = []"
| "laid_out pos ((name, off, n) # fs) bss \<longleftrightarrow>
     (case bss of [] \<Rightarrow> False | bs # bss \<Rightarrow> off = pos \<and> length bs = n \<and> laid_out (pos + n) fs bss)"

lemma laid_out_at:
  assumes "laid_out pos fs bss" and "fs ! i = (name, off, n)" and "i < length fs"
  shows "i < length bss" and "at (concat bss) (off - pos) n = bss ! i" and "pos \<le> off"
proof -
  have "i < length bss \<and> pos \<le> off \<and> at (concat bss) (off - pos) n = bss ! i"
    using assms
  proof (induction pos fs bss arbitrary: i rule: laid_out.induct)
    case (2 pos f o' m fs bss)
    then obtain bs rest where bss: "bss = bs # rest" and o': "o' = pos" and m: "length bs = m"
      and tl: "laid_out (pos + m) fs rest"
      by (auto split: list.splits)
    show ?case
    proof (cases i)
      case 0
      with 2(3) o' m show ?thesis by (simp add: bss at_def)
    next
      case (Suc j)
      then have "j < length rest \<and> pos + m \<le> off \<and> at (concat rest) (off - (pos + m)) n = rest ! j"
        using 2(1) [OF bss tl, of j] 2(3,4) by simp
      moreover from this have "m \<le> off - pos" and "off - pos - m = off - (pos + m)"
        by arith+
      ultimately show ?thesis
        using Suc m by (simp add: bss at_def)
    qed
  qed simp
  then show "i < length bss" and "at (concat bss) (off - pos) n = bss ! i" and "pos \<le> off"
    by simp_all
qed

text \<open>The fields of the records, as bytes.\<close>

definition tuple_fields :: "es_tuple \<Rightarrow> bytes list" where
  "tuple_fields t = [t_src t, t_dst t, [fst (t_sport t), snd (t_sport t)], [fst (t_dport t), snd (t_dport t)],
     le_bytes 2 (t_ethertype t), le_bytes 2 (t_vlan t ! 0) @ le_bytes 2 (t_vlan t ! 1),
     [t_ip_version t], [t_l4_proto t], [t_flags t], [t_vlan_count t], le_bytes 2 (t_reserved t)]"

definition event_fields :: "es_event \<Rightarrow> bytes list" where
  "event_fields e = [le_bytes 8 (e_timestamp_mono_ns e), le_bytes 8 (e_sequence e), le_bytes 4 (e_ifindex e),
     le_bytes 4 (e_original_len e), le_bytes 4 (e_cpu e), le_bytes 2 (e_abi_version e),
     le_bytes 2 (e_record_size e), le_bytes 2 (e_captured_len e), le_bytes 2 (e_link_type e),
     [e_direction e], [e_hook e], [e_parse_status e], [e_flags e], tuple_bytes (e_tuple e), e_prefix e]"

definition flow_key_fields :: "es_flow_key \<Rightarrow> bytes list" where
  "flow_key_fields k = [tuple_bytes (k_tuple k), le_bytes 4 (k_ifindex k), [k_direction k], k_reserved k]"

definition flow_value_fields :: "es_flow_value \<Rightarrow> bytes list" where
  "flow_value_fields v = [le_bytes 8 (f_first_ns v), le_bytes 8 (f_last_ns v), le_bytes 8 (f_packets v), le_bytes 8 (f_bytes v)]"

lemma images:
  "tuple_bytes t = concat (tuple_fields t)" "event_bytes e = concat (event_fields e)"
  "flow_key_bytes k = concat (flow_key_fields k)" "flow_value_bytes v = concat (flow_value_fields v)"
  by (simp_all add: tuple_bytes_def tuple_fields_def event_bytes_def event_fields_def flow_key_bytes_def
      flow_key_fields_def flow_value_bytes_def flow_value_fields_def)

text \<open>The layouts, computed.\<close>

lemma layouts:
  "layout struct_es_tuple = [(''src'', 0, 16), (''dst'', 16, 16), (''sport'', 32, 2), (''dport'', 34, 2),
     (''ethertype'', 36, 2), (''vlan'', 38, 4), (''ip_version'', 42, 1), (''l4_proto'', 43, 1), (''flags'', 44, 1),
     (''vlan_count'', 45, 1), (''reserved'', 46, 2)]"
  "layout struct_es_event = [(''timestamp_mono_ns'', 0, 8), (''sequence'', 8, 8), (''ifindex'', 16, 4),
     (''original_len'', 20, 4), (''cpu'', 24, 4), (''abi_version'', 28, 2), (''record_size'', 30, 2),
     (''captured_len'', 32, 2), (''link_type'', 34, 2), (''direction'', 36, 1), (''hook'', 37, 1),
     (''parse_status'', 38, 1), (''flags'', 39, 1), (''tuple'', 40, 48), (''prefix'', 88, 128)]"
  "layout struct_es_flow_key = [(''tuple'', 0, 48), (''ifindex'', 48, 4), (''direction'', 52, 1), (''reserved'', 53, 3)]"
  "layout struct_es_flow_value = [(''first_ns'', 0, 8), (''last_ns'', 8, 8), (''packets'', 16, 8), (''bytes'', 24, 8)]"
  by code_simp+

lemma images_laid_out:
  "tuple_sized t \<Longrightarrow> laid_out 0 (layout struct_es_tuple) (tuple_fields t)"
  "event_sized e \<Longrightarrow> laid_out 0 (layout struct_es_event) (event_fields e)"
  "tuple_sized (k_tuple k) \<Longrightarrow> length (k_reserved k) = 3 \<Longrightarrow> laid_out 0 (layout struct_es_flow_key) (flow_key_fields k)"
  "laid_out 0 (layout struct_es_flow_value) (flow_value_fields v)"
  by (simp_all add: layouts tuple_fields_def event_fields_def flow_key_fields_def flow_value_fields_def
      tuple_sized_def event_sized_def length_tuple_bytes)

text \<open>So each field of an event is found in its image at the offset C gives it.\<close>

lemma event_field_at:
  assumes "event_sized e" and "layout struct_es_event ! i = (name, off, n)" and "i < length (layout struct_es_event)"
  shows "at (event_bytes e) off n = event_fields e ! i"
  using laid_out_at(2) [OF images_laid_out(2) [OF assms(1)] assms(2,3)] by (simp add: images)

section \<open>The declarations of the maps\<close>

datatype bpf_map_kind =
    PERCPU_ARRAY | RINGBUF | LRU_PERCPU_HASH | HASH | ARRAY_OF_MAPS | DEVMAP | XSKMAP

record map_decl =
  kind :: bpf_map_kind
  max_entries :: nat
  key_type :: "ctype option"
  value_type :: "ctype option"

definition observer_counters_map :: map_decl where
  "observer_counters_map = \<lparr>kind = PERCPU_ARRAY, max_entries = unat ES_DIRECTIONS, key_type = Some uint32,
     value_type = Some struct_es_counters\<rparr>"

definition observer_events_map :: map_decl where
  "observer_events_map = \<lparr>kind = RINGBUF, max_entries = 8 * 1024 * 1024, key_type = None, value_type = None\<rparr>"

definition observer_flows_map :: map_decl where
  "observer_flows_map = \<lparr>kind = LRU_PERCPU_HASH, max_entries = 4096, key_type = Some struct_es_flow_key,
     value_type = Some struct_es_flow_value\<rparr>"

definition es_rules_map :: map_decl where
  "es_rules_map = \<lparr>kind = HASH, max_entries = 1024, key_type = Some struct_es_policy_key,
     value_type = Some struct_es_rule\<rparr>"

definition active_rules_map :: map_decl where
  "active_rules_map = \<lparr>kind = ARRAY_OF_MAPS, max_entries = 1, key_type = Some uint32, value_type = None\<rparr>"

definition policy_counters_map :: map_decl where
  "policy_counters_map = \<lparr>kind = PERCPU_ARRAY, max_entries = 1, key_type = Some uint32,
     value_type = Some struct_es_counters\<rparr>"

definition tx_port_map :: map_decl where
  "tx_port_map = \<lparr>kind = DEVMAP, max_entries = 1, key_type = Some uint32, value_type = Some uint32\<rparr>"

definition xdp_counters_map :: map_decl where
  "xdp_counters_map = \<lparr>kind = PERCPU_ARRAY, max_entries = 1, key_type = Some uint32,
     value_type = Some struct_es_counters\<rparr>"

definition xsks_map :: map_decl where
  "xsks_map = \<lparr>kind = XSKMAP, max_entries = 64, key_type = Some uint32, value_type = Some uint32\<rparr>"

text \<open>Maps of a fixed index range find an entry for a key exactly inside the range.\<close>

definition in_range :: "map_decl \<Rightarrow> u32 \<Rightarrow> bool" where
  "in_range m key \<longleftrightarrow> unat key < max_entries m"

text \<open>The keys the programs look up in their counters are in range, whatever the direction.\<close>

lemma counter_keys_in_range:
  "in_range observer_counters_map (ucast (direction_code dir))"
  "in_range policy_counters_map 0" "in_range xdp_counters_map 0" "in_range active_rules_map 0" "in_range tx_port_map 0"
  by (cases dir; simp add: in_range_def observer_counters_map_def ES_DIRECTIONS_def)
    (simp_all add: in_range_def policy_counters_map_def xdp_counters_map_def active_rules_map_def tx_port_map_def)

text \<open>A receive queue beyond the socket map always continues to the normal stack.\<close>

lemma es_xsk_beyond_map:
  assumes "redirect_map_ok ports rm" and "\<And>key. ports key \<Longrightarrow> in_range xsks_map key" and "64 \<le> unat (ctx_rx_queue_index ctx)"
  shows "es_xsk rm ctx = XDP_PASS"
proof -
  have "\<not> ports (ctx_rx_queue_index ctx)"
    using assms(2) [of "ctx_rx_queue_index ctx"] assms(3) by (auto simp: in_range_def xsks_map_def)
  then show ?thesis
    using assms(1) by (simp add: es_xsk_def redirect_map_ok_def)
qed

end
