(* ===== verification/Tc_Attachment.thy ===== *)
theory Tc_Attachment
  imports Shrew_Prelude
begin

text \<open>
  Ownership of a traffic-control filter slot, \<open>TcAttachment\<close> of \<open>inc/TcAttachment.hpp\<close>. The
  object remembers the hook, handle, priority and program of the filter it attached and
  removes that filter, and no other, when it is detached or destroyed. libbpf and the
  kernel are a record of parameters over an abstract kernel state \<open>'k\<close>; \<open>Detach\<close> makes two
  calls, and what other processes do to the kernel between them is a parameter as well.
\<close>

section \<open>The kernel interface\<close>

record bpf_tc_hook =
  hook_ifindex :: int
  hook_attach_point :: u32

type_synonym tc_slot = "bpf_tc_hook \<times> u32 \<times> u32"  \<comment> \<open>hook, handle, priority\<close>

text \<open>
  \<open>obj_get_info\<close> answers an errno or the program's identifier; \<open>tc_attach\<close> also returns the
  handle and priority as the kernel left them in \<open>opts\<close>; \<open>tc_query\<close> the identifier of the
  program in the slot.
\<close>

record 'k tc_api =
  obj_get_info :: "int \<Rightarrow> 'k \<Rightarrow> int + u32"
  tc_hook_create :: "bpf_tc_hook \<Rightarrow> 'k \<Rightarrow> int \<times> 'k"
  tc_attach :: "tc_slot \<Rightarrow> int \<Rightarrow> 'k \<Rightarrow> int \<times> (u32 \<times> u32) \<times> 'k"
  tc_query :: "tc_slot \<Rightarrow> 'k \<Rightarrow> int \<times> u32"
  tc_detach :: "tc_slot \<Rightarrow> 'k \<Rightarrow> int \<times> 'k"

definition ENOENT :: int where "ENOENT = 2"

definition EEXIST :: int where "EEXIST = 17"

definition ENODEV :: int where "ENODEV = 19"

definition ESTALE :: int where "ESTALE = 116"

section \<open>The object\<close>

record TcAttachment =
  at_hook :: bpf_tc_hook
  at_handle :: u32
  at_priority :: u32
  at_program_id :: u32
  at_attached :: bool

definition TcAttachment_new :: TcAttachment where
  "TcAttachment_new = \<lparr>at_hook = \<lparr>hook_ifindex = 0, hook_attach_point = 0\<rparr>, at_handle = 0,
     at_priority = 0, at_program_id = 0, at_attached = False\<rparr>"

datatype attach_error = AlreadyActive | InvalidIdentity | AttachSystemError int

definition Attach ::
  "'k tc_api \<Rightarrow> int \<Rightarrow> u32 \<Rightarrow> int \<Rightarrow> u32 \<Rightarrow> u32 \<Rightarrow> TcAttachment \<Rightarrow> 'k
    \<Rightarrow> attach_error option \<times> TcAttachment \<times> 'k" where
  "Attach api ifindex direction prog_fd handle priority a k =
     (if at_attached a then (Some AlreadyActive, a, k)
      else if ifindex \<le> 0 \<or> prog_fd < 0 \<or> handle = 0 \<or> priority = 0 \<or> priority > 65535
      then (Some InvalidIdentity, a, k)
      else case obj_get_info api prog_fd k of
        Inl errno \<Rightarrow> (Some (AttachSystemError errno), a, k)
      | Inr prog \<Rightarrow>
          let hook = \<lparr>hook_ifindex = ifindex, hook_attach_point = direction\<rparr>;
              a = a\<lparr>at_hook := hook\<rparr>;
              (rc, k) = tc_hook_create api hook k
          in if rc \<noteq> 0 \<and> rc \<noteq> - EEXIST then (Some (AttachSystemError (- rc)), a, k)
             else
               let (rc, (handle', priority'), k) = tc_attach api (hook, handle, priority) prog_fd k
               in if rc \<noteq> 0 then (Some (AttachSystemError (- rc)), a, k)
                  else (None, a\<lparr>at_handle := handle', at_priority := priority', at_program_id := prog,
                                 at_attached := True\<rparr>, k))"

definition slot_of :: "TcAttachment \<Rightarrow> tc_slot" where
  "slot_of a = (at_hook a, at_handle a, at_priority a)"

text \<open>\<open>others\<close> is what happens in the kernel between the query and the removal.\<close>

definition Detach :: "'k tc_api \<Rightarrow> ('k \<Rightarrow> 'k) \<Rightarrow> TcAttachment \<Rightarrow> 'k \<Rightarrow> int \<times> TcAttachment \<times> 'k" where
  "Detach api others a k =
     (if \<not> at_attached a then (0, a, k)
      else
        let (rc, prog_id) = tc_query api (slot_of a) k
        in if rc = - ENOENT \<or> rc = - ENODEV then (0, a\<lparr>at_attached := False\<rparr>, k)
           else if rc \<noteq> 0 then (rc, a, k)
           else if prog_id \<noteq> at_program_id a then (- ESTALE, a\<lparr>at_attached := False\<rparr>, k)
           else
             let (rc, k) = tc_detach api (slot_of a) (others k)
             in if rc = 0 \<or> rc = - ENOENT \<or> rc = - ENODEV then (0, a\<lparr>at_attached := False\<rparr>, k)
                else (rc, a, k))"

text \<open>The destructor, with the code of the line it writes when cleaning up failed.\<close>

definition destroy_attachment :: "'k tc_api \<Rightarrow> ('k \<Rightarrow> 'k) \<Rightarrow> TcAttachment \<Rightarrow> 'k \<Rightarrow> int option \<times> 'k" where
  "destroy_attachment api others a k =
     (let (rc, a, k) = Detach api others a k in (if rc \<noteq> 0 then Some rc else None, k))"

section \<open>The documented behaviour of the kernel\<close>

text \<open>
  \<open>slots k\<close> says which program is in which slot. Attaching without the replace flag fills a
  free slot with the program of the descriptor, or fails and changes nothing; a query
  reports the slot; removing empties the slot or changes nothing.
\<close>

definition tc_api_ok :: "'k tc_api \<Rightarrow> ('k \<Rightarrow> tc_slot \<Rightarrow> u32 option) \<Rightarrow> bool" where
  "tc_api_ok api slots \<longleftrightarrow>
     (\<forall>hook k. slots (snd (tc_hook_create api hook k)) = slots k \<and>
        (\<forall>fd. obj_get_info api fd (snd (tc_hook_create api hook k)) = obj_get_info api fd k)) \<and>
     (\<forall>hook h p fd k rc h' p' k'. tc_attach api (hook, h, p) fd k = (rc, (h', p'), k') \<longrightarrow>
        (if rc = 0 then h' = h \<and> p' = p \<and> slots k (hook, h, p) = None \<and>
           (\<forall>prog. obj_get_info api fd k = Inr prog \<longrightarrow> slots k' = (slots k)((hook, h, p) \<mapsto> prog))
         else slots k' = slots k)) \<and>
     (\<forall>s k rc prog. tc_query api s k = (rc, prog) \<longrightarrow>
        (rc = 0 \<longrightarrow> slots k s = Some prog) \<and> (rc = - ENOENT \<or> rc = - ENODEV \<longrightarrow> slots k s = None)) \<and>
     (\<forall>s k rc k'. tc_detach api s k = (rc, k') \<longrightarrow>
        (if rc = 0 then slots k' = (slots k)(s := None) else slots k' = slots k) \<and>
        (rc = - ENOENT \<or> rc = - ENODEV \<longrightarrow> slots k s = None))"

lemma tc_api_okD:
  assumes "tc_api_ok api slots"
  shows "tc_hook_create api hook k = (rc, k') \<Longrightarrow> slots k' = slots k \<and> obj_get_info api fd k' = obj_get_info api fd k"
    and "tc_attach api (hook, h, p) fd k = (0, (h', p'), k') \<Longrightarrow> obj_get_info api fd k = Inr prog \<Longrightarrow>
      h' = h \<and> p' = p \<and> slots k (hook, h, p) = None \<and> slots k' = (slots k)((hook, h, p) \<mapsto> prog)"
    and "tc_attach api (hook, h, p) fd k = (rc, (h', p'), k') \<Longrightarrow> rc \<noteq> 0 \<Longrightarrow> slots k' = slots k"
    and "tc_query api s k = (0, prog) \<Longrightarrow> slots k s = Some prog"
    and "tc_query api s k = (rc, prog) \<Longrightarrow> rc = - ENOENT \<or> rc = - ENODEV \<Longrightarrow> slots k s = None"
    and "tc_detach api s k = (0, k') \<Longrightarrow> slots k' = (slots k)(s := None)"
    and "tc_detach api s k = (rc, k') \<Longrightarrow> rc \<noteq> 0 \<Longrightarrow> slots k' = slots k"
    and "tc_detach api s k = (rc, k') \<Longrightarrow> rc = - ENOENT \<or> rc = - ENODEV \<Longrightarrow> slots k s = None"
  using assms unfolding tc_api_ok_def
  by (metis snd_conv, metis, metis, metis, metis, metis, metis, metis)

section \<open>Attaching\<close>

lemma Attach_cases:
  assumes "tc_api_ok api slots" and att: "Attach api ifindex direction fd handle priority a k = (err, a', k')"
  obtains (failed) e where "err = Some e" and "slots k' = slots k" and "at_attached a' = at_attached a"
      and "at_attached a \<longrightarrow> a' = a"
  | (attached) prog hook where "err = None" and "hook = \<lparr>hook_ifindex = ifindex, hook_attach_point = direction\<rparr>"
      and "\<not> at_attached a" and "obj_get_info api fd k = Inr prog" and "slots k (hook, handle, priority) = None"
      and "slots k' = (slots k)((hook, handle, priority) \<mapsto> prog)"
      and "at_attached a'" and "slot_of a' = (hook, handle, priority)" and "at_program_id a' = prog"
proof (cases "at_attached a \<or> (ifindex \<le> 0 \<or> fd < 0 \<or> handle = 0 \<or> priority = 0 \<or> priority > 65535)")
  case True
  then have "Attach api ifindex direction fd handle priority a k =
      (Some (if at_attached a then AlreadyActive else InvalidIdentity), a, k)"
    by (auto simp: Attach_def)
  then show ?thesis
    using att by (intro failed) auto
next
  case valid: False
  let ?hook = "\<lparr>hook_ifindex = ifindex, hook_attach_point = direction\<rparr>"
  show ?thesis
  proof (cases "obj_get_info api fd k")
    case (Inl e)
    with valid have "Attach api ifindex direction fd handle priority a k =
        (Some (AttachSystemError e), a, k)"
      by (simp add: Attach_def)
    then show ?thesis using att by (intro failed) auto
  next
    case (Inr prog)
    obtain rc k1 where create: "tc_hook_create api ?hook k = (rc, k1)" by (cases "tc_hook_create api ?hook k")
    have k1: "slots k1 = slots k" "obj_get_info api fd k1 = Inr prog"
      using tc_api_okD(1) [OF assms(1) create] Inr by simp_all
    obtain rc2 h' p' k2 where attach: "tc_attach api (?hook, handle, priority) fd k1 = (rc2, (h', p'), k2)"
      by (cases "tc_attach api (?hook, handle, priority) fd k1") auto
    let ?a = "a\<lparr>at_hook := ?hook\<rparr>"
    have run: "Attach api ifindex direction fd handle priority a k =
      (if rc \<noteq> 0 \<and> rc \<noteq> - EEXIST then (Some (AttachSystemError (- rc)), ?a, k1)
       else if rc2 \<noteq> 0 then (Some (AttachSystemError (- rc2)), ?a, k2)
       else (None, ?a\<lparr>at_handle := h', at_priority := p', at_program_id := prog, at_attached := True\<rparr>, k2))"
      using valid Inr create attach by (simp add: Attach_def Let_def)
    consider "rc \<noteq> 0 \<and> rc \<noteq> - EEXIST" | "\<not> (rc \<noteq> 0 \<and> rc \<noteq> - EEXIST)" "rc2 \<noteq> 0"
      | "\<not> (rc \<noteq> 0 \<and> rc \<noteq> - EEXIST)" "rc2 = 0"
      by blast
    then show ?thesis
    proof cases
      case 1
      with run att valid k1 show ?thesis by (intro failed) auto
    next
      case 2
      then have "slots k2 = slots k1"
        using tc_api_okD(3) [OF assms(1) attach] by simp
      with 2 run att valid k1 show ?thesis by (intro failed) auto
    next
      case 3
      have "h' = handle \<and> p' = priority \<and> slots k1 (?hook, handle, priority) = None \<and>
          slots k2 = (slots k1)((?hook, handle, priority) \<mapsto> prog)"
        using attach k1(2) by (intro tc_api_okD(2) [OF assms(1), of ?hook handle priority fd k1 h' p' k2 prog])
          (simp_all add: 3)
      with 3 run att valid k1 Inr show ?thesis
        by (intro attached [of ?hook prog]) (auto simp: slot_of_def)
    qed
  qed
qed

section \<open>Detaching\<close>

lemma Detach_cases:
  assumes ok: "tc_api_ok api slots" and det: "Detach api others a k = (rc, a', k')" and "at_attached a"
  obtains (gone) "rc = 0" and "\<not> at_attached a'" and "slots k (slot_of a) = None" and "k' = k"
  | (stale) prog where "rc = - ESTALE" and "\<not> at_attached a'" and "slots k (slot_of a) = Some prog"
      and "prog \<noteq> at_program_id a" and "k' = k"
  | (query_failed) "rc = fst (tc_query api (slot_of a) k)" and "rc \<notin> {0, - ENOENT, - ENODEV}"
      and "a' = a" and "k' = k"
  | (removed) "rc = 0" and "\<not> at_attached a'" and "slots k (slot_of a) = Some (at_program_id a)"
      and "slots k' = (slots (others k))(slot_of a := None)"
  | (detach_failed) "rc = fst (tc_detach api (slot_of a) (others k))" and "rc \<notin> {0, - ENOENT, - ENODEV}"
      and "a' = a" and "slots k (slot_of a) = Some (at_program_id a)" and "slots k' = slots (others k)"
proof -
  obtain rc1 prog where query: "tc_query api (slot_of a) k = (rc1, prog)"
    by (cases "tc_query api (slot_of a) k")
  obtain rc2 k2 where detach: "tc_detach api (slot_of a) (others k) = (rc2, k2)"
    by (cases "tc_detach api (slot_of a) (others k)")
  have run: "Detach api others a k =
    (if rc1 = - ENOENT \<or> rc1 = - ENODEV then (0, a\<lparr>at_attached := False\<rparr>, k)
     else if rc1 \<noteq> 0 then (rc1, a, k)
     else if prog \<noteq> at_program_id a then (- ESTALE, a\<lparr>at_attached := False\<rparr>, k)
     else if rc2 = 0 \<or> rc2 = - ENOENT \<or> rc2 = - ENODEV then (0, a\<lparr>at_attached := False\<rparr>, k2)
     else (rc2, a, k2))"
    using query detach assms(3) by (simp add: Detach_def)
  note laws = tc_api_okD(4,5) [OF ok] tc_api_okD(6-8) [OF ok]
  consider "rc1 = - ENOENT \<or> rc1 = - ENODEV" | "rc1 \<noteq> 0" "\<not> (rc1 = - ENOENT \<or> rc1 = - ENODEV)"
    | "rc1 = 0" "prog \<noteq> at_program_id a" | "rc1 = 0" "prog = at_program_id a" "rc2 = 0"
    | "rc1 = 0" "prog = at_program_id a" "rc2 = - ENOENT \<or> rc2 = - ENODEV"
    | "rc1 = 0" "prog = at_program_id a" "rc2 \<noteq> 0" "\<not> (rc2 = - ENOENT \<or> rc2 = - ENODEV)"
    by blast
  then show ?thesis
  proof cases
    case 1
    with run det laws(2) [OF query] show ?thesis by (intro gone) auto
  next
    case 2
    with run det query show ?thesis by (intro query_failed) auto
  next
    case 3
    with run det laws(1) [of "slot_of a" k prog] query show ?thesis
      by (intro stale [of prog]) (auto simp: ENOENT_def ENODEV_def)
  next
    case 4
    with run det laws(1) [of "slot_of a" k prog] laws(3) [of "slot_of a" "others k" k2] query detach show ?thesis
      by (intro removed) (auto simp: ENOENT_def ENODEV_def)
  next
    case 5
    then have "slots (others k) (slot_of a) = None" and "slots k2 = slots (others k)"
      using laws(5) [OF detach] laws(4) [OF detach] by (auto simp: ENOENT_def ENODEV_def)
    then have "slots k2 = (slots (others k))(slot_of a := None)"
      by (simp add: fun_eq_iff)
    with 5 run det laws(1) [of "slot_of a" k prog] query show ?thesis
      by (intro removed) (auto simp: ENOENT_def ENODEV_def)
  next
    case 6
    with run det laws(1) [of "slot_of a" k prog] laws(4) [OF detach] query detach show ?thesis
      by (intro detach_failed) (auto simp: ENOENT_def ENODEV_def)
  qed
qed

section \<open>Properties\<close>

text \<open>
  C20: Attaching takes a free slot or nothing. On a kernel that honours the missing replace
  flag, \<open>Attach\<close> succeeds only for a detached object and a slot that was free, which then
  holds the program of the given descriptor and is what the object remembers; on every
  error no slot changes and the object owns what it owned before.
\<close>

theorem Attach_exclusive:
  assumes "tc_api_ok api slots"
    and "Attach api ifindex direction fd handle priority a k = (err, a', k')"
  shows "if err = None
    then \<not> at_attached a \<and> at_attached a' \<and> slots k (slot_of a') = None \<and>
      slot_of a' = (\<lparr>hook_ifindex = ifindex, hook_attach_point = direction\<rparr>, handle, priority) \<and>
      obj_get_info api fd k = Inr (at_program_id a') \<and>
      slots k' = (slots k)(slot_of a' \<mapsto> at_program_id a')
    else slots k' = slots k \<and> at_attached a' = at_attached a"
  by (rule Attach_cases [OF assms]) simp_all

text \<open>
  C21: Detaching removes one's own program, and only that. If no other process changes the
  object's slot between the query and the removal, \<open>Detach\<close> changes no slot but its own, and
  that one only from the program it attached to empty. For an object that is attached there
  are three outcomes. It answers 0: the slot held the object's program or nothing, is empty
  now, and is no longer claimed. It answers \<open>-ESTALE\<close>: another program holds the slot, which
  is left alone and no longer claimed. Or it answers the error of the query or of the removal,
  one that does not say that the slot is gone: then the object is unchanged, still claims the
  slot, and no slot has changed, so it can retry. A detached object answers 0 and nothing
  happens.
\<close>

theorem Detach_own_program_only:
  assumes "tc_api_ok api slots" and "Detach api others a k = (rc, a', k')" and "slots (others k) = slots k"
  shows "(\<forall>s. slots k' s \<noteq> slots k s \<longrightarrow> at_attached a \<and> s = slot_of a \<and>
      slots k s = Some (at_program_id a) \<and> slots k' s = None \<and> rc = 0) \<and>
    (rc = 0 \<longrightarrow> \<not> at_attached a') \<and>
    (at_attached a' \<longrightarrow> rc \<noteq> 0 \<and> a' = a \<and> slots k' = slots k) \<and>
    (if at_attached a
     then rc = 0 \<and> \<not> at_attached a' \<and> slots k (slot_of a) \<in> {None, Some (at_program_id a)} \<and>
        slots k' = (slots k)(slot_of a := None) \<or>
      rc = - ESTALE \<and> \<not> at_attached a' \<and> slots k (slot_of a) \<notin> {None, Some (at_program_id a)} \<and>
        slots k' = slots k \<or>
      rc \<in> {fst (tc_query api (slot_of a) k), fst (tc_detach api (slot_of a) (others k))} \<and>
        rc \<notin> {0, - ENOENT, - ENODEV} \<and> a' = a \<and> slots k' = slots k
     else rc = 0 \<and> a' = a \<and> k' = k)"
proof (cases "at_attached a")
  case False
  with assms(2) show ?thesis by (auto simp: Detach_def)
next
  case True
  with assms(1,2) show ?thesis
  proof (cases rule: Detach_cases)
    case gone
    then have "(slots k)(slot_of a := None) = slots k"
      by (simp add: fun_eq_iff)
    with gone True show ?thesis by simp
  next
    case removed
    with assms(3) True show ?thesis by simp
  qed (use assms(3) True in \<open>auto simp: ESTALE_def\<close>)
qed

text \<open>
  Attach and detach undo each other. An object that attached to a free slot and
  detaches while nobody else touched the kernel's slots either leaves every slot as it was
  before and is free again, or reports the kernel's error and still owns its slot.
\<close>

lemma Attach_Detach_restores:
  assumes "tc_api_ok api slots"
    and "Attach api ifindex direction fd handle priority a k = (None, a1, k1)"
    and "Detach api (\<lambda>k. k) a1 k1 = (rc, a2, k2)"
  shows "if rc = 0 then slots k2 = slots k \<and> \<not> at_attached a2 else a2 = a1 \<and> slots k2 = slots k1"
proof (rule Attach_cases [OF assms(1,2)])
  fix prog hook
  assume a: "slot_of a1 = (hook, handle, priority)" "at_program_id a1 = prog" "at_attached a1"
    and free: "slots k (hook, handle, priority) = None"
    and k1: "slots k1 = (slots k)((hook, handle, priority) \<mapsto> prog)"
  have undone: "(slots k)((hook, handle, priority) := None) = slots k"
    using free by (simp add: fun_eq_iff)
  from assms(1,3) a(3) show ?thesis
    by (cases rule: Detach_cases) (use a k1 undone in \<open>simp_all\<close>)
qed simp

text \<open>
  The same for an attachment that goes out of scope: the slots are as they were before, or
  a message names the kernel's error.
\<close>

lemma destroy_attachment_restores:
  assumes "tc_api_ok api slots"
    and "Attach api ifindex direction fd handle priority a k = (None, a1, k1)"
    and "destroy_attachment api (\<lambda>k. k) a1 k1 = (message, k2)"
  shows "message = None \<longrightarrow> slots k2 = slots k" and "message \<noteq> None \<longrightarrow> slots k2 = slots k1"
  using assms(3) Attach_Detach_restores [OF assms(1,2)]
  by (auto simp: destroy_attachment_def split: prod.splits if_splits)

section \<open>A kernel with a table of slots\<close>

definition table_api :: "(tc_slot \<Rightarrow> u32 option) tc_api" where
  "table_api = \<lparr>
     obj_get_info = (\<lambda>fd k. if fd = 5 then Inr 77 else Inl 9),
     tc_hook_create = (\<lambda>hook k. (- EEXIST, k)),
     tc_attach = (\<lambda>(hook, h, p) fd k. if fd = 5 \<and> k (hook, h, p) = None
        then (0, (h, p), k((hook, h, p) \<mapsto> 77)) else (- EEXIST, (h, p), k)),
     tc_query = (\<lambda>s k. case k s of None \<Rightarrow> (- ENOENT, 0) | Some prog \<Rightarrow> (0, prog)),
     tc_detach = (\<lambda>s k. if k s = None then (- ENOENT, k) else (0, k(s := None)))\<rparr>"

lemma table_api_ok: "tc_api_ok table_api (\<lambda>k. k)"
  by (auto simp: tc_api_ok_def table_api_def EEXIST_def ENOENT_def ENODEV_def split: option.splits if_splits)

definition eth0_slot :: tc_slot where
  "eth0_slot = (\<lparr>hook_ifindex = 3, hook_attach_point = 1\<rparr>, 1, 50000)"

definition eth0_owner :: TcAttachment where
  "eth0_owner = \<lparr>at_hook = fst eth0_slot, at_handle = 1, at_priority = 50000, at_program_id = 77, at_attached = True\<rparr>"

lemma table_attach:
  "Attach table_api 3 1 5 1 50000 TcAttachment_new (\<lambda>_. None) = (None, eth0_owner, [eth0_slot \<mapsto> 77])"
  by (simp add: Attach_def table_api_def TcAttachment_new_def eth0_owner_def eth0_slot_def EEXIST_def Let_def)

lemma table_detach:
  "Detach table_api (\<lambda>k. k) eth0_owner [eth0_slot \<mapsto> 77] = (0, eth0_owner\<lparr>at_attached := False\<rparr>, \<lambda>_. None)"
  by (simp add: Detach_def table_api_def eth0_owner_def eth0_slot_def slot_of_def ENOENT_def ENODEV_def fun_eq_iff)

theorem Attach_exclusive_witness:
  "at_attached eth0_owner \<and> slot_of eth0_owner = eth0_slot"
  using Attach_exclusive [OF table_api_ok table_attach] by (simp add: eth0_slot_def)

theorem Detach_own_program_only_witness:
  "\<exists>a' k'. Detach table_api (\<lambda>k. k) eth0_owner [eth0_slot \<mapsto> 77] = (0, a', k') \<and>
    [eth0_slot \<mapsto> 77] eth0_slot = Some (at_program_id eth0_owner) \<and>
    k' = [eth0_slot \<mapsto> 77](eth0_slot := None) \<and> \<not> at_attached a'"
proof -
  have owner: "slot_of eth0_owner = eth0_slot" "at_attached eth0_owner" "at_program_id eth0_owner = 77"
    by (simp_all add: slot_of_def eth0_owner_def eth0_slot_def)
  note exact = Detach_own_program_only [OF table_api_ok table_detach refl, THEN conjunct2, THEN conjunct2, THEN conjunct2]
  have "(0 :: int) \<noteq> - ESTALE"
    by (simp add: ESTALE_def)
  then have "(\<lambda>_. None) = [eth0_slot \<mapsto> 77](eth0_slot := None) \<and> \<not> at_attached (eth0_owner\<lparr>at_attached := False\<rparr>)"
    using exact unfolding owner if_P [OF TrueI] by simp
  then show ?thesis
    using table_detach owner(3) by simp
qed

text \<open>
  The check of the owner and the removal are two calls. A process that replaces the program
  in between loses it: the object then removes a program it never attached.
\<close>

lemma Detach_check_then_act:
  "\<exists>others :: (tc_slot \<Rightarrow> u32 option) \<Rightarrow> tc_slot \<Rightarrow> u32 option.
     others [eth0_slot \<mapsto> 77] eth0_slot = Some 99 \<and>
     Detach table_api others eth0_owner [eth0_slot \<mapsto> 77] = (0, eth0_owner\<lparr>at_attached := False\<rparr>, \<lambda>_. None)"
  by (intro exI [of _ "\<lambda>k. k(eth0_slot \<mapsto> 99)"])
    (simp add: Detach_def table_api_def eth0_owner_def eth0_slot_def slot_of_def ENOENT_def ENODEV_def fun_eq_iff)

end
