(* ===== verification/Runtime_Config.thy ===== *)
theory Runtime_Config
  imports Shrew_Prelude
begin

text \<open>
  The configuration of the capture service: the option structures of \<open>inc/RuntimeConfig.hpp\<close>
  and \<open>LoadRuntimeConfigFromJson\<close> of \<open>src/RuntimeConfig.cpp\<close>, which reads a JSON file over
  the defaults and validates the result. The JSON library is a record of parameters
  (finding a member, testing for an object, converting a value or failing with a message),
  and so are opening and parsing the file. A thrown exception is an error value.
\<close>

section \<open>Options\<close>

record CaptureOptions =
  ifaces :: "string list"
  record_packets :: bool
  debug_packets :: bool

record RoutingOptions =
  enabled :: bool
  ingress_iface :: string
  egress_iface :: string
  bidirectional :: bool

record RedisStoreOptions =
  host :: string
  port :: string
  stream_key :: string
  max_pending_writes :: u64
  connect_timeout_ms :: u64
  drain_timeout_ms :: u64

record SupervisorOptions =
  restart_delay_ms :: u64
  poll_interval_ms :: u64

record UiOptions =
  show_startup_art :: bool

record RuntimeConfig =
  capture :: CaptureOptions
  routing :: RoutingOptions
  redis :: RedisStoreOptions
  supervisor :: SupervisorOptions
  ui :: UiOptions

definition default_config :: RuntimeConfig where
  "default_config = \<lparr>
     capture = \<lparr>ifaces = [], record_packets = False, debug_packets = False\<rparr>,
     routing = \<lparr>enabled = False, ingress_iface = '''', egress_iface = '''', bidirectional = False\<rparr>,
     redis = \<lparr>host = ''127.0.0.1'', port = ''6379'', stream_key = ''elephantshrew:packets'',
       max_pending_writes = 1024, connect_timeout_ms = 5000, drain_timeout_ms = 5000\<rparr>,
     supervisor = \<lparr>restart_delay_ms = 2000, poll_interval_ms = 200\<rparr>,
     ui = \<lparr>show_startup_art = True\<rparr>\<rparr>"

section \<open>Errors and their propagation\<close>

datatype config_error =
    CannotOpen string | CannotParse string string | RootNotObject string
  | ExpectedObject string | BadValue string string string
  | EmptyValue string | SameInterfaces | NotPositive string

section \<open>Reading JSON\<close>

record 'j json_api =
  json_find :: "'j \<Rightarrow> string \<Rightarrow> 'j option"
  json_is_object :: "'j \<Rightarrow> bool"
  json_get_string :: "'j \<Rightarrow> string + string"
  json_get_bool :: "'j \<Rightarrow> string + bool"
  json_get_uint :: "'j \<Rightarrow> string + u64"
  json_get_strings :: "'j \<Rightarrow> string + string list"

definition FindObject :: "'j json_api \<Rightarrow> 'j \<Rightarrow> string \<Rightarrow> config_error + 'j option" where
  "FindObject api parent key = (case json_find api parent key of
     None \<Rightarrow> Inr None
   | Some j \<Rightarrow> if \<not> json_is_object api j then Inl (ExpectedObject key) else Inr (Some j))"

text \<open>\<open>get\<close> is the conversion of the member's type and \<open>upd\<close> the assignment to the reference.\<close>

definition ReadValue ::
  "'j json_api \<Rightarrow> ('j \<Rightarrow> string + 'v) \<Rightarrow> 'j \<Rightarrow> string \<Rightarrow> string \<Rightarrow> ('v \<Rightarrow> 'c \<Rightarrow> 'c) \<Rightarrow> 'c \<Rightarrow> config_error + 'c" where
  "ReadValue api get obj pre key upd c = (case json_find api obj key of
     None \<Rightarrow> Inr c
   | Some j \<Rightarrow> (case get j of Inl e \<Rightarrow> Inl (BadValue pre key e) | Inr v \<Rightarrow> Inr (upd v c)))"

definition RequirePositive :: "string \<Rightarrow> u64 \<Rightarrow> 'c \<Rightarrow> config_error + 'c" where
  "RequirePositive key v c = (if v = 0 then Inl (NotPositive key) else Inr c)"

text \<open>\<open>if (const auto* o = FindObject(root, key)) { ... }\<close>\<close>

definition with_object ::
  "'j json_api \<Rightarrow> 'j \<Rightarrow> string \<Rightarrow> ('j \<Rightarrow> ('c \<Rightarrow> config_error + 'c) list) \<Rightarrow> 'c \<Rightarrow> config_error + 'c" where
  "with_object api root key body c = andThen (FindObject api root key) (\<lambda>o1.
     case o1 of None \<Rightarrow> Inr c | Some j \<Rightarrow> chain (body j) c)"

section \<open>The loader\<close>

definition read_capture :: "'j json_api \<Rightarrow> 'j \<Rightarrow> (CaptureOptions \<Rightarrow> config_error + CaptureOptions) list" where
  "read_capture api j =
     [ReadValue api (json_get_strings api) j ''capture'' ''interfaces'' (\<lambda>v. ifaces_update (\<lambda>_. v)),
      ReadValue api (json_get_strings api) j ''capture'' ''ifaces'' (\<lambda>v. ifaces_update (\<lambda>_. v)),
      ReadValue api (json_get_bool api) j ''capture'' ''record_packets'' (\<lambda>v. record_packets_update (\<lambda>_. v)),
      ReadValue api (json_get_bool api) j ''capture'' ''debug_packets'' (\<lambda>v. debug_packets_update (\<lambda>_. v))]"

definition read_redis :: "'j json_api \<Rightarrow> 'j \<Rightarrow> (RedisStoreOptions \<Rightarrow> config_error + RedisStoreOptions) list" where
  "read_redis api j =
     [ReadValue api (json_get_string api) j ''redis'' ''host'' (\<lambda>v. host_update (\<lambda>_. v)),
      ReadValue api (json_get_string api) j ''redis'' ''port'' (\<lambda>v. port_update (\<lambda>_. v)),
      ReadValue api (json_get_string api) j ''redis'' ''stream_key'' (\<lambda>v. stream_key_update (\<lambda>_. v)),
      ReadValue api (json_get_uint api) j ''redis'' ''max_pending_writes'' (\<lambda>v. max_pending_writes_update (\<lambda>_. v)),
      ReadValue api (json_get_uint api) j ''redis'' ''connect_timeout_ms'' (\<lambda>v. connect_timeout_ms_update (\<lambda>_. v)),
      ReadValue api (json_get_uint api) j ''redis'' ''drain_timeout_ms'' (\<lambda>v. drain_timeout_ms_update (\<lambda>_. v))]"

definition read_routing :: "'j json_api \<Rightarrow> 'j \<Rightarrow> (RoutingOptions \<Rightarrow> config_error + RoutingOptions) list" where
  "read_routing api j =
     [ReadValue api (json_get_bool api) j ''routing'' ''enabled'' (\<lambda>v. enabled_update (\<lambda>_. v)),
      ReadValue api (json_get_string api) j ''routing'' ''ingress_iface'' (\<lambda>v. ingress_iface_update (\<lambda>_. v)),
      ReadValue api (json_get_string api) j ''routing'' ''egress_iface'' (\<lambda>v. egress_iface_update (\<lambda>_. v)),
      ReadValue api (json_get_string api) j ''routing'' ''from_interface'' (\<lambda>v. ingress_iface_update (\<lambda>_. v)),
      ReadValue api (json_get_string api) j ''routing'' ''to_interface'' (\<lambda>v. egress_iface_update (\<lambda>_. v)),
      ReadValue api (json_get_bool api) j ''routing'' ''bidirectional'' (\<lambda>v. bidirectional_update (\<lambda>_. v))]"

definition read_supervisor :: "'j json_api \<Rightarrow> 'j \<Rightarrow> (SupervisorOptions \<Rightarrow> config_error + SupervisorOptions) list" where
  "read_supervisor api j =
     [ReadValue api (json_get_uint api) j ''supervisor'' ''restart_delay_ms'' (\<lambda>v. restart_delay_ms_update (\<lambda>_. v)),
      ReadValue api (json_get_uint api) j ''supervisor'' ''poll_interval_ms'' (\<lambda>v. poll_interval_ms_update (\<lambda>_. v))]"

definition read_ui :: "'j json_api \<Rightarrow> 'j \<Rightarrow> (UiOptions \<Rightarrow> config_error + UiOptions) list" where
  "read_ui api j =
     [ReadValue api (json_get_bool api) j ''ui'' ''show_startup_art'' (\<lambda>v. show_startup_art_update (\<lambda>_. v))]"

text \<open>Lines 66 to 98.\<close>

definition read_sections :: "'j json_api \<Rightarrow> 'j \<Rightarrow> RuntimeConfig \<Rightarrow> config_error + RuntimeConfig" where
  "read_sections api root = chain
     [\<lambda>c. andThen (with_object api root ''capture'' (read_capture api) (capture c)) (\<lambda>x. Inr (c\<lparr>capture := x\<rparr>)),
      \<lambda>c. andThen (with_object api root ''redis'' (read_redis api) (redis c)) (\<lambda>x. Inr (c\<lparr>redis := x\<rparr>)),
      \<lambda>c. andThen (with_object api root ''routing'' (read_routing api) (routing c)) (\<lambda>x. Inr (c\<lparr>routing := x\<rparr>)),
      \<lambda>c. andThen (with_object api root ''supervisor'' (read_supervisor api) (supervisor c)) (\<lambda>x. Inr (c\<lparr>supervisor := x\<rparr>)),
      \<lambda>c. andThen (with_object api root ''ui'' (read_ui api) (ui c)) (\<lambda>x. Inr (c\<lparr>ui := x\<rparr>))]"

text \<open>Lines 106 to 118.\<close>

definition enable_routing :: "RuntimeConfig \<Rightarrow> RuntimeConfig" where
  "enable_routing c =
     (if ingress_iface (routing c) \<noteq> [] \<or> egress_iface (routing c) \<noteq> []
      then c\<lparr>routing := (routing c)\<lparr>enabled := True\<rparr>\<rparr> else c)"

definition check_routing :: "RuntimeConfig \<Rightarrow> config_error + RuntimeConfig" where
  "check_routing c =
     (if enabled (routing c) then chain
        [\<lambda>c. require (ingress_iface (routing c) \<noteq> []) (EmptyValue ''routing.ingress_iface'') c,
         \<lambda>c. require (egress_iface (routing c) \<noteq> []) (EmptyValue ''routing.egress_iface'') c,
         \<lambda>c. require (ingress_iface (routing c) \<noteq> egress_iface (routing c)) SameInterfaces c] c
      else Inr c)"

text \<open>Lines 100 to 124.\<close>

definition validate :: "RuntimeConfig \<Rightarrow> config_error + RuntimeConfig" where
  "validate = chain
     [\<lambda>c. require (host (redis c) \<noteq> []) (EmptyValue ''redis.host'') c,
      \<lambda>c. require (port (redis c) \<noteq> []) (EmptyValue ''redis.port'') c,
      \<lambda>c. require (stream_key (redis c) \<noteq> []) (EmptyValue ''redis.stream_key'') c,
      \<lambda>c. check_routing (enable_routing c),
      \<lambda>c. RequirePositive ''redis.max_pending_writes'' (max_pending_writes (redis c)) c,
      \<lambda>c. RequirePositive ''redis.connect_timeout_ms'' (connect_timeout_ms (redis c)) c,
      \<lambda>c. RequirePositive ''redis.drain_timeout_ms'' (drain_timeout_ms (redis c)) c,
      \<lambda>c. RequirePositive ''supervisor.restart_delay_ms'' (restart_delay_ms (supervisor c)) c,
      \<lambda>c. RequirePositive ''supervisor.poll_interval_ms'' (poll_interval_ms (supervisor c)) c]"

text \<open>\<open>open_file\<close> fails, or gives the text that \<open>parse\<close> turns into a value or a message.\<close>

definition LoadRuntimeConfigFromJson ::
  "'j json_api \<Rightarrow> (string \<Rightarrow> 'f option) \<Rightarrow> ('f \<Rightarrow> string + 'j) \<Rightarrow> string \<Rightarrow> config_error + RuntimeConfig" where
  "LoadRuntimeConfigFromJson api open_file parse path = (case open_file path of
     None \<Rightarrow> Inl (CannotOpen path)
   | Some input \<Rightarrow> (case parse input of
       Inl e \<Rightarrow> Inl (CannotParse path e)
     | Inr root \<Rightarrow>
         if \<not> json_is_object api root then Inl (RootNotObject path)
         else andThen (read_sections api root default_config) validate))"

section \<open>What a loaded configuration satisfies\<close>

definition limits_ok :: "RuntimeConfig \<Rightarrow> bool" where
  "limits_ok c \<longleftrightarrow> host (redis c) \<noteq> [] \<and> port (redis c) \<noteq> [] \<and> stream_key (redis c) \<noteq> [] \<and>
     max_pending_writes (redis c) \<noteq> 0 \<and> connect_timeout_ms (redis c) \<noteq> 0 \<and>
     drain_timeout_ms (redis c) \<noteq> 0 \<and> restart_delay_ms (supervisor c) \<noteq> 0 \<and>
     poll_interval_ms (supervisor c) \<noteq> 0"

definition routing_ok :: "RoutingOptions \<Rightarrow> bool" where
  "routing_ok r \<longleftrightarrow> (enabled r \<longleftrightarrow> ingress_iface r \<noteq> []) \<and> (enabled r \<longleftrightarrow> egress_iface r \<noteq> []) \<and>
     (enabled r \<longrightarrow> ingress_iface r \<noteq> egress_iface r)"

lemma RequirePositive_Inr: "RequirePositive key v c = Inr d \<longleftrightarrow> v \<noteq> 0 \<and> d = c"
  by (auto simp: RequirePositive_def)

lemma check_routing_Inr:
  "check_routing (enable_routing c) = Inr d \<longleftrightarrow> d = enable_routing c \<and> routing_ok (routing d)"
  by (auto simp: check_routing_def enable_routing_def routing_ok_def andThen_Inr require_Inr)

lemma validate_Inr: "validate c = Inr d \<longleftrightarrow> d = enable_routing c \<and> limits_ok d \<and> routing_ok (routing d)"
proof -
  have "redis (enable_routing c) = redis c" and "supervisor (enable_routing c) = supervisor c"
    by (simp_all add: enable_routing_def)
  then show ?thesis
    by (auto simp: validate_def andThen_Inr require_Inr RequirePositive_Inr check_routing_Inr limits_ok_def)
qed

lemma LoadRuntimeConfigFromJson_Inr:
  "LoadRuntimeConfigFromJson api open_file parse path = Inr c \<longleftrightarrow>
   (\<exists>input root d. open_file path = Some input \<and> parse input = Inr root \<and> json_is_object api root \<and>
      read_sections api root default_config = Inr d \<and> validate d = Inr c)"
  by (auto simp: LoadRuntimeConfigFromJson_def andThen_Inr split: option.split sum.split)

lemma loaded_routing_ok: "LoadRuntimeConfigFromJson api open_file parse path = Inr c \<Longrightarrow> routing_ok (routing c)"
  by (auto simp: LoadRuntimeConfigFromJson_Inr validate_Inr)

section \<open>Properties\<close>

text \<open>
  C22: A configuration that loads is valid. Whatever the file holds, if
  \<open>LoadRuntimeConfigFromJson\<close> returns a configuration then the Redis address and stream are
  not empty, all limits, timeouts and delays are positive, and routing is enabled exactly
  when its interfaces are named, which then are two different interfaces. In particular the
  \<open>enabled\<close> member of the file cannot switch off routing between interfaces it names.
\<close>

theorem loaded_config_valid:
  assumes "LoadRuntimeConfigFromJson api open_file parse path = Inr c"
  shows "limits_ok c \<and> routing_ok (routing c) \<and>
    (enabled (routing c) \<longleftrightarrow> ingress_iface (routing c) \<noteq> [])"
  using assms by (auto simp: LoadRuntimeConfigFromJson_Inr validate_Inr routing_ok_def)

section \<open>A concrete JSON value\<close>

datatype json_value =
    JBool bool | JNumber u64 | JString string | JStrings "string list"
  | JObject "(string \<times> json_value) list"

definition value_api :: "json_value json_api" where
  "value_api = \<lparr>
     json_find = (\<lambda>j key. case j of JObject ms \<Rightarrow> map_of ms key | _ \<Rightarrow> None),
     json_is_object = (\<lambda>j. case j of JObject ms \<Rightarrow> True | _ \<Rightarrow> False),
     json_get_string = (\<lambda>j. case j of JString s \<Rightarrow> Inr s | _ \<Rightarrow> Inl ''type must be string''),
     json_get_bool = (\<lambda>j. case j of JBool b \<Rightarrow> Inr b | _ \<Rightarrow> Inl ''type must be boolean''),
     json_get_uint = (\<lambda>j. case j of JNumber n \<Rightarrow> Inr n | _ \<Rightarrow> Inl ''type must be number''),
     json_get_strings = (\<lambda>j. case j of JStrings ss \<Rightarrow> Inr ss | _ \<Rightarrow> Inl ''type must be array'')\<rparr>"

text \<open>The routing section of the configuration file the repository ships.\<close>

definition shipped_routing :: json_value where
  "shipped_routing = JObject [(''routing'', JObject [(''enabled'', JBool False),
     (''ingress_iface'', JString ''eth0''), (''egress_iface'', JString ''eth1''),
     (''bidirectional'', JBool False)])]"

lemma shipped_loads:
  "\<exists>c. LoadRuntimeConfigFromJson value_api (\<lambda>_. Some ()) (\<lambda>_. Inr shipped_routing) ''elephantshrew.json'' = Inr c \<and>
     ingress_iface (routing c) = ''eth0''"
proof -
  have "(case LoadRuntimeConfigFromJson value_api (\<lambda>_. Some ()) (\<lambda>_. Inr shipped_routing) ''elephantshrew.json'' of
      Inl _ \<Rightarrow> False | Inr c \<Rightarrow> ingress_iface (routing c) = ''eth0'')"
    by code_simp
  then show ?thesis by (auto split: sum.splits)
qed

theorem loaded_config_valid_witness:
  "\<exists>c. LoadRuntimeConfigFromJson value_api (\<lambda>_. Some ()) (\<lambda>_. Inr shipped_routing) ''elephantshrew.json'' = Inr c \<and>
     limits_ok c \<and> enabled (routing c)"
  using shipped_loads loaded_config_valid [of value_api "\<lambda>_. Some ()" "\<lambda>_. Inr shipped_routing" "''elephantshrew.json''"]
  by auto

end
