(* ===== verification/Cli_Main.thy ===== *)
theory Cli_Main
  imports Runtime_Config
begin

text \<open>
  The command line of \<open>src/ElephantShrewMain.cpp\<close>: parsing of the
  arguments and of a route, the configuration in effect, the stop flag with its signal
  handlers, and the two loops that wait. Signals arrive at any time: \<open>stop i\<close> is what the
  i-th look at the flag sees, and every function that looks at it takes the number of looks
  so far and returns the new one.
\<close>

section \<open>Options and their parsing\<close>

record CliOptions =
  config_path :: "string option"
  cli_ifaces :: "string list"
  route_spec :: "string option"
  cli_record_packets :: bool
  cli_debug_packets :: bool
  bidirectional_route :: bool
  scan_only :: bool

definition CliOptions_new :: CliOptions where
  "CliOptions_new = \<lparr>config_path = None, cli_ifaces = [], route_spec = None, cli_record_packets = False,
     cli_debug_packets = False, bidirectional_route = False, scan_only = False\<rparr>"

datatype cli_error =
    MissingValue string | UnknownArgument string | ScanWithCapture | InterfaceWithRoute
  | BidirectionalWithoutRoute

text \<open>\<open>std::string::find\<close>: the first position of a pattern.\<close>

fun str_find :: "string \<Rightarrow> string \<Rightarrow> nat option" where
  "str_find pat [] = (if pat = [] then Some 0 else None)"
| "str_find pat (c # cs) =
     (if take (length pat) (c # cs) = pat then Some 0 else map_option Suc (str_find pat cs))"

definition ParseRouteSpec :: "string \<Rightarrow> (string \<times> string) option" where
  "ParseRouteSpec spec =
     (let sep = (case str_find ''->'' spec of
            Some i \<Rightarrow> Some (i, 2)
          | None \<Rightarrow> (case str_find '':'' spec of
              Some i \<Rightarrow> Some (i, 1)
            | None \<Rightarrow> (case str_find '','' spec of
                Some i \<Rightarrow> Some (i, 1)
              | None \<Rightarrow> None)))
      in case sep of None \<Rightarrow> None
         | Some (i, n) \<Rightarrow>
             let ingress = take i spec; egress = drop (i + n) spec
             in if ingress \<noteq> [] \<and> egress \<noteq> [] then Some (ingress, egress) else None)"

text \<open>The loop of lines 114 to 169 over the arguments after the program name.\<close>

fun parse_args :: "string list \<Rightarrow> CliOptions \<Rightarrow> cli_error + CliOptions" where
  "parse_args [] o1 = Inr o1"
| "parse_args (arg # args) o1 =
     (if arg = ''-c'' then (case args of [] \<Rightarrow> Inl (MissingValue arg)
        | v # args' \<Rightarrow> parse_args args' (o1\<lparr>config_path := Some v\<rparr>))
      else if arg = ''-i'' then (case args of [] \<Rightarrow> Inl (MissingValue arg)
        | v # args' \<Rightarrow> parse_args args' (o1\<lparr>cli_ifaces := cli_ifaces o1 @ [v]\<rparr>))
      else if arg = ''--route'' then (case args of [] \<Rightarrow> Inl (MissingValue arg)
        | v # args' \<Rightarrow> parse_args args' (o1\<lparr>route_spec := Some v\<rparr>))
      else if arg = ''--bidirectional'' then parse_args args (o1\<lparr>bidirectional_route := True\<rparr>)
      else if arg = ''-s'' then parse_args args (o1\<lparr>scan_only := True\<rparr>)
      else if arg = ''-r'' then parse_args args (o1\<lparr>cli_record_packets := True\<rparr>)
      else if arg = ''-d'' then parse_args args (o1\<lparr>cli_debug_packets := True\<rparr>)
      else Inl (UnknownArgument arg))"

definition check_options :: "CliOptions \<Rightarrow> cli_error + CliOptions" where
  "check_options o1 =
     (if scan_only o1 \<and> (cli_ifaces o1 \<noteq> [] \<or> route_spec o1 \<noteq> None \<or> cli_record_packets o1 \<or>
          cli_debug_packets o1 \<or> bidirectional_route o1) then Inl ScanWithCapture
      else if route_spec o1 \<noteq> None \<and> cli_ifaces o1 \<noteq> [] then Inl InterfaceWithRoute
      else if bidirectional_route o1 \<and> route_spec o1 = None then Inl BidirectionalWithoutRoute
      else Inr o1)"

definition ParseArguments :: "string list \<Rightarrow> cli_error + CliOptions" where
  "ParseArguments args = andThen (parse_args args CliOptions_new) check_options"

section \<open>The configuration in effect\<close>

datatype effective_error = ConfigError config_error | InvalidRoute string | InterfacesWithRouting

definition lift_config :: "config_error + 'a \<Rightarrow> effective_error + 'a" where
  "lift_config r = (case r of Inl e \<Rightarrow> Inl (ConfigError e) | Inr x \<Rightarrow> Inr x)"

text \<open>\<open>load\<close> is \<^const>\<open>LoadRuntimeConfigFromJson\<close> with the JSON library and the files fixed.\<close>

definition apply_flags :: "CliOptions \<Rightarrow> RuntimeConfig \<Rightarrow> RuntimeConfig" where
  "apply_flags o1 c =
     (let c = (if cli_ifaces o1 \<noteq> [] then c\<lparr>capture := (capture c)\<lparr>ifaces := cli_ifaces o1\<rparr>\<rparr> else c);
          c = (if cli_record_packets o1 then c\<lparr>capture := (capture c)\<lparr>record_packets := True\<rparr>\<rparr> else c)
      in if cli_debug_packets o1 then c\<lparr>capture := (capture c)\<lparr>debug_packets := True\<rparr>\<rparr> else c)"

definition apply_route :: "CliOptions \<Rightarrow> RuntimeConfig \<Rightarrow> effective_error + RuntimeConfig" where
  "apply_route o1 c = (case route_spec o1 of
     None \<Rightarrow> Inr c
   | Some spec \<Rightarrow> (case ParseRouteSpec spec of
       None \<Rightarrow> Inl (InvalidRoute spec)
     | Some (ingress, egress) \<Rightarrow>
         Inr (c\<lparr>routing := (routing c)\<lparr>enabled := True, ingress_iface := ingress, egress_iface := egress\<rparr>,
                capture := (capture c)\<lparr>ifaces := []\<rparr>\<rparr>)))"

definition apply_direction :: "CliOptions \<Rightarrow> RuntimeConfig \<Rightarrow> effective_error + RuntimeConfig" where
  "apply_direction o1 c =
     (let c = (if bidirectional_route o1 then c\<lparr>routing := (routing c)\<lparr>bidirectional := True\<rparr>\<rparr> else c)
      in if enabled (routing c) \<and> cli_ifaces o1 \<noteq> [] then Inl InterfacesWithRouting else Inr c)"

definition LoadEffectiveConfig ::
  "(string \<Rightarrow> config_error + RuntimeConfig) \<Rightarrow> CliOptions \<Rightarrow> effective_error + RuntimeConfig" where
  "LoadEffectiveConfig load o1 =
     andThen (case config_path o1 of None \<Rightarrow> Inr default_config | Some path \<Rightarrow> lift_config (load path))
       (\<lambda>c. andThen (apply_route o1 (apply_flags o1 c)) (apply_direction o1))"

section \<open>The stop flag\<close>

datatype signal = SIGINT | SIGTERM | OtherSignal nat

text \<open>A handler changes the flag \<open>g_stopRequested\<close>.\<close>

type_synonym handlers = "signal \<Rightarrow> (signal \<Rightarrow> bool \<Rightarrow> bool) option"

definition RequestStop :: "signal \<Rightarrow> bool \<Rightarrow> bool" where
  "RequestStop sig g_stopRequested = True"

definition InstallSignalHandlers :: "handlers \<Rightarrow> handlers" where
  "InstallSignalHandlers h = h(SIGINT \<mapsto> RequestStop, SIGTERM \<mapsto> RequestStop)"

text \<open>
  A signal without a handler here is one that the process survives. \<open>arrivals i\<close> are the
  signals delivered before the i-th look at the flag and after the look before it.
\<close>

definition deliver :: "handlers \<Rightarrow> signal \<Rightarrow> bool \<Rightarrow> bool" where
  "deliver h sig flag = (case h sig of None \<Rightarrow> flag | Some handler \<Rightarrow> handler sig flag)"

fun StopRequested :: "handlers \<Rightarrow> (nat \<Rightarrow> signal list) \<Rightarrow> nat \<Rightarrow> bool" where
  "StopRequested h arrivals 0 = fold (deliver h) (arrivals 0) False"
| "StopRequested h arrivals (Suc i) = fold (deliver h) (arrivals (Suc i)) (StopRequested h arrivals i)"

section \<open>Waiting\<close>

text \<open>
  \<open>std::chrono::milliseconds\<close> counts in a signed 64-bit integer; \<open>to_ms\<close> is its
  construction from an unsigned option.
\<close>

definition to_ms :: "u64 \<Rightarrow> int" where
  "to_ms n = sint n"

text \<open>
  The loop of \<open>SleepWithStopCheck\<close>: the sleeps it makes and the looks so far. The caller
  makes \<open>poll\<close> positive; testing it here only makes the function total.
\<close>

function sleep_loop :: "(nat \<Rightarrow> bool) \<Rightarrow> nat \<Rightarrow> int \<Rightarrow> int \<Rightarrow> int list \<times> nat" where
  "sleep_loop stop i remaining poll =
     (if remaining > 0 \<and> poll > 0 then
        if stop i then ([], i + 1)
        else
          let sleepFor = (if remaining > poll then poll else remaining);
              (sleeps, j) = sleep_loop stop (i + 1) (remaining - sleepFor) poll
          in (sleepFor # sleeps, j)
      else ([], i))"
  by pat_completeness auto

termination
  by (relation "measure (\<lambda>(stop, i, remaining, poll). nat remaining)") (auto split: if_splits)

declare sleep_loop.simps [simp del]

definition positive_poll :: "int \<Rightarrow> int" where
  "positive_poll poll_interval = (if poll_interval \<le> 0 then 1 else poll_interval)"

definition SleepWithStopCheck :: "(nat \<Rightarrow> bool) \<Rightarrow> nat \<Rightarrow> int \<Rightarrow> int \<Rightarrow> int list \<times> nat" where
  "SleepWithStopCheck stop i delay poll_interval = sleep_loop stop i delay (positive_poll poll_interval)"

text \<open>\<^const>\<open>None\<close> is waiting for ever.\<close>

partial_function (option) wait_loop :: "(nat \<Rightarrow> bool) \<Rightarrow> nat \<Rightarrow> int \<Rightarrow> (int list \<times> nat) option" where
  "wait_loop stop i poll =
     (if stop i then Some ([], i + 1)
      else do {
        (sleeps, j) \<leftarrow> wait_loop stop (i + 1) poll;
        Some (poll # sleeps, j)
      })"

definition WaitUntilStopRequested :: "(nat \<Rightarrow> bool) \<Rightarrow> nat \<Rightarrow> int \<Rightarrow> (int list \<times> nat) option" where
  "WaitUntilStopRequested stop i poll_interval = wait_loop stop i (positive_poll poll_interval)"

section \<open>Lemmas\<close>

definition options_consistent :: "CliOptions \<Rightarrow> bool" where
  "options_consistent o1 \<longleftrightarrow>
     (scan_only o1 \<longrightarrow> cli_ifaces o1 = [] \<and> route_spec o1 = None \<and> \<not> cli_record_packets o1 \<and>
        \<not> cli_debug_packets o1 \<and> \<not> bidirectional_route o1) \<and>
     (route_spec o1 \<noteq> None \<longrightarrow> cli_ifaces o1 = []) \<and>
     (bidirectional_route o1 \<longrightarrow> route_spec o1 \<noteq> None)"

text \<open>An argument list that says the options.\<close>

definition render :: "CliOptions \<Rightarrow> string list" where
  "render o1 =
     (case config_path o1 of None \<Rightarrow> [] | Some p \<Rightarrow> [''-c'', p]) @
     concat (map (\<lambda>i. [''-i'', i]) (cli_ifaces o1)) @
     (case route_spec o1 of None \<Rightarrow> [] | Some r \<Rightarrow> [''--route'', r]) @
     (if bidirectional_route o1 then [''--bidirectional''] else []) @
     (if scan_only o1 then [''-s''] else []) @
     (if cli_record_packets o1 then [''-r''] else []) @
     (if cli_debug_packets o1 then [''-d''] else [])"

lemma check_options_Inr: "check_options o1 = Inr o2 \<longleftrightarrow> o2 = o1 \<and> options_consistent o1"
  by (auto simp: check_options_def options_consistent_def)

lemma parse_args_ifaces:
  "parse_args (concat (map (\<lambda>i. [''-i'', i]) is) @ rest) o1 =
   parse_args rest (o1\<lparr>cli_ifaces := cli_ifaces o1 @ is\<rparr>)"
  by (induction "is" arbitrary: o1) simp_all

lemma parse_args_render: "parse_args (render o1) CliOptions_new = Inr o1"
  by (cases "config_path o1"; cases "route_spec o1")
    (simp_all add: render_def parse_args_ifaces CliOptions_new_def)

lemma str_find_Some: "str_find pat s = Some i \<Longrightarrow> i + length pat \<le> length s \<and> take (length pat) (drop i s) = pat"
proof (induction s arbitrary: i)
  case Nil
  then show ?case by (simp split: if_splits)
next
  case (Cons c cs)
  show ?case
  proof (cases "take (length pat) (c # cs) = pat")
    case True
    then have "length pat \<le> length (c # cs)"
      by (metis length_take min.cobounded1)
    with True Cons.prems show ?thesis by simp
  next
    case False
    with Cons.prems obtain j where "str_find pat cs = Some j" and "i = Suc j" by auto
    with Cons.IH show ?thesis by simp
  qed
qed

lemma str_find_Some_split:
  assumes "str_find pat s = Some i"
  shows "s = take i s @ pat @ drop (i + length pat) s"
proof -
  have "drop i s = pat @ drop (length pat) (drop i s)"
    using str_find_Some [OF assms] append_take_drop_id [of "length pat" "drop i s"] by metis
  then show ?thesis
    using append_take_drop_id [of i s] by (simp add: add.commute)
qed

lemma str_find_char_None: "str_find [c] s = None \<longleftrightarrow> c \<notin> set s"
  by (induction s) auto

lemma str_find_char: "c \<notin> set a \<Longrightarrow> str_find [c] (a @ [c] @ b) = Some (length a)"
  by (induction a) auto

lemma str_find_arrow_None: "CHR ''>'' \<notin> set s \<Longrightarrow> str_find ''->'' s = None"
proof (induction s)
  case (Cons c cs)
  then show ?case by (cases cs) auto
qed simp

lemma str_find_arrow: "CHR ''>'' \<notin> set a \<Longrightarrow> str_find ''->'' (a @ ''->'' @ b) = Some (length a)"
proof (induction a)
  case (Cons c cs)
  then show ?case by (cases cs) auto
qed simp

definition plain_name :: "string \<Rightarrow> bool" where
  "plain_name s \<longleftrightarrow> s \<noteq> [] \<and> set s \<inter> {CHR ''>'', CHR '':'', CHR '',''} = {}"

lemma sleep_loop_sleeps:
  assumes "0 < poll" and "sleep_loop stop i r poll = (sleeps, j)"
  shows "(\<forall>s \<in> set sleeps. 0 < s \<and> s \<le> poll) \<and> sum_list sleeps \<le> max 0 r \<and>
    (\<forall>l < length sleeps. \<not> stop (i + l)) \<and>
    (sum_list sleeps = max 0 r \<and> j = i + length sleeps \<or>
     sum_list sleeps < r \<and> stop (i + length sleeps) \<and> j = i + length sleeps + 1)"
  using assms
proof (induction stop i r poll arbitrary: sleeps j rule: sleep_loop.induct)
  case (1 stop i r poll)
  show ?case
  proof (cases "r > 0 \<and> \<not> stop i")
    case False
    then have "sleeps = []" and "j = (if r > 0 then i + 1 else i)"
      using False "1.prems" by (cases "r > 0"; simp add: sleep_loop.simps [of stop i r poll])+
    with False show ?thesis by auto
  next
    case True
    let ?s = "if r > poll then poll else r"
    obtain ss j' where rest: "sleep_loop stop (i + 1) (r - ?s) poll = (ss, j')" by fastforce
    have IH: "(\<forall>s \<in> set ss. 0 < s \<and> s \<le> poll) \<and> sum_list ss \<le> max 0 (r - ?s) \<and>
        (\<forall>l < length ss. \<not> stop (i + 1 + l)) \<and>
        (sum_list ss = max 0 (r - ?s) \<and> j' = i + 1 + length ss \<or>
         sum_list ss < r - ?s \<and> stop (i + 1 + length ss) \<and> j' = i + 1 + length ss + 1)"
      using "1.IH" [of ?s ss j'] True "1.prems" rest by simp
    have run: "sleeps = ?s # ss" "j = j'"
      using True "1.prems" rest by (auto simp: sleep_loop.simps [of stop i r poll] Let_def)
    have "\<forall>l < length (?s # ss). \<not> stop (i + l)"
      using IH True by (auto simp: less_Suc_eq_0_disj)
    with IH True "1.prems" show ?thesis
      unfolding run by auto
  qed
qed

text \<open>The flag is set by the first signal that asks for a stop, and stays set.\<close>

definition asks_to_stop :: "signal \<Rightarrow> bool" where
  "asks_to_stop sig \<longleftrightarrow> sig = SIGINT \<or> sig = SIGTERM"

lemma deliver_installed: "deliver (InstallSignalHandlers Map.empty) sig flag \<longleftrightarrow> flag \<or> asks_to_stop sig"
  by (simp add: deliver_def InstallSignalHandlers_def RequestStop_def asks_to_stop_def)

lemma fold_deliver: "fold (deliver (InstallSignalHandlers Map.empty)) sigs flag \<longleftrightarrow> flag \<or> (\<exists>sig \<in> set sigs. asks_to_stop sig)"
  by (induction sigs arbitrary: flag) (auto simp: deliver_installed)

lemma StopRequested_iff:
  "StopRequested (InstallSignalHandlers Map.empty) arrivals i \<longleftrightarrow> (\<exists>j \<le> i. \<exists>sig \<in> set (arrivals j). asks_to_stop sig)"
  by (induction i) (auto simp: fold_deliver le_Suc_eq)

declare StopRequested.simps [simp del]

text \<open>The waiting loop returns if and only if a stop is seen, and at the first look that sees it.\<close>

lemma wait_loop_returns: "wait_loop stop i poll = Some r \<Longrightarrow>
    \<exists>m. r = (replicate m poll, i + m + 1) \<and> stop (i + m) \<and> (\<forall>l < m. \<not> stop (i + l))"
proof (erule wait_loop.raw_induct [where P = "\<lambda>stop i poll r.
    \<exists>m. r = (replicate m poll, i + m + 1) \<and> stop (i + m) \<and> (\<forall>l < m. \<not> stop (i + l))", rotated])
  fix loop :: "(nat \<Rightarrow> bool) \<Rightarrow> nat \<Rightarrow> int \<Rightarrow> (int list \<times> nat) option" and stop i poll r
  assume IH: "\<And>stop i poll r. loop stop i poll = Some r \<Longrightarrow>
      \<exists>m. r = (replicate m poll, i + m + 1) \<and> stop (i + m) \<and> (\<forall>l < m. \<not> stop (i + l))"
    and run: "(if stop i then Some ([], i + 1)
      else loop stop (i + 1) poll \<bind> (\<lambda>(sleeps, j). Some (poll # sleeps, j))) = Some r"
  show "\<exists>m. r = (replicate m poll, i + m + 1) \<and> stop (i + m) \<and> (\<forall>l < m. \<not> stop (i + l))"
  proof (cases "stop i")
    case True
    with run show ?thesis by (intro exI [of _ 0]) simp
  next
    case False
    then obtain ss j where "loop stop (i + 1) poll = Some (ss, j)" and r: "r = (poll # ss, j)"
      using run by (auto split: bind_splits)
    then obtain m where "ss = replicate m poll" "j = i + 1 + m + 1" "stop (i + 1 + m)"
      "\<forall>l < m. \<not> stop (i + 1 + l)"
      using IH by blast
    with False r show ?thesis
      by (intro exI [of _ "Suc m"]) (auto simp: less_Suc_eq_0_disj)
  qed
qed

lemma wait_loop_stops: "stop (i + n) \<Longrightarrow> \<exists>m \<le> n. stop (i + m) \<and> wait_loop stop i poll = Some (replicate m poll, i + m + 1)"
proof (induction n arbitrary: i)
  case 0
  then show ?case by (simp add: wait_loop.simps [of stop i])
next
  case (Suc n)
  show ?case
  proof (cases "stop i")
    case True
    then show ?thesis by (intro exI [of _ 0]) (simp add: wait_loop.simps [of stop i])
  next
    case False
    obtain m where "m \<le> n" and "stop (i + 1 + m)" and "wait_loop stop (i + 1) poll = Some (replicate m poll, i + 1 + m + 1)"
      using Suc.IH [of "i + 1"] Suc.prems by auto
    with False show ?thesis
      by (intro exI [of _ "Suc m"]) (simp add: wait_loop.simps [of stop i])
  qed
qed

text \<open>Without a route on the command line, routing stays as valid as the file left it.\<close>

lemma effective_routing_ok:
  assumes "\<And>path c. load path = Inr c \<Longrightarrow> routing_ok (routing c)"
    and "LoadEffectiveConfig load o1 = Inr c" and "route_spec o1 = None"
  shows "routing_ok (routing c)"
proof -
  obtain c0 where c0: "(case config_path o1 of None \<Rightarrow> Inr default_config | Some path \<Rightarrow> lift_config (load path)) = Inr c0"
    and c: "apply_direction o1 (apply_flags o1 c0) = Inr c"
    using assms(2,3) by (auto simp: LoadEffectiveConfig_def andThen_Inr apply_route_def)
  have "routing_ok (routing c0)"
    using c0 assms(1) by (auto simp: lift_config_def default_config_def routing_ok_def split: option.splits sum.splits)
  moreover have "routing (apply_flags o1 c0) = routing c0"
    by (simp add: apply_flags_def)
  ultimately show ?thesis
    using c by (auto simp: apply_direction_def Let_def routing_ok_def split: if_splits)
qed

section \<open>Properties\<close>

text \<open>
  C23: The option values the command line can produce are exactly the consistent ones (no
  capture flags with a scan, no interfaces with a route, no direction without a route), and
  writing such options as arguments and parsing them gives them back.
\<close>

theorem ParseArguments_exact:
  "((\<exists>args. ParseArguments args = Inr o1) \<longleftrightarrow> options_consistent o1) \<and>
   (ParseArguments (render o1) = Inr o1 \<longleftrightarrow> options_consistent o1)"
proof -
  have "ParseArguments (render o1) = Inr o1 \<longleftrightarrow> options_consistent o1"
    by (simp add: ParseArguments_def parse_args_render check_options_Inr)
  moreover have "ParseArguments args = Inr o1 \<Longrightarrow> options_consistent o1" for args
    by (auto simp: ParseArguments_def andThen_Inr check_options_Inr)
  ultimately show ?thesis by blast
qed

text \<open>
  Routes round trip. Two interface names without separator characters, joined by an
  arrow, a colon or a comma, are parsed back to the two names; and whatever
  \<open>ParseRouteSpec\<close> accepts is two non-empty names joined by one of the three.
\<close>

theorem ParseRouteSpec_roundtrip:
  assumes "plain_name a" and "plain_name b"
  shows "ParseRouteSpec (a @ ''->'' @ b) = Some (a, b) \<and> ParseRouteSpec (a @ '':'' @ b) = Some (a, b) \<and>
    ParseRouteSpec (a @ '','' @ b) = Some (a, b) \<and>
    (ParseRouteSpec s = Some (x, y) \<longrightarrow> x \<noteq> [] \<and> y \<noteq> [] \<and>
       (s = x @ ''->'' @ y \<or> s = x @ '':'' @ y \<or> s = x @ '','' @ y))"
proof -
  have chars: "CHR ''>'' \<notin> set a" "CHR ''>'' \<notin> set b" "CHR '':'' \<notin> set a" "CHR '':'' \<notin> set b"
    "CHR '','' \<notin> set a" and ne: "a \<noteq> []" "b \<noteq> []"
    using assms by (auto simp: plain_name_def)
  have "ParseRouteSpec (a @ ''->'' @ b) = Some (a, b)"
    unfolding ParseRouteSpec_def str_find_arrow [OF chars(1)] using ne by simp
  moreover have "str_find ''->'' (a @ '':'' @ b) = None" and "str_find ''->'' (a @ '','' @ b) = None"
    using chars by (auto intro!: str_find_arrow_None)
  moreover have "str_find '':'' (a @ '','' @ b) = None"
    using chars by (auto simp: str_find_char_None)
  ultimately have "ParseRouteSpec (a @ ''->'' @ b) = Some (a, b)" "ParseRouteSpec (a @ '':'' @ b) = Some (a, b)"
    "ParseRouteSpec (a @ '','' @ b) = Some (a, b)"
    using str_find_char [OF chars(3), of b] str_find_char [OF chars(5), of b] ne
    by (simp_all add: ParseRouteSpec_def Let_def)
  moreover have "x \<noteq> [] \<and> y \<noteq> [] \<and> (s = x @ ''->'' @ y \<or> s = x @ '':'' @ y \<or> s = x @ '','' @ y)"
    if "ParseRouteSpec s = Some (x, y)"
    using that str_find_Some_split [of "''->''" s] str_find_Some_split [of "'':''" s]
      str_find_Some_split [of "'',''" s]
    by (auto simp: ParseRouteSpec_def Let_def split: option.splits if_splits)
  ultimately show ?thesis by blast
qed

theorem ParseRouteSpec_roundtrip_witness:
  "ParseRouteSpec ''eth0->wlan-1'' = Some (''eth0'', ''wlan-1'')"
  using ParseRouteSpec_roundtrip [of "''eth0''" "''wlan-1''"] by (simp add: plain_name_def)

text \<open>
  The configuration in effect. If every file that loads is valid, the configuration
  the program runs with keeps the limits, and when it routes then both interfaces are named
  and no capture interface was given on the command line; without a route on the command
  line the routing is valid, and with one it is exactly that route and nothing is captured
  besides it.
\<close>

theorem effective_config:
  assumes "\<And>path c. load path = Inr c \<Longrightarrow> limits_ok c \<and> routing_ok (routing c)"
    and "LoadEffectiveConfig load o1 = Inr c"
  shows "limits_ok c \<and>
    (enabled (routing c) \<longrightarrow> ingress_iface (routing c) \<noteq> [] \<and> egress_iface (routing c) \<noteq> [] \<and> cli_ifaces o1 = []) \<and>
    (case route_spec o1 of
       None \<Rightarrow> routing_ok (routing c)
     | Some spec \<Rightarrow> enabled (routing c) \<and> ifaces (capture c) = [] \<and>
         ParseRouteSpec spec = Some (ingress_iface (routing c), egress_iface (routing c)))"
proof -
  obtain c0 c1 where base: "(case config_path o1 of None \<Rightarrow> Inr default_config | Some path \<Rightarrow> lift_config (load path)) = Inr c0"
    and route: "apply_route o1 (apply_flags o1 c0) = Inr c1" and dir: "apply_direction o1 c1 = Inr c"
    using assms(2) by (auto simp: LoadEffectiveConfig_def andThen_Inr)
  have "limits_ok default_config \<and> routing_ok (routing default_config)"
    by (simp add: default_config_def limits_ok_def routing_ok_def)
  then have c0: "limits_ok c0" "routing_ok (routing c0)"
    using base assms(1) by (auto simp: lift_config_def split: option.splits sum.splits)
  have flags: "limits_ok (apply_flags o1 c0)" "routing (apply_flags o1 c0) = routing c0"
    using c0 by (simp_all add: apply_flags_def limits_ok_def)
  have c: "redis c = redis c1" "supervisor c = supervisor c1" "capture c = capture c1"
    "enabled (routing c) = enabled (routing c1)" "ingress_iface (routing c) = ingress_iface (routing c1)"
    "egress_iface (routing c) = egress_iface (routing c1)" "enabled (routing c) \<Longrightarrow> cli_ifaces o1 = []"
    using dir by (auto simp: apply_direction_def Let_def split: if_splits)
  show ?thesis
  proof (cases "route_spec o1")
    case None
    then have "c1 = apply_flags o1 c0" using route by (simp add: apply_route_def)
    with None show ?thesis
      using flags c0 c by (auto simp: limits_ok_def routing_ok_def)
  next
    case (Some spec)
    then obtain x y where parsed: "ParseRouteSpec spec = Some (x, y)"
      and c1: "c1 = (apply_flags o1 c0)\<lparr>routing := (routing (apply_flags o1 c0))\<lparr>enabled := True,
        ingress_iface := x, egress_iface := y\<rparr>, capture := (capture (apply_flags o1 c0))\<lparr>ifaces := []\<rparr>\<rparr>"
      using route by (auto simp: apply_route_def split: option.splits)
    have "x \<noteq> []" "y \<noteq> []"
      using parsed by (auto simp: ParseRouteSpec_def Let_def split: option.splits if_splits)
    then show ?thesis
      using Some parsed flags c by (simp add: c1 limits_ok_def)
  qed
qed

theorem effective_config_witness:
  "\<exists>c. LoadEffectiveConfig (\<lambda>_. Inl SameInterfaces) (CliOptions_new\<lparr>route_spec := Some ''a:b''\<rparr>) = Inr c \<and>
     limits_ok c \<and> ingress_iface (routing c) = ''a''"
proof -
  have run: "LoadEffectiveConfig (\<lambda>_. Inl SameInterfaces) (CliOptions_new\<lparr>route_spec := Some ''a:b''\<rparr>) =
    Inr (default_config\<lparr>routing := \<lparr>enabled = True, ingress_iface = ''a'', egress_iface = ''b'', bidirectional = False\<rparr>\<rparr>)"
    by (simp add: LoadEffectiveConfig_def CliOptions_new_def apply_route_def apply_flags_def
        apply_direction_def ParseRouteSpec_def default_config_def)
  show ?thesis
    using effective_config [OF _ run] run by simp
qed

text \<open>
  The check that a route's interfaces differ, which the file loader makes, is not made
  for a route given on the command line: \<open>--route eth0:eth0\<close> is accepted and yields a
  configuration that routes an interface to itself.
\<close>

theorem route_to_same_interface_accepted:
  "\<exists>o1 c. ParseArguments [''--route'', ''eth0:eth0''] = Inr o1 \<and> LoadEffectiveConfig load o1 = Inr c \<and>
     enabled (routing c) \<and> ingress_iface (routing c) = egress_iface (routing c) \<and> \<not> routing_ok (routing c)"
  by (simp add: ParseArguments_def CliOptions_new_def check_options_def LoadEffectiveConfig_def apply_route_def
      apply_flags_def apply_direction_def ParseRouteSpec_def default_config_def routing_ok_def)

text \<open>
  The interruptible sleep. \<open>SleepWithStopCheck\<close> always returns; each of its sleeps is
  positive and at most the poll interval (at least a millisecond), it looks at the stop flag
  before each of them and goes on only when it is not set, and together the sleeps are the
  whole delay unless the last look saw a stop.
\<close>

theorem SleepWithStopCheck_spec:
  assumes "SleepWithStopCheck stop i delay poll = (sleeps, j)"
  shows "(\<forall>s \<in> set sleeps. 0 < s \<and> s \<le> max 1 poll) \<and> (\<forall>l < length sleeps. \<not> stop (i + l)) \<and>
    (sum_list sleeps = max 0 delay \<and> j = i + length sleeps \<or>
     sum_list sleeps < delay \<and> stop (i + length sleeps) \<and> j = i + length sleeps + 1)"
proof -
  have "positive_poll poll = max 1 poll" and "0 < positive_poll poll"
    by (auto simp: positive_poll_def)
  then show ?thesis
    using sleep_loop_sleeps [of "positive_poll poll" stop i delay sleeps j] assms
    by (simp add: SleepWithStopCheck_def)
qed

theorem SleepWithStopCheck_spec_witness:
  "sum_list (fst (SleepWithStopCheck (\<lambda>_. False) 0 2000 200)) = 2000"
  using SleepWithStopCheck_spec [of "\<lambda>_. False" 0 2000 200 "fst (SleepWithStopCheck (\<lambda>_. False) 0 2000 200)"]
  by (metis (no_types, lifting) max_def prod.collapse zero_le_numeral)

end
