(* ===== verification/Redis_Store.thy ===== *)
theory Redis_Store
  imports Runtime_Config "HOL-Library.Multiset"
begin

text \<open>
  The packet store of \<open>src/RedisPacketStore.cpp\<close>: \<open>Store\<close> reserves one of a bounded number of
  pending writes, waiting while none is free, and posts a handler to the I/O thread that
  hands an XADD request to the connection; its reply, or a failure on the way, completes the
  write. The destructor refuses new writes, waits a bounded time for the pending ones, then
  cancels the connection and stops the I/O thread.

  Operations under the mutex are functions; callers of \<open>Store\<close>, the I/O thread and the
  destructor interleave in the step relation \<open>store_step\<close>, one critical section or posting
  per step. Boost.Asio runs posted handlers in
  the order of their posting; Redis's replies arrive at any time and in any order.
\<close>

section \<open>Packets and requests\<close>

record PacketInfo =
  pi_iface :: string
  pi_src_ip :: string
  pi_dst_ip :: string
  pi_protocol :: string
  pi_length :: u32
  pi_data_hex :: string
  pi_timestamp_us :: u64

text \<open>\<open>std::to_string\<close> of an unsigned integer.\<close>

definition digit :: "nat \<Rightarrow> char" where
  "digit n = ''0123456789abcdef'' ! n"

fun to_string :: "nat \<Rightarrow> string" where
  "to_string n = (if n < 10 then [digit n] else to_string (n div 10) @ [digit (n mod 10)])"

declare to_string.simps [simp del]

text \<open>The arguments of the request of lines 86 to 94.\<close>

definition xadd_request :: "string \<Rightarrow> PacketInfo \<Rightarrow> string list" where
  "xadd_request key p =
     [''XADD'', key, ''*'',
      ''iface'', pi_iface p, ''src_ip'', pi_src_ip p, ''dst_ip'', pi_dst_ip p,
      ''protocol'', pi_protocol p, ''length'', to_string (unat (pi_length p)),
      ''timestamp_us'', to_string (unat (pi_timestamp_us p)), ''data'', pi_data_hex p]"

section \<open>Construction\<close>

datatype ping_outcome = PingTimeout | PingFailed string | PingReply string

datatype store_error = BadOption string | ConnectTimeout | ConnectFailed string | UnexpectedReply string

record store =
  options :: RedisStoreOptions
  pending_writes :: u64
  accepting_writes :: bool

definition ValidateConnection :: "ping_outcome \<Rightarrow> store_error + unit" where
  "ValidateConnection outcome = (case outcome of
     PingTimeout \<Rightarrow> Inl ConnectTimeout
   | PingFailed e \<Rightarrow> Inl (ConnectFailed e)
   | PingReply reply \<Rightarrow> if reply \<noteq> ''PONG'' then Inl (UnexpectedReply reply) else Inr ())"

definition RedisPacketStore :: "RedisStoreOptions \<Rightarrow> ping_outcome \<Rightarrow> store_error + store" where
  "RedisPacketStore opts outcome =
     (if host opts = [] then Inl (BadOption ''host'')
      else if port opts = [] then Inl (BadOption ''port'')
      else if stream_key opts = [] then Inl (BadOption ''stream_key'')
      else if max_pending_writes opts = 0 then Inl (BadOption ''max_pending_writes'')
      else if connect_timeout_ms opts = 0 then Inl (BadOption ''connect_timeout_ms'')
      else if drain_timeout_ms opts = 0 then Inl (BadOption ''drain_timeout_ms'')
      else andThen (ValidateConnection outcome) (\<lambda>_.
        Inr \<lparr>options = opts, pending_writes = 0, accepting_writes = True\<rparr>))"

section \<open>Operations under the mutex\<close>

text \<open>\<^const>\<open>None\<close> while the condition variable's predicate is false and the caller waits.\<close>

definition ReservePendingWriteSlot :: "store \<Rightarrow> (bool \<times> store) option" where
  "ReservePendingWriteSlot st =
     (if \<not> (pending_writes st < max_pending_writes (options st) \<or> \<not> accepting_writes st) then None
      else if \<not> accepting_writes st then Some (False, st)
      else Some (True, st\<lparr>pending_writes := pending_writes st + 1\<rparr>))"

definition CompletePendingWrite :: "store \<Rightarrow> store" where
  "CompletePendingWrite st =
     (if pending_writes st > 0 then st\<lparr>pending_writes := pending_writes st - 1\<rparr> else st)"

text \<open>The predicate of \<open>WaitForPendingWrites\<close>, and the first lines of the destructor.\<close>

definition drained :: "store \<Rightarrow> bool" where
  "drained st \<longleftrightarrow> pending_writes st = 0"

definition refuse_writes :: "store \<Rightarrow> store" where
  "refuse_writes st = st\<lparr>accepting_writes := False\<rparr>"

section \<open>Threads and the I/O context\<close>

text \<open>
  How far the store's life is: serving, in the destructor's wait (lines 60 to 65), the
  connection cancelled (line 67), the I/O thread stopped and joined (lines 68 to 70).
\<close>

datatype store_phase = Serving | Draining | Cancelled | Stopped

record store_system =
  store_of :: store
  phase :: store_phase
  timed_out :: bool                  \<comment> \<open>the wait for pending writes gave up\<close>
  reserved :: "PacketInfo list"      \<comment> \<open>of callers between \<open>ReservePendingWriteSlot\<close> and \<open>post\<close>\<close>
  posted :: "PacketInfo list"        \<comment> \<open>handlers in the I/O context's queue\<close>
  sent :: "PacketInfo list"          \<comment> \<open>requests waiting for their reply\<close>
  handed :: "PacketInfo list"        \<comment> \<open>packets whose request the connection was given, in order\<close>
  requests :: "string list list"     \<comment> \<open>those requests\<close>
  taken_in :: "PacketInfo list"      \<comment> \<open>packets whose write was reserved, in order\<close>
  refused :: "PacketInfo list"       \<comment> \<open>packets dropped because of the shutdown\<close>
  failed :: "PacketInfo list"        \<comment> \<open>packets lost to an exception before the request\<close>

definition store_start :: "store \<Rightarrow> store_system" where
  "store_start st = \<lparr>store_of = st, phase = Serving, timed_out = False, reserved = [], posted = [], sent = [], handed = [],
     requests = [], taken_in = [], refused = [], failed = []\<rparr>"

text \<open>
  One critical section, posting or callback; the callers of \<open>Store\<close>, the I/O thread and the
  destructor take part in the ones that are theirs.
\<close>

datatype store_action =
    Reserve PacketInfo | PostHandler PacketInfo | PostThrows PacketInfo | Refuse PacketInfo
  | HandlerExec | HandlerThrows | Reply
  | StopAccepting | WaitDone | WaitTimeout | StopIo

inductive store_event :: "store_action \<Rightarrow> store_system \<Rightarrow> store_system \<Rightarrow> bool" where
  store_reserve: "ReservePendingWriteSlot (store_of s) = Some (True, st) \<Longrightarrow>
    store_event (Reserve p) s (s\<lparr>store_of := st, reserved := reserved s @ [p], taken_in := taken_in s @ [p]\<rparr>)"
| store_post: "reserved s = us @ p # vs \<Longrightarrow>
    store_event (PostHandler p) s (s\<lparr>reserved := us @ vs, posted := posted s @ [p]\<rparr>)"
| post_throws: "reserved s = us @ p # vs \<Longrightarrow>
    store_event (PostThrows p) s
      (s\<lparr>reserved := us @ vs, failed := failed s @ [p], store_of := CompletePendingWrite (store_of s)\<rparr>)"
| store_refuse: "ReservePendingWriteSlot (store_of s) = Some (False, st) \<Longrightarrow>
    store_event (Refuse p) s (s\<lparr>store_of := st, refused := refused s @ [p]\<rparr>)"
| handler_exec: "phase s \<noteq> Stopped \<Longrightarrow> posted s = p # ps \<Longrightarrow>
    store_event HandlerExec s (s\<lparr>posted := ps, sent := sent s @ [p], handed := handed s @ [p],
      requests := requests s @ [xadd_request (stream_key (options (store_of s))) p]\<rparr>)"
| handler_throws: "phase s \<noteq> Stopped \<Longrightarrow> posted s = p # ps \<Longrightarrow>
    store_event HandlerThrows s
      (s\<lparr>posted := ps, failed := failed s @ [p], store_of := CompletePendingWrite (store_of s)\<rparr>)"
| reply: "phase s \<noteq> Stopped \<Longrightarrow> sent s = us @ p # vs \<Longrightarrow>
    store_event Reply s (s\<lparr>sent := us @ vs, store_of := CompletePendingWrite (store_of s)\<rparr>)"
| stop_accepting: "phase s = Serving \<Longrightarrow>
    store_event StopAccepting s (s\<lparr>phase := Draining, store_of := refuse_writes (store_of s)\<rparr>)"
| wait_done: "phase s = Draining \<Longrightarrow> drained (store_of s) \<Longrightarrow> store_event WaitDone s (s\<lparr>phase := Cancelled\<rparr>)"
| wait_timeout: "phase s = Draining \<Longrightarrow> \<not> drained (store_of s) \<Longrightarrow>
    store_event WaitTimeout s (s\<lparr>phase := Cancelled, timed_out := True\<rparr>)"
| stop_io: "phase s = Cancelled \<Longrightarrow> store_event StopIo s (s\<lparr>phase := Stopped\<rparr>)"

text \<open>A step of the store: whichever of these can happen next.\<close>

definition store_step :: "store_system \<Rightarrow> store_system \<Rightarrow> bool" where
  "store_step s s' \<longleftrightarrow> (\<exists>e. store_event e s s')"

lemma store_stepI: "store_event e s s' \<Longrightarrow> store_step s s'"
  by (auto simp: store_step_def)

section \<open>The invariant\<close>

definition store_init :: "RedisStoreOptions \<Rightarrow> store_system \<Rightarrow> bool" where
  "store_init opts s \<longleftrightarrow> (\<exists>ping st. RedisPacketStore opts ping = Inr st \<and> s = store_start st)"

definition store_ok :: "RedisStoreOptions \<Rightarrow> store_system \<Rightarrow> bool" where
  "store_ok opts s \<longleftrightarrow> options (store_of s) = opts \<and>
     unat (pending_writes (store_of s)) = length (reserved s) + length (posted s) + length (sent s) \<and>
     unat (pending_writes (store_of s)) \<le> unat (max_pending_writes opts) \<and>
     mset (taken_in s) = mset (handed s) + mset (reserved s) + mset (posted s) + mset (failed s) \<and>
     requests s = map (xadd_request (stream_key opts)) (handed s) \<and>
     (phase s = Serving \<longleftrightarrow> accepting_writes (store_of s)) \<and>
     (phase s \<in> {Cancelled, Stopped} \<and> \<not> timed_out s \<longrightarrow> reserved s = [] \<and> posted s = [] \<and> sent s = [])"

lemma Reserve_True:
  assumes "ReservePendingWriteSlot st = Some (True, st')"
  shows "accepting_writes st" and "options st' = options st" and "accepting_writes st' = accepting_writes st"
    and "unat (pending_writes st') = unat (pending_writes st) + 1"
    and "unat (pending_writes st') \<le> unat (max_pending_writes (options st))"
proof -
  have st': "st' = st\<lparr>pending_writes := pending_writes st + 1\<rparr>" and less: "pending_writes st < max_pending_writes (options st)"
    and "accepting_writes st"
    using assms by (auto simp: ReservePendingWriteSlot_def split: if_splits)
  have "unat (pending_writes st) + 1 \<le> unat (max_pending_writes (options st))"
    using less by (simp add: word_less_nat_alt)
  moreover from this have "unat (pending_writes st + 1) = unat (pending_writes st) + 1"
    using unat_u64_less [of "max_pending_writes (options st)"] unat_add_small [of "pending_writes st" 1] by simp
  ultimately show "accepting_writes st" and "options st' = options st" and "accepting_writes st' = accepting_writes st"
    and "unat (pending_writes st') = unat (pending_writes st) + 1"
    and "unat (pending_writes st') \<le> unat (max_pending_writes (options st))"
    using \<open>accepting_writes st\<close> by (simp_all add: st')
qed

lemma Reserve_False: "ReservePendingWriteSlot st = Some (False, st') \<Longrightarrow> st' = st \<and> \<not> accepting_writes st"
  by (auto simp: ReservePendingWriteSlot_def split: if_splits)

lemma refuse_simps [simp]:
  "options (refuse_writes st) = options st" "pending_writes (refuse_writes st) = pending_writes st"
  "\<not> accepting_writes (refuse_writes st)"
  by (simp_all add: refuse_writes_def)

lemma Complete_simps [simp]:
  "options (CompletePendingWrite st) = options st" "accepting_writes (CompletePendingWrite st) = accepting_writes st"
  by (simp_all add: CompletePendingWrite_def)

lemma unat_Complete: "unat (pending_writes (CompletePendingWrite st)) = unat (pending_writes st) - 1"
proof (cases "pending_writes st = 0")
  case False
  then have "1 \<le> pending_writes st"
    by (simp add: word_le_nat_alt unat_gt_0 Suc_le_eq)
  then show ?thesis
    using False by (simp add: CompletePendingWrite_def unat_sub word_neq_0_conv)
qed (simp add: CompletePendingWrite_def)

lemma store_ok_event:
  assumes "store_ok opts s" and "store_event e s s'"
  shows "store_ok opts s'"
  using assms(2)
proof cases
  case (store_reserve st p)
  then show ?thesis using assms(1) Reserve_True [OF store_reserve(3)] by (auto simp: store_ok_def)
next
  case (store_refuse st p)
  then show ?thesis using assms(1) Reserve_False [OF store_refuse(3)] by (simp add: store_ok_def)
qed (use assms(1) in \<open>auto simp: store_ok_def unat_Complete drained_def\<close>)

lemma store_ok_step: "store_ok opts s \<Longrightarrow> store_step s s' \<Longrightarrow> store_ok opts s'"
  unfolding store_step_def by (blast intro: store_ok_event)

lemma store_ok_init: "store_init opts s \<Longrightarrow> store_ok opts s"
  by (auto simp: store_init_def store_ok_def store_start_def RedisPacketStore_def andThen_Inr split: if_splits)

interpretation store: invariant_system "store_init opts" store_step "store_ok opts" for opts
  by unfold_locales (auto intro: store_ok_init store_ok_step)

lemma store_reached_ok:
  "RedisPacketStore opts ping = Inr st \<Longrightarrow> store_step\<^sup>*\<^sup>* (store_start st) s \<Longrightarrow> store_ok opts s"
  by (rule store.reached_ok [of opts "store_start st"]) (auto simp: store_init_def)

section \<open>Reading a request back\<close>

text \<open>The number a text of decimal digits denotes.\<close>

definition decimal :: "string \<Rightarrow> nat" where
  "decimal = foldl (\<lambda>n c. 10 * n + (of_char c - 48)) 0"

lemma of_char_digit: "n < 10 \<Longrightarrow> (of_char (digit n) :: nat) = 48 + n"
proof -
  have "\<forall>n \<in> set [0..<10]. (of_char (digit n) :: nat) = 48 + n" by code_simp
  then show "n < 10 \<Longrightarrow> (of_char (digit n) :: nat) = 48 + n" by simp
qed

lemma decimal_to_string: "decimal (to_string n) = n"
proof (induction n rule: to_string.induct)
  case (1 n)
  show ?case
  proof (cases "n < 10")
    case True
    then show ?thesis by (subst to_string.simps) (simp add: decimal_def of_char_digit)
  next
    case False
    with 1 show ?thesis
      by (subst to_string.simps) (simp add: decimal_def of_char_digit)
  qed
qed

section \<open>Properties\<close>

text \<open>
  C31: Bounded and exact accounting of writes. In every state the threads can reach, the
  counter of pending writes is the number of callers about to post, handlers queued and
  requests waiting for a reply, and never exceeds \<open>max_pending_writes\<close>; the packets whose
  write was reserved are exactly those handed to the connection, those still on their way
  there and those that failed, none lost or duplicated; and the requests are the XADD commands of the packets handed over.
\<close>

theorem store_writes_accounted:
  assumes "RedisPacketStore opts ping = Inr st" and "store_step\<^sup>*\<^sup>* (store_start st) s"
  shows "unat (pending_writes (store_of s)) = length (reserved s) + length (posted s) + length (sent s) \<and>
    unat (pending_writes (store_of s)) \<le> unat (max_pending_writes opts) \<and>
    mset (taken_in s) = mset (handed s) + mset (reserved s) + mset (posted s) + mset (failed s) \<and>
    requests s = map (xadd_request (stream_key opts)) (handed s)"
  using store_reached_ok [OF assms] by (simp add: store_ok_def)

text \<open>
  C32: What a destroyed store has lost. Once the destructor has stopped the I/O thread, no
  step sends a request or takes a packet in any more. If the wait for the pending writes
  did not time out, every packet taken in was handed to the connection and answered, or
  failed with an exception; if it did, at most \<open>max_pending_writes\<close> packets are left behind.
\<close>

theorem store_destroyed_loses:
  assumes "RedisPacketStore opts ping = Inr st" and "store_step\<^sup>*\<^sup>* (store_start st) s" and "phase s = Stopped"
  shows "(\<forall>s'. store_step\<^sup>*\<^sup>* s s' \<longrightarrow> requests s' = requests s \<and> taken_in s' = taken_in s) \<and>
    length (reserved s) + length (posted s) + length (sent s) \<le> unat (max_pending_writes opts) \<and>
    (\<not> timed_out s \<longrightarrow> reserved s = [] \<and> posted s = [] \<and> sent s = [] \<and>
       mset (taken_in s) = mset (handed s) + mset (failed s))"
proof -
  have ok: "store_ok opts s"
    using assms(1,2) by (rule store_reached_ok)
  have "requests s' = requests s \<and> taken_in s' = taken_in s" if "store_step\<^sup>*\<^sup>* s s'" for s'
  proof -
    have "phase s' = Stopped \<and> requests s' = requests s \<and> taken_in s' = taken_in s"
      using that ok
    proof (rule store.steps_keep [where P = "\<lambda>u. phase u = Stopped \<and> requests u = requests s \<and> taken_in u = taken_in s"])
      fix u v
      assume u: "store_ok opts u" "phase u = Stopped \<and> requests u = requests s \<and> taken_in u = taken_in s"
        and "store_step u v"
      then have "\<not> accepting_writes (store_of u)"
        by (auto simp: store_ok_def)
      with \<open>store_step u v\<close> u(2) show "phase v = Stopped \<and> requests v = requests s \<and> taken_in v = taken_in s"
        by (auto simp: store_step_def elim!: store_event.cases dest: Reserve_True(1))
    qed (use assms(3) in simp)
    then show ?thesis by simp
  qed
  moreover have "length (reserved s) + length (posted s) + length (sent s) \<le> unat (max_pending_writes opts)"
    and "\<not> timed_out s \<longrightarrow> reserved s = [] \<and> posted s = [] \<and> sent s = [] \<and> mset (taken_in s) = mset (handed s) + mset (failed s)"
    using ok assms(3) by (auto simp: store_ok_def)
  ultimately show ?thesis by blast
qed

section \<open>A run: one packet stored, then shut down\<close>

definition demo_packet :: PacketInfo where
  "demo_packet = \<lparr>pi_iface = ''eth0'', pi_src_ip = ''192.0.2.1'', pi_dst_ip = ''192.0.2.2'',
     pi_protocol = ''UDP'', pi_length = 2, pi_data_hex = ''0aff'', pi_timestamp_us = 1\<rparr>"

definition demo_store :: store where
  "demo_store = \<lparr>options = redis default_config, pending_writes = 0, accepting_writes = True\<rparr>"

lemma demo_store_new: "RedisPacketStore (redis default_config) (PingReply ''PONG'') = Inr demo_store"
  by (simp add: RedisPacketStore_def ValidateConnection_def default_config_def demo_store_def)

text \<open>The states of the run, and what happens between them.\<close>

definition demo_life :: "store_system list" where
  "demo_life =
     (let a = store_start demo_store;
          r = a\<lparr>store_of := demo_store\<lparr>pending_writes := 1\<rparr>, reserved := [demo_packet], taken_in := [demo_packet]\<rparr>;
          b = r\<lparr>reserved := [], posted := [demo_packet]\<rparr>;
          c = b\<lparr>posted := [], sent := [demo_packet], handed := [demo_packet],
            requests := [xadd_request (stream_key (redis default_config)) demo_packet]\<rparr>;
          d = c\<lparr>sent := [], store_of := demo_store\<rparr>;
          e = d\<lparr>phase := Draining, store_of := refuse_writes demo_store\<rparr>;
          f = e\<lparr>phase := Cancelled\<rparr>
      in [a, r, b, c, d, e, f, f\<lparr>phase := Stopped\<rparr>])"

lemma demo_events:
  "store_event (Reserve demo_packet) (demo_life ! 0) (demo_life ! 1)"
  "store_event (PostHandler demo_packet) (demo_life ! 1) (demo_life ! 2)"
  "store_event HandlerExec (demo_life ! 2) (demo_life ! 3)"
  "store_event Reply (demo_life ! 3) (demo_life ! 4)"
  "store_event StopAccepting (demo_life ! 4) (demo_life ! 5)"
  "store_event WaitDone (demo_life ! 5) (demo_life ! 6)"
  "store_event StopIo (demo_life ! 6) (demo_life ! 7)"
proof -
  show "store_event (Reserve demo_packet) (demo_life ! 0) (demo_life ! 1)"
    using store_reserve [of "demo_life ! 0" "demo_store\<lparr>pending_writes := 1\<rparr>" demo_packet] by (simp add: demo_life_def Let_def store_start_def demo_store_def ReservePendingWriteSlot_def default_config_def)
  show "store_event (PostHandler demo_packet) (demo_life ! 1) (demo_life ! 2)"
    using store_post [of "demo_life ! 1" "[]" demo_packet "[]"] by (simp add: demo_life_def Let_def store_start_def)
  show "store_event HandlerExec (demo_life ! 2) (demo_life ! 3)"
    using handler_exec [of "demo_life ! 2" demo_packet "[]"] by (simp add: demo_life_def Let_def store_start_def demo_store_def)
  show "store_event Reply (demo_life ! 3) (demo_life ! 4)"
    using reply [of "demo_life ! 3" "[]" demo_packet "[]"] by (simp add: demo_life_def Let_def store_start_def demo_store_def CompletePendingWrite_def)
  show "store_event StopAccepting (demo_life ! 4) (demo_life ! 5)"
    using stop_accepting [of "demo_life ! 4"] by (simp add: demo_life_def Let_def store_start_def)
  show "store_event WaitDone (demo_life ! 5) (demo_life ! 6)"
    using wait_done [of "demo_life ! 5"] by (simp add: demo_life_def Let_def store_start_def drained_def demo_store_def)
  show "store_event StopIo (demo_life ! 6) (demo_life ! 7)"
    using stop_io [of "demo_life ! 6"] by (simp add: demo_life_def Let_def store_start_def)
qed

lemma demo_store_run:
  obtains s where "store_step\<^sup>*\<^sup>* (store_start demo_store) s" and "phase s = Stopped" and "\<not> timed_out s"
    and "taken_in s = [demo_packet]" and "handed s = [demo_packet]"
proof -
  have "store_step\<^sup>*\<^sup>* (demo_life ! 0) (demo_life ! 7)"
    using demo_events [THEN store_stepI] by (meson rtranclp.rtrancl_refl rtranclp.rtrancl_into_rtrancl)
  moreover have "demo_life ! 0 = store_start demo_store"
    by (simp add: demo_life_def Let_def)
  ultimately show ?thesis
    by (intro that [of "demo_life ! 7"]) (simp_all add: demo_life_def Let_def store_start_def)
qed

theorem store_writes_accounted_witness:
  "\<exists>s :: store_system. taken_in s = [demo_packet] \<and>
    requests s = map (xadd_request ''elephantshrew:packets'') (handed s)"
proof (rule demo_store_run)
  fix s
  assume "store_step\<^sup>*\<^sup>* (store_start demo_store) s" and "taken_in s = [demo_packet]"
  then show ?thesis
    using store_writes_accounted [OF demo_store_new, of s] by (auto simp: default_config_def)
qed

theorem store_destroyed_loses_witness:
  "\<exists>s :: store_system. taken_in s = [demo_packet] \<and> posted s = [] \<and> mset (taken_in s) = mset (handed s) + mset (failed s)"
proof (rule demo_store_run)
  fix s
  assume "store_step\<^sup>*\<^sup>* (store_start demo_store) s" and "phase s = Stopped" and "\<not> timed_out s" and "taken_in s = [demo_packet]"
  then show ?thesis
    using store_destroyed_loses [OF demo_store_new, of s] by blast
qed

end
