(* ===== verification/Pcap_Receiver.thy ===== *)
theory Pcap_Receiver
  imports Redis_Store "HOL-Library.Signed_Division"
begin

text \<open>
  The capture callback of \<open>src/PcapReceiver.cpp\<close>: a captured packet is described, forwarded
  when the receiver has a route, and stored when recording is on. PcapPlusPlus, which
  captures, parses layers and sends, is a parameter: the layers it found, and whether
  opening, starting and sending succeed. What a call does is the list of its effects in
  order, and the exception it ends with, if any.
\<close>

section \<open>Packets\<close>

text \<open>The captured bytes, and \<open>tv_sec\<close> and \<open>tv_nsec\<close> of the time stamp (signed 64-bit integers).\<close>

record raw_packet =
  raw_data :: bytes
  ts_sec :: int
  ts_nsec :: int

text \<open>The addresses of each layer that is present, and the packet's types.\<close>

record parsed_packet =
  ip4_layer :: "(string \<times> string) option"
  ip6_layer :: "(string \<times> string) option"
  arp_layer :: "(string \<times> string) option"
  is_arp :: bool
  is_tcp :: bool
  is_udp :: bool
  is_icmp :: bool

section \<open>Hexadecimal text\<close>

text \<open>\<open>oss << std::hex << n\<close>, and \<open>std::setw(2)\<close> with fill character \<open>0\<close>.\<close>

fun hex_number :: "nat \<Rightarrow> string" where
  "hex_number n = (if n < 16 then [digit n] else hex_number (n div 16) @ [digit (n mod 16)])"

declare hex_number.simps [simp del]

definition setw :: "nat \<Rightarrow> char \<Rightarrow> string \<Rightarrow> string" where
  "setw w fill s = replicate (w - length s) fill @ s"

definition hex_bytes :: "bytes \<Rightarrow> string" where
  "hex_bytes bs = concat (map (\<lambda>b. setw 2 (CHR ''0'') (hex_number (unat b))) bs)"

text \<open>Reading it back.\<close>

definition undigit :: "char \<Rightarrow> nat option" where
  "undigit c = map_of (zip ''0123456789abcdef'' [0..<16]) c"

fun unhex :: "string \<Rightarrow> bytes option" where
  "unhex [] = Some []"
| "unhex [c] = None"
| "unhex (c # d # cs) = do {
     h \<leftarrow> undigit c; l \<leftarrow> undigit d; bs \<leftarrow> unhex cs;
     Some (word_of_nat (16 * h + l) # bs)
   }"

lemma hex_byte: "setw 2 (CHR ''0'') (hex_number (unat (b :: u8))) = [digit (unat b div 16), digit (unat b mod 16)]"
proof (cases "unat b < 16")
  case True
  then show ?thesis by (simp add: hex_number.simps setw_def digit_def)
next
  case False
  have "unat b div 16 < 16"
    using unat_u8_less [of b] by (simp add: less_mult_imp_div_less)
  with False show ?thesis
    by (subst hex_number.simps, subst hex_number.simps) (simp add: setw_def)
qed

lemma undigit_digit: "n < 16 \<Longrightarrow> undigit (digit n) = Some n"
proof -
  have "\<forall>n \<in> set [0..<16]. undigit (digit n) = Some n"
    by code_simp
  then show "n < 16 \<Longrightarrow> undigit (digit n) = Some n" by simp
qed

lemma unhex_hex: "unhex (hex_bytes bs) = Some bs"
proof (induction bs)
  case Nil
  then show ?case by (simp add: hex_bytes_def)
next
  case (Cons b bs)
  have "unat b div 16 < 16"
    using unat_u8_less [of b] by (simp add: less_mult_imp_div_less)
  moreover have "hex_bytes (b # bs) = digit (unat b div 16) # digit (unat b mod 16) # hex_bytes bs"
    by (simp add: hex_bytes_def hex_byte)
  moreover have "word_of_nat (16 * (unat b div 16) + unat b mod 16) = b"
    by (simp only: mult_div_mod_eq) simp
  ultimately show ?case
    using Cons by (simp add: undigit_digit del: of_nat_add of_nat_mult)
qed

lemma length_hex: "length (hex_bytes bs) = 2 * length bs"
  by (induction bs) (simp_all add: hex_bytes_def hex_byte)

section \<open>The receiver\<close>

text \<open>Devices are their names; \<open>rc_device\<close> and \<open>rc_route\<close> are \<^const>\<open>None\<close> for null pointers.\<close>

record receiver =
  rc_store :: bool
  rc_device :: "string option"
  rc_route :: "string option"
  rc_record_packets :: bool
  rc_debug_packets :: bool
  rc_capturing :: bool

definition PcapReceiver :: "bool \<Rightarrow> string option \<Rightarrow> string option \<Rightarrow> bool \<Rightarrow> bool \<Rightarrow> receiver" where
  "PcapReceiver store device route recrd dbg = \<lparr>rc_store = store, rc_device = device, rc_route = route,
     rc_record_packets = recrd, rc_debug_packets = dbg, rc_capturing = False\<rparr>"

datatype receiver_error =
    DeviceNotSet | DeviceNotOpen string | RouteNotOpen string | StartFailed string
  | ForwardFailed string string | NoStore

text \<open>\<open>opened\<close> tells which devices are open, \<open>starts\<close> on which capture can start.\<close>

definition Receive :: "(string \<Rightarrow> bool) \<Rightarrow> (string \<Rightarrow> bool) \<Rightarrow> receiver \<Rightarrow> receiver_error + receiver" where
  "Receive opened starts r = (case rc_device r of
     None \<Rightarrow> Inl DeviceNotSet
   | Some dev \<Rightarrow>
       if \<not> opened dev then Inl (DeviceNotOpen dev)
       else if rc_route r \<noteq> None \<and> \<not> opened (the (rc_route r)) then Inl (RouteNotOpen (the (rc_route r)))
       else if \<not> starts dev then Inl (StartFailed dev)
       else Inr (r\<lparr>rc_capturing := True\<rparr>))"

text \<open>The device capture is stopped on, if any.\<close>

definition Stop :: "receiver \<Rightarrow> string option \<times> receiver" where
  "Stop r = (if rc_device r \<noteq> None \<and> rc_capturing r then (rc_device r, r\<lparr>rc_capturing := False\<rparr>)
             else (None, r))"

text \<open>The destructor.\<close>

definition destroy_receiver :: "receiver \<Rightarrow> string option \<times> receiver" where
  "destroy_receiver r = Stop r"

section \<open>A packet\<close>

datatype packet_effect = Forwarded string raw_packet | Stored PacketInfo

definition packet_addresses :: "parsed_packet \<Rightarrow> string \<times> string" where
  "packet_addresses parsed = (case ip4_layer parsed of
     Some a \<Rightarrow> a
   | None \<Rightarrow> (case ip6_layer parsed of
       Some a \<Rightarrow> a
     | None \<Rightarrow> (case arp_layer parsed of
         Some a \<Rightarrow> a
       | None \<Rightarrow> (''N/A'', ''N/A''))))"

definition packet_protocol :: "parsed_packet \<Rightarrow> string" where
  "packet_protocol parsed =
     (if is_arp parsed then ''ARP'' else if is_tcp parsed then ''TCP''
      else if is_udp parsed then ''UDP'' else if is_icmp parsed then ''ICMP'' else ''OTHER'')"

definition packet_info :: "string \<Rightarrow> parsed_packet \<Rightarrow> raw_packet \<Rightarrow> PacketInfo" where
  "packet_info dev parsed raw =
     \<lparr>pi_iface = dev, pi_src_ip = fst (packet_addresses parsed), pi_dst_ip = snd (packet_addresses parsed),
      pi_protocol = packet_protocol parsed, pi_length = word_of_nat (length (raw_data raw)),
      pi_data_hex = '''', pi_timestamp_us = word_of_int (ts_sec raw) * 1000000 + word_of_int (ts_nsec raw sdiv 1000)\<rparr>"

text \<open>The bytes the hex loop reads: as many as the 32-bit length says.\<close>

definition recorded :: "PacketInfo \<Rightarrow> raw_packet \<Rightarrow> PacketInfo" where
  "recorded info raw = info\<lparr>pi_data_hex := hex_bytes (take (unat (pi_length info)) (raw_data raw))\<rparr>"

text \<open>\<^const>\<open>None\<close> when the receiver has no device: the code then dereferences a null pointer.\<close>

definition processPacket ::
  "(string \<Rightarrow> raw_packet \<Rightarrow> bool) \<Rightarrow> receiver \<Rightarrow> parsed_packet \<Rightarrow> raw_packet
    \<Rightarrow> (packet_effect list \<times> receiver_error option) option" where
  "processPacket sendPacket r parsed raw = (case rc_device r of
     None \<Rightarrow> None
   | Some dev \<Rightarrow>
      Some (let info = packet_info dev parsed raw;
          forward = (case rc_route r of
              None \<Rightarrow> ([], None)
            | Some out \<Rightarrow> if \<not> sendPacket out raw then ([], Some (ForwardFailed dev out))
                          else ([Forwarded out raw], None))
      in case forward of
           (es, Some e) \<Rightarrow> (es, Some e)
         | (es, None) \<Rightarrow>
             if \<not> rc_record_packets r then (es, None)
             else if \<not> rc_store r then (es, Some NoStore)
             else (es @ [Stored (recorded info raw)], None)))"

text \<open>The callback logs an exception and swallows it.\<close>

definition onPacketArrives ::
  "(string \<Rightarrow> raw_packet \<Rightarrow> bool) \<Rightarrow> receiver \<Rightarrow> parsed_packet \<Rightarrow> raw_packet \<Rightarrow> packet_effect list option" where
  "onPacketArrives sendPacket r parsed raw = map_option fst (processPacket sendPacket r parsed raw)"

lemma Receive_Inr:
  "Receive opened starts r = Inr r' \<longleftrightarrow>
     (\<exists>dev. rc_device r = Some dev \<and> opened dev \<and> starts dev \<and> (\<forall>out. rc_route r = Some out \<longrightarrow> opened out) \<and>
        r' = r\<lparr>rc_capturing := True\<rparr>)"
  by (auto simp: Receive_def split: option.splits if_splits)

lemma timestamp_us:
  assumes "0 \<le> sec" and "0 \<le> nsec" and "nsec < 1000000000" and "sec * 1000000 < 2 ^ 63"
  shows "uint (word_of_int sec * 1000000 + word_of_int (nsec sdiv 1000) :: u64) = sec * 1000000 + nsec div 1000"
proof -
  have "nsec sdiv 1000 = nsec div 1000"
    using assms(2) by (cases "nsec = 0") (simp_all add: signed_divide_int_def)
  moreover have "word_of_int sec * 1000000 + word_of_int (nsec div 1000) = (word_of_int (sec * 1000000 + nsec div 1000) :: u64)"
    by simp
  moreover have "0 \<le> sec * 1000000 + nsec div 1000" and "sec * 1000000 + nsec div 1000 < 2 ^ 64"
    using assms by (simp_all add: pos_imp_zdiv_nonneg_iff)
  ultimately show ?thesis
    by (simp only: uint_word_of_int) (simp add: take_bit_int_eq_self)
qed

lemma recorded_fields:
  assumes "length (raw_data raw) < 2 ^ 32" and "info = recorded (packet_info dev parsed raw) raw"
  shows "unhex (pi_data_hex info) = Some (raw_data raw)" and "length (pi_data_hex info) = 2 * length (raw_data raw)"
    and "unat (pi_length info) = length (raw_data raw)" and "pi_iface info = dev"
proof -
  have "unat (word_of_nat (length (raw_data raw)) :: u32) = length (raw_data raw)"
    using assms(1) by (simp add: unat_of_nat take_bit_nat_eq_self)
  then show "unhex (pi_data_hex info) = Some (raw_data raw)" and "length (pi_data_hex info) = 2 * length (raw_data raw)"
    and "unat (pi_length info) = length (raw_data raw)" and "pi_iface info = dev"
    by (simp_all add: assms(2) recorded_def packet_info_def unhex_hex length_hex)
qed

lemma Stored_packet:
  assumes "onPacketArrives sendPacket r parsed raw = Some es" and "Stored info \<in> set es"
  obtains dev where "rc_device r = Some dev" and "info = recorded (packet_info dev parsed raw) raw"
  using assms
  by (auto simp: onPacketArrives_def processPacket_def Let_def split: option.splits if_splits)

lemma Forwarded_packet:
  assumes "onPacketArrives sendPacket r parsed raw = Some es" and "Forwarded out raw' \<in> set es"
  shows "rc_route r = Some out \<and> raw' = raw"
  using assms
  by (auto simp: onPacketArrives_def processPacket_def Let_def split: option.splits if_splits)

section \<open>Properties\<close>

text \<open>
  What is recorded is the packet. A packet of fewer than 2^32 bytes that is recorded
  carries its length, a text of two lower-case hexadecimal digits per byte that decodes to
  exactly its bytes, and its time stamp in microseconds (rounded down), with no overflow
  for times before the year 294000.
\<close>

theorem recorded_packet_roundtrip:
  assumes "length (raw_data raw) < 2 ^ 32" and "info = recorded (packet_info dev parsed raw) raw"
    and "0 \<le> ts_sec raw" and "ts_sec raw * 1000000 < 2 ^ 63" and "0 \<le> ts_nsec raw" and "ts_nsec raw < 1000000000"
  shows "unhex (pi_data_hex info) = Some (raw_data raw) \<and>
    length (pi_data_hex info) = 2 * length (raw_data raw) \<and> unat (pi_length info) = length (raw_data raw) \<and>
    uint (pi_timestamp_us info) = (ts_sec raw * 1000000000 + ts_nsec raw) div 1000"
proof -
  have "uint (pi_timestamp_us info) = ts_sec raw * 1000000 + ts_nsec raw div 1000"
    using timestamp_us [OF assms(3,5,6,4)] by (simp add: assms(2) recorded_def packet_info_def)
  also have "\<dots> = (ts_nsec raw + ts_sec raw * 1000000 * 1000) div 1000"
    by (subst div_mult_self1) simp_all
  finally show ?thesis
    using recorded_fields [OF assms(1,2)] by (simp add: add.commute)
qed

theorem recorded_packet_roundtrip_witness:
  "unhex ''0aff'' = Some [10, 255]"
proof -
  let ?raw = "\<lparr>raw_data = [10, 255], ts_sec = 1, ts_nsec = 2000\<rparr>"
  let ?parsed = "\<lparr>ip4_layer = None, ip6_layer = None, arp_layer = None, is_arp = False, is_tcp = False,
    is_udp = False, is_icmp = False\<rparr>"
  have "pi_data_hex (recorded (packet_info ''eth0'' ?parsed ?raw) ?raw) = ''0aff''"
    by code_simp
  then show ?thesis
    using recorded_packet_roundtrip [of ?raw "recorded (packet_info ''eth0'' ?parsed ?raw) ?raw" "''eth0''" ?parsed]
    by simp
qed

text \<open>
  One callback. Once capture has started every packet has a device to name, and its effects
  are, in this order, the forwarding of the unchanged packet if the receiver has a route
  and sending succeeds, and the storing of its record if recording is on and there is a
  store; a packet that could not be forwarded is not recorded.
\<close>

lemma packet_effects:
  assumes "Receive opened starts r = Inr r'"
  obtains dev where "rc_device r = Some dev" and "\<And>sendPacket parsed raw. onPacketArrives sendPacket r' parsed raw = Some (
    (case rc_route r of None \<Rightarrow> [] | Some out \<Rightarrow> if sendPacket out raw then [Forwarded out raw] else []) @
    (if (case rc_route r of None \<Rightarrow> True | Some out \<Rightarrow> sendPacket out raw) \<and> rc_record_packets r \<and> rc_store r
     then [Stored (recorded (packet_info dev parsed raw) raw)] else []))"
  using assms
  by (force simp: Receive_Inr onPacketArrives_def processPacket_def Let_def split: option.split)

text \<open>Any number of packets, each with its layers and the answers the sending of it gets.\<close>

type_synonym captured = "(string \<Rightarrow> raw_packet \<Rightarrow> bool) \<times> parsed_packet \<times> raw_packet"

fun capture_run :: "receiver \<Rightarrow> captured list \<Rightarrow> packet_effect list option" where
  "capture_run r [] = Some []"
| "capture_run r ((sendPacket, parsed, raw) # ps) = do {
     es \<leftarrow> onPacketArrives sendPacket r parsed raw;
     es' \<leftarrow> capture_run r ps;
     Some (es @ es')
   }"

definition forwards :: "packet_effect list \<Rightarrow> (string \<times> raw_packet) list" where
  "forwards es = concat (map (\<lambda>e. case e of Forwarded out raw \<Rightarrow> [(out, raw)] | Stored _ \<Rightarrow> []) es)"

definition stores :: "packet_effect list \<Rightarrow> PacketInfo list" where
  "stores es = concat (map (\<lambda>e. case e of Forwarded _ _ \<Rightarrow> [] | Stored info \<Rightarrow> [info]) es)"

lemma effects_simps [simp]:
  "forwards [] = []" "stores [] = []"
  "forwards (Forwarded out raw # es) = (out, raw) # forwards es" "forwards (Stored info # es) = forwards es"
  "stores (Forwarded out raw # es) = stores es" "stores (Stored info # es) = info # stores es"
  "forwards (es @ es') = forwards es @ forwards es'" "stores (es @ es') = stores es @ stores es'"
  by (simp_all add: forwards_def stores_def)

text \<open>The packets that a route did not refuse.\<close>

definition passes :: "string option \<Rightarrow> captured \<Rightarrow> bool" where
  "passes route = (\<lambda>(send, parsed, raw). case route of None \<Rightarrow> True | Some out \<Rightarrow> send out raw)"

definition passed :: "string option \<Rightarrow> captured list \<Rightarrow> raw_packet list" where
  "passed route ps = map (\<lambda>(send, parsed, raw). raw) (filter (passes route) ps)"

text \<open>The records of packets captured on a device.\<close>

definition record_of_packet :: "string \<Rightarrow> captured \<Rightarrow> PacketInfo" where
  "record_of_packet dev = (\<lambda>(send, parsed, raw). recorded (packet_info dev parsed raw) raw)"

lemma capture_run_effects:
  assumes "Receive opened starts r = Inr r'"
  obtains dev es where "rc_device r = Some dev" and "capture_run r' ps = Some es"
    and "forwards es = (case rc_route r of None \<Rightarrow> [] | Some out \<Rightarrow> map (Pair out) (passed (Some out) ps))"
    and "stores es = (if rc_record_packets r \<and> rc_store r
      then map (record_of_packet dev) (filter (passes (rc_route r)) ps) else [])"
proof -
  obtain dev where dev: "rc_device r = Some dev" and one: "\<And>sendPacket parsed raw. onPacketArrives sendPacket r' parsed raw = Some (
    (case rc_route r of None \<Rightarrow> [] | Some out \<Rightarrow> if sendPacket out raw then [Forwarded out raw] else []) @
    (if (case rc_route r of None \<Rightarrow> True | Some out \<Rightarrow> sendPacket out raw) \<and> rc_record_packets r \<and> rc_store r
     then [Stored (recorded (packet_info dev parsed raw) raw)] else []))"
    using assms by (rule packet_effects) blast
  have "\<exists>es. capture_run r' ps = Some es \<and>
    forwards es = (case rc_route r of None \<Rightarrow> [] | Some out \<Rightarrow> map (Pair out) (passed (Some out) ps)) \<and>
    stores es = (if rc_record_packets r \<and> rc_store r
      then map (record_of_packet dev) (filter (passes (rc_route r)) ps) else [])"
  proof (induction ps)
    case Nil
    then show ?case by (simp add: passed_def split: option.split)
  next
    case (Cons p ps)
    then obtain es where "capture_run r' ps = Some es" and
      "forwards es = (case rc_route r of None \<Rightarrow> [] | Some out \<Rightarrow> map (Pair out) (passed (Some out) ps))" and
      "stores es = (if rc_record_packets r \<and> rc_store r
        then map (record_of_packet dev) (filter (passes (rc_route r)) ps) else [])"
      by auto
    then show ?case
      by (cases p, cases "rc_route r") (simp_all add: one passed_def passes_def record_of_packet_def)
  qed
  then show ?thesis using that dev by blast
qed

lemma record_of_packet_fields:
  assumes "length (raw_data raw) < 2 ^ 32"
  shows "pi_iface (record_of_packet dev (send, parsed, raw)) = dev"
    and "unat (pi_length (record_of_packet dev (send, parsed, raw))) = length (raw_data raw)"
    and "unhex (pi_data_hex (record_of_packet dev (send, parsed, raw))) = Some (raw_data raw)"
  using recorded_fields [OF assms refl, of dev parsed] by (simp_all add: record_of_packet_def)

text \<open>
  C29: A started receiver over any sequence of packets, whatever layers they have and
  whichever sends fail. No failure escapes a callback; with a route the packets that could
  be sent, and no others, go out unchanged and in order on the route's device, without one
  none does; and with recording on and a store, the records are those of the packets sent
  (of all packets without a route), in order, each naming the capturing device and carrying
  a text that decodes to the packet's bytes, and otherwise there are none.
\<close>

theorem capture_run_in_order:
  assumes "Receive opened starts r = Inr r'" and "\<forall>(send, parsed, raw) \<in> set ps. length (raw_data raw) < 2 ^ 32"
  shows "\<exists>es dev. capture_run r' ps = Some es \<and> rc_device r = Some dev \<and>
    forwards es = (case rc_route r of None \<Rightarrow> [] | Some out \<Rightarrow> map (Pair out) (passed (Some out) ps)) \<and>
    map (\<lambda>info. (pi_iface info, unhex (pi_data_hex info))) (stores es) =
      (if rc_record_packets r \<and> rc_store r then map (\<lambda>raw. (dev, Some (raw_data raw))) (passed (rc_route r) ps) else [])"
proof -
  obtain dev es where es: "rc_device r = Some dev" "capture_run r' ps = Some es"
    "forwards es = (case rc_route r of None \<Rightarrow> [] | Some out \<Rightarrow> map (Pair out) (passed (Some out) ps))"
    "stores es = (if rc_record_packets r \<and> rc_store r
      then map (record_of_packet dev) (filter (passes (rc_route r)) ps) else [])"
    using assms(1) by (rule capture_run_effects)
  have "map (\<lambda>info. (pi_iface info, unhex (pi_data_hex info))) (map (record_of_packet dev) (filter (passes (rc_route r)) ps)) =
      map (\<lambda>raw. (dev, Some (raw_data raw))) (passed (rc_route r) ps)"
    using assms(2) by (auto simp: passed_def record_of_packet_fields)
  then show ?thesis using es by simp
qed

text \<open>Two packets, the first of which cannot be sent.\<close>

definition two_packets :: "captured list" where
  "two_packets = (let parsed = \<lparr>ip4_layer = None, ip6_layer = None, arp_layer = None, is_arp = False, is_tcp = False,
       is_udp = False, is_icmp = False\<rparr>
     in [(\<lambda>_ _. False, parsed, \<lparr>raw_data = [1], ts_sec = 0, ts_nsec = 0\<rparr>),
         (\<lambda>_ _. True, parsed, \<lparr>raw_data = [10, 255], ts_sec = 1, ts_nsec = 0\<rparr>)])"

theorem capture_run_in_order_witness:
  "\<exists>es. capture_run (PcapReceiver True (Some ''eth0'') (Some ''eth1'') True False\<lparr>rc_capturing := True\<rparr>) two_packets = Some es \<and>
     map (\<lambda>info. (pi_iface info, unhex (pi_data_hex info))) (stores es) = [(''eth0'', Some [10, 255])]"
  using capture_run_in_order [of "\<lambda>_. True" "\<lambda>_. True" "PcapReceiver True (Some ''eth0'') (Some ''eth1'') True False"
      "PcapReceiver True (Some ''eth0'') (Some ''eth1'') True False\<lparr>rc_capturing := True\<rparr>" two_packets]
  by (auto simp: Receive_def PcapReceiver_def two_packets_def passed_def passes_def Let_def)

end
