(* ===== verification/Capture_Service.thy ===== *)
theory Capture_Service
  imports Pcap_Receiver
begin

text \<open>
  The capture service object \<open>ElephantShrew\<close> of \<open>src/ElephantShrew.cpp\<close>: \<open>Init\<close> resolves and
  opens the devices a configuration names, remembers them, and starts one receiver per
  capture direction; the destructor stops the receivers and closes what was remembered.
  PcapPlusPlus is a record of parameters over an abstract state \<open>'k\<close> of the machine's
  capture devices, which are their names.
\<close>

section \<open>The device library\<close>

datatype pcap_direction = PCPP_INOUT | PCPP_IN | PCPP_OUT

record 'k pcap_api =
  device_list :: "string list"
  device_by_name :: "string \<Rightarrow> bool"
  isOpened :: "string \<Rightarrow> 'k \<Rightarrow> bool"
  open_device :: "pcap_direction \<Rightarrow> string \<Rightarrow> 'k \<Rightarrow> bool \<times> 'k"
  close_device :: "string \<Rightarrow> 'k \<Rightarrow> 'k"
  startCapture :: "string \<Rightarrow> 'k \<Rightarrow> bool \<times> 'k"
  stopCapture :: "string \<Rightarrow> 'k \<Rightarrow> 'k"

text \<open>
  The documented behaviour: \<open>cap k\<close> are the devices with a running capture thread. Opening
  and closing change their own device, a failed call changes nothing, and stopping or
  closing ends a capture.
\<close>

definition pcap_api_ok :: "'k pcap_api \<Rightarrow> ('k \<Rightarrow> string \<Rightarrow> bool) \<Rightarrow> bool" where
  "pcap_api_ok api cap \<longleftrightarrow>
     (\<forall>dir d k d'. isOpened api d' (snd (open_device api dir d k)) \<longleftrightarrow>
        isOpened api d' k \<or> fst (open_device api dir d k) \<and> d' = d) \<and>
     (\<forall>dir d k. cap (snd (open_device api dir d k)) = cap k) \<and>
     (\<forall>d k d'. isOpened api d' (close_device api d k) \<longleftrightarrow> isOpened api d' k \<and> d' \<noteq> d) \<and>
     (\<forall>d k d'. cap (close_device api d k) d' \<longleftrightarrow> cap k d' \<and> d' \<noteq> d) \<and>
     (\<forall>d k d'. isOpened api d' (snd (startCapture api d k)) = isOpened api d' k) \<and>
     (\<forall>d k d'. cap (snd (startCapture api d k)) d' \<longleftrightarrow> cap k d' \<or> fst (startCapture api d k) \<and> d' = d) \<and>
     (\<forall>d k d'. isOpened api d' (stopCapture api d k) = isOpened api d' k) \<and>
     (\<forall>d k d'. cap (stopCapture api d k) d' \<longleftrightarrow> cap k d' \<and> d' \<noteq> d)"

section \<open>The object and its operations\<close>

text \<open>The members \<open>receivers_\<close> and \<open>opened_devices_\<close>, and the devices.\<close>

record 'k shrew =
  receivers :: "receiver list"
  opened_devices :: "string list"
  device_state :: 'k

datatype init_error =
    NoInterfaces | InterfaceNotFound string | OpenFailed string | StoreError store_error
  | ReceiverError receiver_error

text \<open>Code that may throw: it returns an error or a value, and the state either way.\<close>

type_synonym ('a, 'k) action = "'k shrew \<Rightarrow> (init_error + 'a) \<times> 'k shrew"

definition pure :: "'a \<Rightarrow> ('a, 'k) action" where
  "pure x s = (Inr x, s)"

definition throw :: "init_error \<Rightarrow> ('a, 'k) action" where
  "throw e s = (Inl e, s)"

definition bindA :: "('a, 'k) action \<Rightarrow> ('a \<Rightarrow> ('b, 'k) action) \<Rightarrow> ('b, 'k) action" where
  "bindA m f s = (case m s of (Inl e, s) \<Rightarrow> (Inl e, s) | (Inr x, s) \<Rightarrow> f x s)"

definition modifyA :: "('k shrew \<Rightarrow> 'k shrew) \<Rightarrow> (unit, 'k) action" where
  "modifyA f s = (Inr (), f s)"

fun forA :: "('a \<Rightarrow> (unit, 'k) action) \<Rightarrow> 'a list \<Rightarrow> (unit, 'k) action" where
  "forA f [] = pure ()"
| "forA f (x # xs) = bindA (f x) (\<lambda>_. forA f xs)"

definition ResolveCaptureDevice :: "'k pcap_api \<Rightarrow> string \<Rightarrow> (string, 'k) action" where
  "ResolveCaptureDevice api iface =
     (if iface = [] then
        (case device_list api of [] \<Rightarrow> throw NoInterfaces | device # _ \<Rightarrow> pure device)
      else if \<not> device_by_name api iface then throw (InterfaceNotFound iface)
      else pure iface)"

definition OpenDevice :: "'k pcap_api \<Rightarrow> string \<Rightarrow> pcap_direction \<Rightarrow> (unit, 'k) action" where
  "OpenDevice api device direction s =
     (if isOpened api device (device_state s) then (Inr (), s)
      else
        let (success, k) = open_device api direction device (device_state s)
        in (if \<not> success then Inl (OpenFailed device) else Inr (), s\<lparr>device_state := k\<rparr>))"

definition TrackOpenedDevice :: "string \<Rightarrow> (unit, 'k) action" where
  "TrackOpenedDevice device = modifyA (\<lambda>s.
     if device \<notin> set (opened_devices s) then s\<lparr>opened_devices := opened_devices s @ [device]\<rparr> else s)"

text \<open>\<open>receivers_.clear()\<close> destroys the receivers, and a receiver's destructor stops it.\<close>

definition clear_receivers :: "'k pcap_api \<Rightarrow> 'k shrew \<Rightarrow> 'k shrew" where
  "clear_receivers api s = s\<lparr>receivers := [],
     device_state := foldl (\<lambda>k r. case fst (destroy_receiver r) of None \<Rightarrow> k | Some d \<Rightarrow> stopCapture api d k)
       (device_state s) (receivers s)\<rparr>"

definition CloseDevices :: "'k pcap_api \<Rightarrow> 'k shrew \<Rightarrow> 'k shrew" where
  "CloseDevices api s = s\<lparr>opened_devices := [],
     device_state := foldl (\<lambda>k d. if isOpened api d k then close_device api d k else k)
       (device_state s) (rev (opened_devices s))\<rparr>"

definition destroy :: "'k pcap_api \<Rightarrow> 'k shrew \<Rightarrow> 'k shrew" where
  "destroy api s = CloseDevices api (clear_receivers api s)"

text \<open>\<open>receiver->Receive(); receivers_.push_back(receiver)\<close>: a receiver that throws is destroyed unpushed.\<close>

definition start_receiver :: "'k pcap_api \<Rightarrow> receiver \<Rightarrow> (unit, 'k) action" where
  "start_receiver api r s =
     (case Receive (\<lambda>d. isOpened api d (device_state s)) (\<lambda>d. fst (startCapture api d (device_state s))) r of
        Inl (StartFailed d) \<Rightarrow>
          (Inl (ReceiverError (StartFailed d)), s\<lparr>device_state := snd (startCapture api d (device_state s))\<rparr>)
      | Inl e \<Rightarrow> (Inl (ReceiverError e), s)
      | Inr r' \<Rightarrow> (Inr (), s\<lparr>device_state := snd (startCapture api (the (rc_device r)) (device_state s)),
                           receivers := receivers s @ [r']\<rparr>))"

definition make_receiver :: "CaptureOptions \<Rightarrow> string \<Rightarrow> string option \<Rightarrow> receiver" where
  "make_receiver c device route =
     PcapReceiver (record_packets c) (Some device) route (record_packets c) (debug_packets c)"

text \<open>The store, made only when packets are recorded; \<open>ping\<close> is the outcome of its connection test.\<close>

definition make_store :: "ping_outcome \<Rightarrow> RuntimeConfig \<Rightarrow> (unit, 'k) action" where
  "make_store ping c =
     (if record_packets (capture c) then
        (case RedisPacketStore (redis c) ping of Inl e \<Rightarrow> throw (StoreError e) | Inr _ \<Rightarrow> pure ())
      else pure ())"

definition init_routing :: "'k pcap_api \<Rightarrow> RuntimeConfig \<Rightarrow> (unit, 'k) action" where
  "init_routing api c =
     bindA (ResolveCaptureDevice api (ingress_iface (routing c))) (\<lambda>ingress.
     bindA (ResolveCaptureDevice api (egress_iface (routing c))) (\<lambda>egress.
     bindA (OpenDevice api ingress PCPP_IN) (\<lambda>_.
     bindA (TrackOpenedDevice ingress) (\<lambda>_.
     bindA (OpenDevice api egress PCPP_IN) (\<lambda>_.
     bindA (TrackOpenedDevice egress) (\<lambda>_.
     bindA (start_receiver api (make_receiver (capture c) ingress (Some egress))) (\<lambda>_.
       if bidirectional (routing c)
       then start_receiver api (make_receiver (capture c) egress (Some ingress))
       else pure ())))))))"

definition init_capture :: "'k pcap_api \<Rightarrow> RuntimeConfig \<Rightarrow> string \<Rightarrow> (unit, 'k) action" where
  "init_capture api c iface =
     bindA (ResolveCaptureDevice api iface) (\<lambda>device.
     bindA (OpenDevice api device PCPP_INOUT) (\<lambda>_.
     bindA (TrackOpenedDevice device) (\<lambda>_.
       start_receiver api (make_receiver (capture c) device None))))"

definition Init :: "'k pcap_api \<Rightarrow> ping_outcome \<Rightarrow> RuntimeConfig \<Rightarrow> (unit, 'k) action" where
  "Init api ping c =
     bindA (modifyA (\<lambda>s. CloseDevices api (clear_receivers api s))) (\<lambda>_.
     bindA (make_store ping c) (\<lambda>_.
       if enabled (routing c) then init_routing api c
       else if ifaces (capture c) = [] then init_capture api c []
       else forA (init_capture api c) (ifaces (capture c))))"

definition shrew_new :: "'k \<Rightarrow> 'k shrew" where
  "shrew_new k = \<lparr>receivers = [], opened_devices = [], device_state = k\<rparr>"

text \<open>Any number of \<open>Init\<close> calls, whatever each of them ends with.\<close>

fun run_inits :: "'k pcap_api \<Rightarrow> (ping_outcome \<times> RuntimeConfig) list \<Rightarrow> 'k shrew \<Rightarrow> 'k shrew" where
  "run_inits api [] s = s"
| "run_inits api ((ping, c) # cs) s = run_inits api cs (snd (Init api ping c s))"

section \<open>Invariants of actions\<close>

text \<open>An action keeps an invariant when it re-establishes it however it ends.\<close>

named_theorems keep_rules

definition keeps :: "('k shrew \<Rightarrow> bool) \<Rightarrow> ('a, 'k) action \<Rightarrow> bool" where
  "keeps I m \<longleftrightarrow> (\<forall>s. I s \<longrightarrow> I (snd (m s)))"

lemma keeps_pure [keep_rules]: "keeps I (pure x)"
  by (simp add: keeps_def pure_def)

lemma keeps_throw [keep_rules]: "keeps I (throw e)"
  by (simp add: keeps_def throw_def)

lemma keeps_bind [keep_rules]:
  assumes "keeps I m" and "\<And>x. keeps I (f x)"
  shows "keeps I (bindA m f)"
proof (unfold keeps_def, intro allI impI)
  fix s
  assume "I s"
  then have "I (snd (m s))" using assms(1) by (simp add: keeps_def)
  then show "I (snd (bindA m f s))"
    using assms(2) by (cases "m s") (auto simp: bindA_def keeps_def split: sum.split)
qed

lemma keeps_if [keep_rules]: "keeps I m \<Longrightarrow> keeps I n \<Longrightarrow> keeps I (if b then m else n)"
  by simp

lemma keeps_for [keep_rules]: "(\<And>x. keeps I (f x)) \<Longrightarrow> keeps I (forA f xs)"
  by (induction xs) (auto intro: keep_rules)

section \<open>What the object holds\<close>

text \<open>
  \<open>tracked k0\<close>: beyond what was open or capturing in \<open>k0\<close>, open devices are remembered and
  captures belong to a receiver that knows it is capturing. \<open>receivers_run\<close>: every receiver
  captures on an open device and forwards to an open one.
\<close>

definition tracked :: "'k pcap_api \<Rightarrow> ('k \<Rightarrow> string \<Rightarrow> bool) \<Rightarrow> 'k \<Rightarrow> 'k shrew \<Rightarrow> bool" where
  "tracked api cap k0 s \<longleftrightarrow>
     (\<forall>d. isOpened api d (device_state s) \<longrightarrow> isOpened api d k0 \<or> d \<in> set (opened_devices s)) \<and>
     (\<forall>d. cap (device_state s) d \<longrightarrow> cap k0 d \<or>
        (\<exists>r \<in> set (receivers s). rc_device r = Some d \<and> rc_capturing r))"

definition receivers_run :: "'k pcap_api \<Rightarrow> ('k \<Rightarrow> string \<Rightarrow> bool) \<Rightarrow> 'k shrew \<Rightarrow> bool" where
  "receivers_run api cap s \<longleftrightarrow> (\<forall>r \<in> set (receivers s). rc_capturing r \<and>
     (\<exists>d. rc_device r = Some d \<and> isOpened api d (device_state s) \<and> cap (device_state s) d) \<and>
     (\<forall>out. rc_route r = Some out \<longrightarrow> isOpened api out (device_state s)))"

lemma pcap_api_okD:
  assumes "pcap_api_ok api cap"
  shows "isOpened api d' (snd (open_device api dir d k)) \<longleftrightarrow> isOpened api d' k \<or> fst (open_device api dir d k) \<and> d' = d"
    and "cap (snd (open_device api dir d k)) = cap k"
    and "isOpened api d' (close_device api d k) \<longleftrightarrow> isOpened api d' k \<and> d' \<noteq> d"
    and "cap (close_device api d k) d' \<longleftrightarrow> cap k d' \<and> d' \<noteq> d"
    and "isOpened api d' (snd (startCapture api d k)) = isOpened api d' k"
    and "cap (snd (startCapture api d k)) d' \<longleftrightarrow> cap k d' \<or> fst (startCapture api d k) \<and> d' = d"
    and "isOpened api d' (stopCapture api d k) = isOpened api d' k"
    and "cap (stopCapture api d k) d' \<longleftrightarrow> cap k d' \<and> d' \<noteq> d"
  using assms unfolding pcap_api_ok_def by metis+

lemma stop_all:
  assumes "pcap_api_ok api cap"
  defines "stop \<equiv> \<lambda>k r. case fst (destroy_receiver r) of None \<Rightarrow> k | Some d \<Rightarrow> stopCapture api d k"
  shows "isOpened api d (foldl stop k rs) = isOpened api d k"
    and "cap (foldl stop k rs) d \<longleftrightarrow> cap k d \<and> (\<forall>r \<in> set rs. rc_device r = Some d \<longrightarrow> \<not> rc_capturing r)"
proof -
  show "isOpened api d (foldl stop k rs) = isOpened api d k"
    by (induction rs arbitrary: k) (auto simp: stop_def pcap_api_okD [OF assms(1)] split: option.split)
  show "cap (foldl stop k rs) d \<longleftrightarrow> cap k d \<and> (\<forall>r \<in> set rs. rc_device r = Some d \<longrightarrow> \<not> rc_capturing r)"
    by (induction rs arbitrary: k)
      (auto simp: stop_def destroy_receiver_def Stop_def pcap_api_okD [OF assms(1)] split: option.split)
qed

lemma close_all:
  assumes "pcap_api_ok api cap"
  defines "close \<equiv> \<lambda>k d. if isOpened api d k then close_device api d k else k"
  shows "isOpened api d (foldl close k ds) \<longleftrightarrow> isOpened api d k \<and> d \<notin> set ds"
    and "cap (foldl close k ds) d \<Longrightarrow> cap k d"
proof -
  show "isOpened api d (foldl close k ds) \<longleftrightarrow> isOpened api d k \<and> d \<notin> set ds"
    by (induction ds arbitrary: k) (auto simp: close_def pcap_api_okD [OF assms(1)])
  show "cap (foldl close k ds) d \<Longrightarrow> cap k d"
  proof (induction ds arbitrary: k)
    case (Cons x ds)
    then have "cap (close k x) d" by simp
    then show ?case by (auto simp: close_def pcap_api_okD [OF assms(1)] split: if_splits)
  qed simp
qed

text \<open>Destroying releases everything beyond \<open>k0\<close>; so does the start of \<open>Init\<close>.\<close>

lemma destroy_releases:
  assumes "pcap_api_ok api cap" and "tracked api cap k0 s"
  shows "isOpened api d (device_state (destroy api s)) \<Longrightarrow> isOpened api d k0"
    and "cap (device_state (destroy api s)) d \<Longrightarrow> cap k0 d"
proof -
  have opened: "opened_devices (clear_receivers api s) = opened_devices s"
    by (simp add: clear_receivers_def)
  show "isOpened api d (device_state (destroy api s)) \<Longrightarrow> isOpened api d k0"
    using assms(2)
    by (auto simp: destroy_def CloseDevices_def close_all(1) [OF assms(1)] clear_receivers_def
        stop_all(1) [OF assms(1)] tracked_def)
  assume "cap (device_state (destroy api s)) d"
  then have "cap (device_state (clear_receivers api s)) d"
    using close_all(2) [OF assms(1)] by (simp add: destroy_def CloseDevices_def)
  then show "cap k0 d"
    using assms(2) by (auto simp: clear_receivers_def stop_all(2) [OF assms(1)] tracked_def)
qed

lemma destroy_empty [simp]: "receivers (destroy api s) = []" "opened_devices (destroy api s) = []"
  by (simp_all add: destroy_def CloseDevices_def clear_receivers_def)

text \<open>Opening is an invariant together with the remembering that always follows it.\<close>

definition sound :: "'k pcap_api \<Rightarrow> ('k \<Rightarrow> string \<Rightarrow> bool) \<Rightarrow> 'k \<Rightarrow> 'k shrew \<Rightarrow> bool" where
  "sound api cap k0 s \<longleftrightarrow> tracked api cap k0 s \<and> receivers_run api cap s"

lemma sound_tracked: "sound api cap k0 s \<Longrightarrow> tracked api cap k0 s"
  by (simp add: sound_def)

lemma OpenDevice_result:
  assumes "pcap_api_ok api cap" and "OpenDevice api d dir s = (res, s')"
  shows "receivers s' = receivers s" and "opened_devices s' = opened_devices s"
    and "cap (device_state s') = cap (device_state s)"
    and "isOpened api d' (device_state s') \<longleftrightarrow> isOpened api d' (device_state s) \<or> res = Inr () \<and> d' = d"
proof -
  obtain b k where run: "open_device api dir d (device_state s) = (b, k)" by fastforce
  have k: "isOpened api x k \<longleftrightarrow> isOpened api x (device_state s) \<or> b \<and> x = d" "cap k = cap (device_state s)" for x
    using pcap_api_okD(1,2) [OF assms(1), where dir = dir and d = d and k = "device_state s"] run by auto
  have res: "res = (if isOpened api d (device_state s) \<or> b then Inr () else Inl (OpenFailed d))"
    and s': "s' = (if isOpened api d (device_state s) then s else s\<lparr>device_state := k\<rparr>)"
    using assms(2) run by (auto simp: OpenDevice_def split: if_splits)
  show "receivers s' = receivers s" and "opened_devices s' = opened_devices s"
    and "cap (device_state s') = cap (device_state s)"
    by (simp_all add: s' k(2))
  show "isOpened api d' (device_state s') \<longleftrightarrow> isOpened api d' (device_state s) \<or> res = Inr () \<and> d' = d"
    by (auto simp: s' res k(1))
qed

lemma keeps_open_track [keep_rules]:
  assumes ok: "pcap_api_ok api cap" and "keeps (sound api cap k0) m"
  shows "keeps (sound api cap k0) (bindA (OpenDevice api d dir) (\<lambda>_. bindA (TrackOpenedDevice d) (\<lambda>_. m)))"
proof (unfold keeps_def, intro allI impI)
  fix s
  assume I: "sound api cap k0 s"
  obtain res s1 where run: "OpenDevice api d dir s = (res, s1)" by fastforce
  note R = OpenDevice_result [OF ok run]
  show "sound api cap k0 (snd (bindA (OpenDevice api d dir) (\<lambda>_. bindA (TrackOpenedDevice d) (\<lambda>_. m)) s))"
  proof (cases res)
    case (Inl e)
    then have "sound api cap k0 s1"
      using I R by (auto simp: sound_def tracked_def receivers_run_def)
    with Inl run show ?thesis by (simp add: bindA_def)
  next
    case (Inr u)
    obtain s2 where track: "TrackOpenedDevice d s1 = (Inr (), s2)"
      by (simp add: TrackOpenedDevice_def modifyA_def)
    have s2: "receivers s2 = receivers s" "set (opened_devices s2) = insert d (set (opened_devices s))"
      "device_state s2 = device_state s1"
      using R(1,2) track by (auto simp: TrackOpenedDevice_def modifyA_def split: if_splits)
    have k: "isOpened api x (device_state s1) \<longleftrightarrow> isOpened api x (device_state s) \<or> x = d" for x
      using R(4) Inr by simp
    have "sound api cap k0 s2"
      using I unfolding sound_def tracked_def receivers_run_def s2 k R(3) by blast
    then have "sound api cap k0 (snd (m s2))"
      using assms(2) by (simp add: keeps_def)
    then show ?thesis
      using Inr run track by (simp add: bindA_def)
  qed
qed

lemma keeps_start [keep_rules]:
  assumes ok: "pcap_api_ok api cap"
  shows "keeps (sound api cap k0) (start_receiver api r)"
proof (unfold keeps_def, intro allI impI)
  fix s
  assume I: "sound api cap k0 s"
  let ?k = "device_state s"
  let ?rcv = "Receive (\<lambda>d. isOpened api d ?k) (\<lambda>d. fst (startCapture api d ?k)) r"
  note A = pcap_api_okD(5,6) [OF ok]
  show "sound api cap k0 (snd (start_receiver api r s))"
  proof (cases ?rcv)
    case (Inr r')
    then obtain d where "rc_device r = Some d" "isOpened api d ?k" "fst (startCapture api d ?k)"
      and "\<forall>out. rc_route r = Some out \<longrightarrow> isOpened api out ?k" and "r' = r\<lparr>rc_capturing := True\<rparr>"
      by (auto simp: Receive_Inr)
    then show ?thesis
      using I Inr by (auto simp: start_receiver_def sound_def tracked_def receivers_run_def A)
  next
    case (Inl e)
    have "\<not> fst (startCapture api d ?k)" if "e = StartFailed d" for d
      using Inl that by (auto simp: Receive_def split: option.splits if_splits)
    then show ?thesis
      using I Inl
      by (cases e) (auto simp: start_receiver_def sound_def tracked_def receivers_run_def A)
  qed
qed

lemma keeps_resolve [keep_rules]: "keeps I (ResolveCaptureDevice api iface)"
  by (auto simp: ResolveCaptureDevice_def keeps_def pure_def throw_def split: list.split)

lemma keeps_make_store [keep_rules]: "keeps I (make_store ping c)"
  by (auto simp: make_store_def keeps_def pure_def throw_def split: sum.split)

lemma keeps_init_capture:
  "pcap_api_ok api cap \<Longrightarrow> keeps (sound api cap k0) (init_capture api c iface)"
  unfolding init_capture_def
  by (rule keeps_bind [OF keeps_resolve]) (intro keeps_open_track keeps_start)

lemma keeps_init_routing:
  "pcap_api_ok api cap \<Longrightarrow> keeps (sound api cap k0) (init_routing api c)"
  unfolding init_routing_def
  by (rule keeps_bind [OF keeps_resolve], rule keeps_bind [OF keeps_resolve])
    (intro keeps_open_track keeps_start keeps_bind keeps_if keeps_pure)

lemma Init_sound:
  assumes ok: "pcap_api_ok api cap" and "tracked api cap k0 s"
  shows "sound api cap k0 (snd (Init api ping c s))"
proof -
  let ?rest = "bindA (make_store ping c) (\<lambda>_. if enabled (routing c) then init_routing api c
    else if ifaces (capture c) = [] then init_capture api c [] else forA (init_capture api c) (ifaces (capture c)))"
  have "sound api cap k0 (destroy api s)"
    using destroy_releases [OF assms] by (auto simp: sound_def tracked_def receivers_run_def)
  moreover have "keeps (sound api cap k0) ?rest"
    by (intro keeps_bind keeps_make_store keeps_if keeps_for keeps_init_capture keeps_init_routing ok)
  ultimately show ?thesis
    by (simp add: Init_def bindA_def [of "modifyA _"] modifyA_def keeps_def destroy_def)
qed

lemma run_inits_sound:
  assumes "pcap_api_ok api cap"
  shows "sound api cap k0 s \<Longrightarrow> sound api cap k0 (run_inits api cs s)"
proof (induction cs arbitrary: s)
  case (Cons pc cs)
  then show ?case
    using Init_sound [OF assms sound_tracked] by (cases pc) simp
qed simp

lemma shrew_new_sound: "sound api cap k (shrew_new k)"
  by (simp add: sound_def tracked_def receivers_run_def shrew_new_def)

section \<open>What a successful \<open>Init\<close> starts\<close>

definition resolved :: "'k pcap_api \<Rightarrow> string \<Rightarrow> string" where
  "resolved api iface = (if iface = [] then hd (device_list api) else iface)"

text \<open>The capture directions a configuration asks for: device and, when routing, destination.\<close>

definition capture_plan :: "'k pcap_api \<Rightarrow> RuntimeConfig \<Rightarrow> (string \<times> string option) list" where
  "capture_plan api c =
     (let ingress = resolved api (ingress_iface (routing c)); egress = resolved api (egress_iface (routing c))
      in if enabled (routing c) then
           (ingress, Some egress) # (if bidirectional (routing c) then [(egress, Some ingress)] else [])
         else map (\<lambda>i. (resolved api i, None)) (if ifaces (capture c) = [] then [[]] else ifaces (capture c)))"

definition started :: "CaptureOptions \<Rightarrow> string \<times> string option \<Rightarrow> receiver" where
  "started c = (\<lambda>(d, out). (make_receiver c d out)\<lparr>rc_capturing := True\<rparr>)"

lemma bindA_Inr: "bindA m f s = (Inr y, s') \<longleftrightarrow> (\<exists>x s1. m s = (Inr x, s1) \<and> f x s1 = (Inr y, s'))"
  by (auto simp: bindA_def split: prod.split sum.split)

lemma resolve_Inr: "ResolveCaptureDevice api iface s = (Inr d, s') \<Longrightarrow> d = resolved api iface \<and> s' = s"
  by (auto simp: ResolveCaptureDevice_def resolved_def pure_def throw_def split: if_splits list.splits)

lemma start_Inr:
  "start_receiver api (make_receiver c d out) s = (Inr u, s') \<Longrightarrow> receivers s' = receivers s @ [started c (d, out)]"
  by (auto simp: start_receiver_def started_def Receive_Inr split: sum.splits receiver_error.splits)

lemma open_track_receivers:
  "OpenDevice api d dir s = (r, s') \<Longrightarrow> receivers s' = receivers s"
  "TrackOpenedDevice d s = (r', s') \<Longrightarrow> receivers s' = receivers s"
  by (auto simp: OpenDevice_def TrackOpenedDevice_def modifyA_def split: if_splits prod.splits)

lemma init_capture_Inr:
  assumes "init_capture api c iface s = (Inr u, s')"
  shows "receivers s' = receivers s @ [started (capture c) (resolved api iface, None)]"
  using assms unfolding init_capture_def bindA_Inr
  by (auto dest!: resolve_Inr start_Inr open_track_receivers)

lemma init_routing_Inr:
  assumes "init_routing api c s = (Inr u, s')" and "enabled (routing c)"
  shows "receivers s' = receivers s @ map (started (capture c)) (capture_plan api c)"
  using assms unfolding init_routing_def bindA_Inr
  by (auto dest!: resolve_Inr start_Inr open_track_receivers simp: capture_plan_def pure_def Let_def split: if_splits)

lemma init_all_Inr:
  "forA (init_capture api c) is s = (Inr u, s') \<Longrightarrow>
    receivers s' = receivers s @ map (\<lambda>i. started (capture c) (resolved api i, None)) is"
proof (induction "is" arbitrary: s)
  case (Cons i "is")
  then obtain s1 where "init_capture api c i s = (Inr (), s1)" and "forA (init_capture api c) is s1 = (Inr u, s')"
    by (auto simp: bindA_Inr)
  then show ?case using Cons.IH init_capture_Inr by fastforce
qed (simp add: pure_def)

lemma make_store_Inr: "make_store ping c s = (Inr u, s') \<Longrightarrow>
    s' = s \<and> (record_packets (capture c) \<longrightarrow> (\<exists>st. RedisPacketStore (redis c) ping = Inr st))"
  by (auto simp: make_store_def pure_def throw_def split: if_splits sum.splits)

lemma Init_Inr:
  assumes "Init api ping c s = (Inr u, s')"
  shows "receivers s' = map (started (capture c)) (capture_plan api c)"
    and "record_packets (capture c) \<longrightarrow> (\<exists>st. RedisPacketStore (redis c) ping = Inr st)"
proof -
  have 1: "modifyA (\<lambda>s. CloseDevices api (clear_receivers api s)) s = (Inr (), destroy api s)"
    by (simp add: modifyA_def destroy_def)
  obtain s1 where store: "make_store ping c (destroy api s) = (Inr (), s1)"
    and rest: "(if enabled (routing c) then init_routing api c else if ifaces (capture c) = [] then init_capture api c []
      else forA (init_capture api c) (ifaces (capture c))) s1 = (Inr u, s')"
    using assms unfolding Init_def bindA_Inr 1 by auto
  have "receivers s1 = []" using make_store_Inr [OF store] by simp
  then show "receivers s' = map (started (capture c)) (capture_plan api c)"
    using rest init_routing_Inr [of api c s1 u s'] init_capture_Inr [of api c "[]" s1 u s']
      init_all_Inr [of api c "ifaces (capture c)" s1 u s']
    by (auto simp: capture_plan_def Let_def split: if_splits)
  show "record_packets (capture c) \<longrightarrow> (\<exists>st. RedisPacketStore (redis c) ping = Inr st)"
    using make_store_Inr [OF store] by simp
qed

text \<open>Without recording no receiver records, however far \<open>Init\<close> has come.\<close>

definition none_records :: "'k shrew \<Rightarrow> bool" where
  "none_records s \<longleftrightarrow> (\<forall>r \<in> set (receivers s). \<not> rc_record_packets r)"

lemma keeps_none_records [keep_rules]:
  "keeps none_records (OpenDevice api d dir)"
  "keeps none_records (TrackOpenedDevice d)"
  "\<not> record_packets c \<Longrightarrow> keeps none_records (start_receiver api (make_receiver c d out))"
  by (auto simp: keeps_def none_records_def OpenDevice_def TrackOpenedDevice_def modifyA_def start_receiver_def
      make_receiver_def PcapReceiver_def Receive_def split: prod.split option.splits if_splits)

lemma Init_none_records:
  assumes "\<not> record_packets (capture c)" and "Init api ping c s = (r, s')"
  shows "none_records s'"
proof -
  let ?rest = "bindA (make_store ping c) (\<lambda>_. if enabled (routing c) then init_routing api c
    else if ifaces (capture c) = [] then init_capture api c [] else forA (init_capture api c) (ifaces (capture c)))"
  have "keeps none_records ?rest"
    unfolding init_routing_def init_capture_def by (intro keep_rules keeps_make_store assms(1))
  moreover have "none_records (destroy api s)"
    by (simp add: none_records_def)
  ultimately have "none_records (snd (Init api ping c s))"
    by (simp add: Init_def bindA_def [of "modifyA _"] modifyA_def keeps_def destroy_def)
  then show ?thesis
    using assms(2) by simp
qed

lemma plan_nonempty: "capture_plan api c \<noteq> []"
  by (simp add: capture_plan_def Let_def)

lemma plan_no_reflection:
  assumes "routing_ok (routing c)" and "r \<in> set (map (started (capture c)) (capture_plan api c))"
    and "rc_route r = Some out"
  shows "rc_device r \<noteq> Some out"
  using assms
  by (auto simp: capture_plan_def started_def make_receiver_def PcapReceiver_def resolved_def routing_ok_def Let_def
      split: if_splits)

section \<open>Properties\<close>

text \<open>
  C27: No device leaks. However many times \<open>Init\<close> is called and however each call ends, with
  success or with an exception at any point, the receivers the object holds all capture on
  an open device and forward to an open one, and destroying the object leaves no device
  open and no capture running that was not before the object existed.
\<close>

theorem shrew_releases_devices:
  fixes k :: 'k and runs :: "(ping_outcome \<times> RuntimeConfig) list"
  assumes "pcap_api_ok api cap"
  defines "s \<equiv> run_inits api runs (shrew_new k)"
  shows "receivers_run api cap s \<and>
    (isOpened api d (device_state (destroy api s)) \<longrightarrow> isOpened api d k) \<and>
    (cap (device_state (destroy api s)) d \<longrightarrow> cap k d)"
proof -
  have "sound api cap k s"
    unfolding s_def by (rule run_inits_sound [OF assms(1) shrew_new_sound])
  then show ?thesis
    using destroy_releases [OF assms(1)] unfolding sound_def by blast
qed

text \<open>
  C26: A successful \<open>Init\<close> does what the configuration says: the receivers are exactly those
  of its plan (with routing one from ingress to egress and, when bidirectional, one back;
  without it one per interface, or one on the first device when none is named), each with
  the recording and debugging flags of the configuration, each capturing on its open
  device, and when packets are recorded the store was built and answered its PING.
\<close>

theorem Init_follows_config:
  assumes "pcap_api_ok api cap" and "Init api ping c (shrew_new k) = (Inr u, s)"
  shows "receivers s = map (started (capture c)) (capture_plan api c) \<and> receivers_run api cap s \<and>
    (record_packets (capture c) \<longrightarrow> (\<exists>st. RedisPacketStore (redis c) ping = Inr st))"
proof -
  have "tracked api cap k (shrew_new k)"
    using shrew_new_sound [of api cap k] by (rule sound_tracked)
  then have "sound api cap k s"
    using Init_sound [OF assms(1), of k "shrew_new k" ping c] assms(2) by simp
  then show ?thesis
    using Init_Inr [OF assms(2)] by (simp add: sound_def)
qed

section \<open>A machine with two interfaces\<close>

definition two_ports :: "((string \<Rightarrow> bool) \<times> (string \<Rightarrow> bool)) pcap_api" where
  "two_ports = \<lparr>device_list = [''eth0'', ''eth1''], device_by_name = (\<lambda>d. d = ''eth0'' \<or> d = ''eth1''),
     isOpened = (\<lambda>d k. fst k d), open_device = (\<lambda>dir d k. (True, ((fst k)(d := True), snd k))),
     close_device = (\<lambda>d k. ((fst k)(d := False), (snd k)(d := False))),
     startCapture = (\<lambda>d k. if fst k d \<and> \<not> snd k d then (True, (fst k, (snd k)(d := True))) else (False, k)),
     stopCapture = (\<lambda>d k. (fst k, (snd k)(d := False)))\<rparr>"

lemma two_ports_ok: "pcap_api_ok two_ports snd"
  by (auto simp: two_ports_def pcap_api_ok_def)

definition idle :: "(string \<Rightarrow> bool) \<times> (string \<Rightarrow> bool)" where
  "idle = (\<lambda>_. False, \<lambda>_. False)"

definition bridge :: RuntimeConfig where
  "bridge = default_config\<lparr>routing := \<lparr>enabled = True, ingress_iface = ''eth0'', egress_iface = ''eth1'',
     bidirectional = True\<rparr>\<rparr>"

lemma bridge_run: "\<exists>s. Init two_ports PingTimeout bridge (shrew_new idle) = (Inr (), s)"
  by (simp add: Init_def bindA_def modifyA_def make_store_def pure_def bridge_def default_config_def
      init_routing_def ResolveCaptureDevice_def two_ports_def OpenDevice_def TrackOpenedDevice_def start_receiver_def
      make_receiver_def PcapReceiver_def Receive_def clear_receivers_def CloseDevices_def shrew_new_def idle_def)

theorem shrew_releases_devices_witness:
  "\<not> isOpened two_ports ''eth0'' (device_state (destroy two_ports
     (run_inits two_ports [(PingTimeout, bridge), (PingTimeout, default_config)] (shrew_new idle))))"
  using shrew_releases_devices [OF two_ports_ok, of "[(PingTimeout, bridge), (PingTimeout, default_config)]" idle "''eth0''"]
  by (simp add: two_ports_def idle_def)

theorem Init_follows_config_witness:
  "\<exists>s. Init two_ports PingTimeout bridge (shrew_new idle) = (Inr (), s) \<and>
     map rc_route (receivers s) = [Some ''eth1'', Some ''eth0'']"
proof -
  obtain s where run: "Init two_ports PingTimeout bridge (shrew_new idle) = (Inr (), s)"
    using bridge_run by blast
  have "capture_plan two_ports bridge = [(''eth0'', Some ''eth1''), (''eth1'', Some ''eth0'')]"
    by (simp add: capture_plan_def bridge_def resolved_def Let_def)
  then show ?thesis
    using Init_follows_config [OF two_ports_ok run] run
    by (simp add: started_def make_receiver_def PcapReceiver_def)
qed

end
