(* ===== verification/Supervisor.thy ===== *)
theory Supervisor
  imports Cli_Main Capture_Service
begin

text \<open>
  The life of the capture service: \<open>Bootstrapper\<close> of \<open>src/Bootstrapper.cpp\<close>, which makes the
  service object and keeps it, and of \<open>src/ElephantShrewMain.cpp\<close> \<open>RunCaptureService\<close> and
  \<open>main\<close>, which runs the service again after a crash until a stop is requested. The
  Hypodermic container is used for one thing: a built container makes a new \<open>ElephantShrew\<close>.
\<close>

section \<open>The bootstrapper\<close>

text \<open>
  \<open>container\<close> tells that the container is built. The capture devices outlive every service
  object, so the state of the devices is passed along with the bootstrapper.
\<close>

record 'k bootstrapper =
  container :: bool
  elephantShrew :: "'k shrew option"

definition Bootstrapper_new :: "'k bootstrapper" where
  "Bootstrapper_new = \<lparr>container = False, elephantShrew = None\<rparr>"

datatype service_error = ResolveBeforeStrap | InitFailed init_error

definition Strap :: "'k bootstrapper \<Rightarrow> 'k bootstrapper" where
  "Strap b = b\<lparr>container := True\<rparr>"

text \<open>
  What the world answers one service: the outcome of the store's connection test, and
  whether a recording service lets itself be stopped. The theory of the recording service
  shows when it does: its capture threads end if Redis goes on answering, and may wait in
  \<open>Store\<close> for ever if it does not.
\<close>

record service_world =
  sw_ping :: ping_outcome
  sw_ends :: bool

definition stoppable :: "bool \<Rightarrow> 'k shrew \<Rightarrow> bool" where
  "stoppable ends s \<longleftrightarrow> ends \<or> (\<forall>r \<in> set (receivers s). \<not> (rc_record_packets r \<and> rc_store r))"

text \<open>
  What destroying the last pointer to a service does to the devices; \<^const>\<open>None\<close> when
  stopping its receivers never returns.
\<close>

definition reset_service :: "'k pcap_api \<Rightarrow> bool \<Rightarrow> 'k shrew option \<Rightarrow> 'k \<Rightarrow> 'k option" where
  "reset_service api ends s k = (case s of
     None \<Rightarrow> Some k
   | Some s \<Rightarrow> if stoppable ends s then Some (device_state (destroy api (s\<lparr>device_state := k\<rparr>))) else None)"

text \<open>
  A service whose \<open>Init\<close> throws is destroyed by the unwinding; one that it replaces, after
  the new one has started.
\<close>

definition Resolve ::
  "'k pcap_api \<Rightarrow> service_world \<Rightarrow> RuntimeConfig \<Rightarrow> 'k bootstrapper \<Rightarrow> 'k
    \<Rightarrow> ((service_error + unit) \<times> 'k bootstrapper \<times> 'k) option" where
  "Resolve api w c b k =
     (if \<not> container b then Some (Inl ResolveBeforeStrap, b, k)
      else case Init api (sw_ping w) c (shrew_new k) of
        (Inl e, s) \<Rightarrow> do {
          k \<leftarrow> reset_service api (sw_ends w) (Some s) (device_state s);
          Some (Inl (InitFailed e), b, k)
        }
      | (Inr _, s) \<Rightarrow> do {
          k \<leftarrow> reset_service api (sw_ends w) (elephantShrew b) (device_state s);
          Some (Inr (), b\<lparr>elephantShrew := Some s\<rparr>, k)
        })"

definition destroy_bootstrapper :: "'k pcap_api \<Rightarrow> bool \<Rightarrow> 'k bootstrapper \<Rightarrow> 'k \<Rightarrow> 'k option" where
  "destroy_bootstrapper api ends b k = reset_service api ends (elephantShrew b) k"

section \<open>The service and its supervision\<close>

text \<open>
  How the service ended (with an exception, or after the sleeps of its wait), the looks at
  the stop flag so far, and the devices; \<^const>\<open>None\<close> when it runs for ever or its
  destruction does not end.
\<close>

type_synonym service_end = "service_error + int list"

definition RunCaptureService ::
  "'k pcap_api \<Rightarrow> RuntimeConfig \<Rightarrow> (nat \<Rightarrow> bool) \<Rightarrow> service_world \<Rightarrow> nat \<Rightarrow> 'k \<Rightarrow> (service_end \<times> nat \<times> 'k) option" where
  "RunCaptureService api c stop w i k = do {
     (result, b, k) \<leftarrow> Resolve api w c (Strap Bootstrapper_new) k;
     case result of
       Inl e \<Rightarrow> do {
         k \<leftarrow> destroy_bootstrapper api (sw_ends w) b k;
         Some (Inl e, i, k)
       }
     | Inr _ \<Rightarrow> do {
         (sleeps, i) \<leftarrow> WaitUntilStopRequested stop i (to_ms (poll_interval_ms (supervisor c)));
         k \<leftarrow> destroy_bootstrapper api (sw_ends w) b k;
         Some (Inr sleeps, i, k)
       }
   }"

text \<open>
  The loop of \<open>main\<close> around whatever \<open>run\<close> runs: how each service ended and, when a restart
  was announced, how long the sleep before it was. The list holds what the world answers
  each service; \<^const>\<open>None\<close> when it runs out, or a service never returns.
\<close>

fun restart_loop ::
  "('p \<Rightarrow> nat \<Rightarrow> 'k \<Rightarrow> ('r \<times> nat \<times> 'k) option) \<Rightarrow> (nat \<Rightarrow> bool) \<Rightarrow> int \<Rightarrow> int \<Rightarrow> 'p list \<Rightarrow> nat \<Rightarrow> 'k
    \<Rightarrow> (('r \<times> int list option) list \<times> 'k) option" where
  "restart_loop run stop delay poll [] i k = (if stop i then Some ([], k) else None)"
| "restart_loop run stop delay poll (p # ps) i k =
     (if stop i then Some ([], k)
      else do {
        (result, i, k) \<leftarrow> run p (i + 1) k;
        if stop i then Some ([(result, None)], k)
        else
          let (sleeps, i) = SleepWithStopCheck stop (i + 1) delay poll
          in do {
            (log, k) \<leftarrow> restart_loop run stop delay poll ps i k;
            Some ((result, Some sleeps) # log, k)
          }
      })"

definition supervise ::
  "'k pcap_api \<Rightarrow> RuntimeConfig \<Rightarrow> (nat \<Rightarrow> bool) \<Rightarrow> service_world list \<Rightarrow> nat \<Rightarrow> 'k
    \<Rightarrow> ((service_end \<times> int list option) list \<times> 'k) option" where
  "supervise api c stop = restart_loop (RunCaptureService api c stop) stop
     (to_ms (restart_delay_ms (supervisor c))) (to_ms (poll_interval_ms (supervisor c)))"

section \<open>The console\<close>

text \<open>An exception \<open>main\<close> catches: a \<open>std::exception\<close>, or something else.\<close>

datatype what = ConfigProblem effective_error | ServiceProblem service_error | PcapProblem string

datatype thrown = StdException what | OtherException

datatype message =
    ArgumentError cli_error | Unhandled string "what option" | LoadedConfig string
  | RouteConfigured string bool string | HelloWorld | TryBootstrapper | ServiceRunning
  | RestartingIn int | ShutdownRequested

datatype level = Debug | Info | Warn | Err | Critical

text \<open>What \<open>main\<close> writes: lines on the standard output, log messages, and the log level it sets.\<close>

datatype console = Line string | StartupArt | SetLevel level | Logged level message

definition PrintUsage :: "string \<Rightarrow> console list" where
  "PrintUsage program =
     [Line (''Usage: '' @ program @ '' [-s] [-r] [-d] [-c <config.json>] [-i <iface>]...''),
      Line (''       '' @ program @ '' [options] --route <ingress:egress> [--bidirectional]'')]"

definition PrintStartupArt :: "console list" where
  "PrintStartupArt = [StartupArt]"

definition LogUnhandledException :: "string \<Rightarrow> thrown \<Rightarrow> console" where
  "LogUnhandledException ctxt e = (case e of
     StdException w \<Rightarrow> Logged Critical (Unhandled ctxt (Some w))
   | OtherException \<Rightarrow> Logged Critical (Unhandled ctxt None))"

definition ListInterfaces :: "string list \<Rightarrow> int \<times> console list" where
  "ListInterfaces devices =
     (if devices = [] then (1, [Line ''No network interfaces found.''])
      else (0, Line ''Available interfaces:'' # map (\<lambda>name. Line ('' - '' @ name)) devices))"

definition announce :: "CliOptions \<Rightarrow> RuntimeConfig \<Rightarrow> console list" where
  "announce o1 c =
     (case config_path o1 of None \<Rightarrow> [] | Some path \<Rightarrow> [Logged Info (LoadedConfig path)]) @
     (if enabled (routing c)
      then [Logged Info (RouteConfigured (ingress_iface (routing c)) (bidirectional (routing c)) (egress_iface (routing c)))]
      else []) @
     [Logged Info HelloWorld]"

text \<open>Of one turn of the loop.\<close>

definition service_output :: "int \<Rightarrow> service_end \<times> int list option \<Rightarrow> console list" where
  "service_output delay turn =
     Logged Info TryBootstrapper #
     (case fst turn of
        Inl e \<Rightarrow> [LogUnhandledException ''Capture service crashed'' (StdException (ServiceProblem e))]
      | Inr _ \<Rightarrow> [Logged Info ServiceRunning]) @
     (if snd turn \<noteq> None then [Logged Warn (RestartingIn delay)] else [])"

section \<open>The program\<close>

text \<open>
  The exit code, what was written, the turns of the loop and the devices. \<open>devices\<close> is what
  listing the interfaces answers or throws.
\<close>

definition es_main ::
  "'k pcap_api \<Rightarrow> (string \<Rightarrow> config_error + RuntimeConfig) \<Rightarrow> (thrown + string list) \<Rightarrow> string \<Rightarrow> string list
    \<Rightarrow> (nat \<Rightarrow> signal list) \<Rightarrow> service_world list \<Rightarrow> 'k
    \<Rightarrow> (int \<times> console list \<times> (service_end \<times> int list option) list \<times> 'k) option" where
  "es_main api load devices program args arrivals worlds k =
     (let handlers = InstallSignalHandlers Map.empty in
      case ParseArguments args of
        Inl e \<Rightarrow> Some (1, Logged Err (ArgumentError e) # PrintUsage program, [], k)
      | Inr o1 \<Rightarrow> (case LoadEffectiveConfig load o1 of
          Inl e \<Rightarrow> Some (1, [LogUnhandledException ''Failed to load runtime config'' (StdException (ConfigProblem e))], [], k)
        | Inr c \<Rightarrow>
            let out = SetLevel (if debug_packets (capture c) then Debug else Info) #
                  (if show_startup_art (ui c) then PrintStartupArt else [])
            in if scan_only o1 then
                 let (code, lines) = (case devices of
                       Inl e \<Rightarrow> (1, [LogUnhandledException ''Interface scan failed'' e])
                     | Inr ds \<Rightarrow> ListInterfaces ds)
                 in Some (code, out @ lines, [], k)
               else do {
                 (log, k) \<leftarrow> supervise api c (StopRequested handlers arrivals) worlds 0 k;
                 Some (0, out @ announce o1 c @
                   concat (map (service_output (to_ms (restart_delay_ms (supervisor c)))) log) @
                   [Logged Info ShutdownRequested], log, k)
               }))"

section \<open>Lemmas\<close>

text \<open>\<open>released k k'\<close>: \<open>k'\<close> has nothing open and nothing capturing that \<open>k\<close> has not.\<close>

definition released :: "'k pcap_api \<Rightarrow> ('k \<Rightarrow> string \<Rightarrow> bool) \<Rightarrow> 'k \<Rightarrow> 'k \<Rightarrow> bool" where
  "released api cap k k' \<longleftrightarrow> (\<forall>d. (isOpened api d k' \<longrightarrow> isOpened api d k) \<and> (cap k' d \<longrightarrow> cap k d))"

lemma released_refl: "released api cap k k"
  by (simp add: released_def)

lemma released_trans: "released api cap k1 k2 \<Longrightarrow> released api cap k2 k3 \<Longrightarrow> released api cap k1 k3"
  by (auto simp: released_def)

lemma reset_service_releases:
  assumes "pcap_api_ok api cap" and "Init api ping c (shrew_new k) = (r, s)"
    and "reset_service api ends (Some s) (device_state s) = Some k'"
  shows "released api cap k k'"
proof -
  have "tracked api cap k (shrew_new k)"
    using shrew_new_sound by (rule sound_tracked)
  then have "tracked api cap k s"
    using Init_sound [OF assms(1), of k "shrew_new k" ping c] assms(2) by (simp add: sound_def)
  then show ?thesis
    using destroy_releases [OF assms(1)] assms(3) by (auto simp: released_def reset_service_def split: if_splits)
qed

lemmas service_defs = RunCaptureService_def Resolve_def Strap_def Bootstrapper_new_def destroy_bootstrapper_def
  WaitUntilStopRequested_def

lemma RunCaptureService_releases:
  assumes "pcap_api_ok api cap" and "RunCaptureService api c stop w i k = Some (result, j, k')"
  shows "released api cap k k'"
proof -
  obtain r s where init: "Init api (sw_ping w) c (shrew_new k) = (r, s)" by fastforce
  show ?thesis
    using assms(2) init reset_service_releases [OF assms(1) init]
    by (cases r) (auto simp: service_defs reset_service_def [of _ _ None] split: bind_splits)
qed

lemma RunCaptureService_looks:
  assumes "RunCaptureService api c stop w i k = Some (result, j, k')"
  shows "i \<le> j" and "result = Inr sleeps \<Longrightarrow> stop (j - 1) \<and> i < j"
proof -
  have "i \<le> j \<and> (\<forall>sleeps. result = Inr sleeps \<longrightarrow> stop (j - 1) \<and> i < j)"
    using assms by (auto simp: service_defs split: bind_splits prod.splits sum.splits dest!: wait_loop_returns)
  then show "i \<le> j" and "result = Inr sleeps \<Longrightarrow> stop (j - 1) \<and> i < j"
    by blast+
qed

text \<open>A service ends if the world lets it, or if it does not record.\<close>

definition will_end :: "RuntimeConfig \<Rightarrow> service_world \<Rightarrow> bool" where
  "will_end c w \<longleftrightarrow> sw_ends w \<or> \<not> record_packets (capture c)"

lemma reset_service_returns:
  assumes "will_end c w" and "Init api ping c (shrew_new k) = (r, s)"
  shows "\<exists>k''. reset_service api (sw_ends w) (Some s) k' = Some k''"
  using assms Init_none_records [OF _ assms(2)]
  by (auto simp: will_end_def reset_service_def stoppable_def none_records_def)

lemma RunCaptureService_returns:
  assumes "stop (i + n)" and ends: "will_end c w"
  shows "\<exists>result j k'. RunCaptureService api c stop w i k = Some (result, j, k')"
proof -
  obtain r s where init: "Init api (sw_ping w) c (shrew_new k) = (r, s)" by fastforce
  obtain m where "wait_loop stop i (positive_poll (to_ms (poll_interval_ms (supervisor c)))) =
      Some (replicate m (positive_poll (to_ms (poll_interval_ms (supervisor c)))), i + m + 1)"
    using wait_loop_stops [of stop i n, OF assms(1)] by blast
  moreover obtain k1 where "reset_service api (sw_ends w) (Some s) (device_state s) = Some k1"
    using reset_service_returns [OF ends init] by blast
  ultimately show ?thesis
    using init by (cases r) (simp_all add: service_defs reset_service_def [of _ _ None])
qed

lemma SleepWithStopCheck_looks: "SleepWithStopCheck stop i delay poll = (sleeps, j) \<Longrightarrow> i \<le> j"
  using sleep_loop_sleeps [of "positive_poll poll" stop i delay sleeps j]
  by (auto simp: SleepWithStopCheck_def positive_poll_def split: if_splits)

lemma stays_stopped:
  assumes "\<And>i. stop i \<Longrightarrow> stop (Suc i)" and "stop n" and "n \<le> i"
  shows "stop i"
  using assms(3,2) by (induction rule: dec_induct) (auto intro: assms(1))

text \<open>
  What the loop asks of the service it runs: it looks at the flag only forwards, it ends
  normally only after seeing a stop, it returns once a stop is requested if the world is one
  in which it \<open>ends\<close>, and it leaves the world as \<open>clean\<close> allows.
\<close>

locale service =
  fixes run :: "'p \<Rightarrow> nat \<Rightarrow> 'k \<Rightarrow> (('e + 'a) \<times> nat \<times> 'k) option"
    and stop :: "nat \<Rightarrow> bool"
    and clean :: "'k \<Rightarrow> 'k \<Rightarrow> bool"
    and ends :: "'p \<Rightarrow> bool"
  assumes clean_refl: "clean k k"
    and clean_trans: "clean k1 k2 \<Longrightarrow> clean k2 k3 \<Longrightarrow> clean k1 k3"
    and run_clean: "run p i k = Some (r, j, k') \<Longrightarrow> clean k k'"
    and run_looks: "run p i k = Some (r, j, k') \<Longrightarrow> i \<le> j"
    and run_ends: "run p i k = Some (Inr x, j, k') \<Longrightarrow> stop (j - 1) \<and> i < j"
    and run_returns: "stop (i + n) \<Longrightarrow> ends p \<Longrightarrow> \<exists>r j k'. run p i k = Some (r, j, k')"
begin

text \<open>The loop looks at the flag at least twice per service, so it cannot go on past a stop.\<close>

lemma loop_stops:
  assumes set_once: "\<And>i. stop i \<Longrightarrow> stop (Suc i)" and "stop n"
  shows "n \<le> i + length ps \<Longrightarrow> \<forall>p \<in> set ps. ends p \<Longrightarrow> \<exists>log k'. restart_loop run stop delay poll ps i k = Some (log, k')"
proof (induction ps arbitrary: i k)
  case Nil
  then show ?case
    using stays_stopped [of stop n i, OF set_once assms(2)] by simp
next
  case (Cons p ps)
  show ?case
  proof (cases "stop i")
    case False
    have "stop (i + 1 + n)"
      by (rule stays_stopped [of stop n, OF set_once assms(2)]) simp_all
    then obtain r j k' where run: "run p (i + 1) k = Some (r, j, k')"
      using run_returns Cons.prems(2) by force
    show ?thesis
    proof (cases "stop j")
      case go_on: False
      obtain sleeps j' where sleep: "SleepWithStopCheck stop (j + 1) delay poll = (sleeps, j')" by fastforce
      have "n \<le> j' + length ps"
        using Cons.prems(1) run_looks [OF run] SleepWithStopCheck_looks [OF sleep] by simp
      then obtain log k'' where "restart_loop run stop delay poll ps j' k' = Some (log, k'')"
        using Cons.IH Cons.prems(2) by fastforce
      then show ?thesis
        using False run go_on sleep by simp
    qed (use False run in simp)
  qed simp
qed

text \<open>Only the last service can have ended normally.\<close>

lemma loop_result:
  assumes set_once: "\<And>i. stop i \<Longrightarrow> stop (Suc i)"
  shows "restart_loop run stop delay poll ps i k = Some (log, k') \<Longrightarrow>
    clean k k' \<and> (\<forall>r \<in> set (butlast log). \<exists>e. fst r = Inl e)"
proof (induction ps arbitrary: i k log)
  case Nil
  then show ?case by (auto simp: clean_refl split: if_splits)
next
  case (Cons p ps)
  show ?case
  proof (cases "stop i")
    case True
    with Cons.prems show ?thesis by (auto simp: clean_refl)
  next
    case False
    then obtain r j k1 where run: "run p (i + 1) k = Some (r, j, k1)"
      using Cons.prems by (auto split: bind_splits)
    show ?thesis
    proof (cases "stop j")
      case True
      with False run Cons.prems run_clean [OF run] show ?thesis by auto
    next
      case go_on: False
      then have crash: "\<exists>e. r = Inl e"
        using run_ends [of p "i + 1" k _ j k1] run set_once [of "j - 1"] by (cases r) (auto simp: Suc_diff_1)
      obtain sleeps j' where sleep: "SleepWithStopCheck stop (j + 1) delay poll = (sleeps, j')" by fastforce
      obtain log' where rest: "restart_loop run stop delay poll ps j' k1 = Some (log', k')"
        and log: "log = (r, Some sleeps) # log'"
        using False run go_on sleep Cons.prems by (auto split: bind_splits)
      show ?thesis
        using Cons.IH [OF rest] crash clean_trans [OF run_clean [OF run]] unfolding log by auto
    qed
  qed
qed

text \<open>The loop ends only after a look that saw a stop.\<close>

lemma loop_needs_stop: "restart_loop run stop delay poll ps i k = Some (log, k') \<Longrightarrow> \<exists>n. stop n"
  by (induction ps arbitrary: i k log) (auto simp: Let_def split: if_splits bind_splits prod.splits)

end

interpretation capture: service "RunCaptureService api c stop" stop
    "\<lambda>k k'. pcap_api_ok api cap \<longrightarrow> released api cap k k'" "will_end c" for api c stop cap
proof
  fix p i k r j k' and x :: "int list" and n
  show "pcap_api_ok api cap \<longrightarrow> released api cap k k"
    by (simp add: released_refl)
  show "RunCaptureService api c stop p i k = Some (r, j, k') \<Longrightarrow> pcap_api_ok api cap \<longrightarrow> released api cap k k'"
    by (blast intro: RunCaptureService_releases)
  show "RunCaptureService api c stop p i k = Some (r, j, k') \<Longrightarrow> i \<le> j"
    by (rule RunCaptureService_looks(1))
  show "RunCaptureService api c stop p i k = Some (Inr x, j, k') \<Longrightarrow> stop (j - 1) \<and> i < j"
    by (rule RunCaptureService_looks(2) [OF _ refl])
  show "stop (i + n) \<Longrightarrow> will_end c p \<Longrightarrow> \<exists>r j k'. RunCaptureService api c stop p i k = Some (r, j, k')"
    by (rule RunCaptureService_returns)
qed (blast intro: released_trans)

section \<open>Properties\<close>

text \<open>
  C24: \<open>main\<close> ends and cleans up. Once a SIGINT or SIGTERM arrives, before whatever look at
  the flag and whatever crashes, capture errors and store failures came before, \<open>main\<close>
  returns, provided that no recording service hangs in its own shutdown; then no device is open and no capture runs that was not before it, every service
  but the last one ended with an exception, and the exit code is 1 exactly when the
  arguments do not parse, the configuration does not load or a scan fails or finds nothing.
\<close>

theorem main_stops_clean:
  assumes "pcap_api_ok api cap" and "sig \<in> set (arrivals n)" and "sig = SIGINT \<or> sig = SIGTERM" and "n \<le> length worlds"
    and "\<forall>o1 c. ParseArguments args = Inr o1 \<and> LoadEffectiveConfig load o1 = Inr c \<and> record_packets (capture c) \<longrightarrow>
      (\<forall>w \<in> set worlds. sw_ends w)"
  shows "\<exists>code out log k'. es_main api load devices program args arrivals worlds k = Some (code, out, log, k') \<and>
    released api cap k k' \<and> (\<forall>r \<in> set (butlast log). \<exists>e. fst r = Inl e) \<and>
    code = (case ParseArguments args of Inl _ \<Rightarrow> 1 | Inr o1 \<Rightarrow> (case LoadEffectiveConfig load o1 of Inl _ \<Rightarrow> 1
      | Inr c \<Rightarrow> if scan_only o1 \<and> (\<nexists>d ds. devices = Inr (d # ds)) then 1 else 0))"
proof (cases "ParseArguments args")
  case (Inl e)
  then show ?thesis by (simp add: es_main_def released_refl)
next
  case o1: (Inr o1)
  show ?thesis
  proof (cases "LoadEffectiveConfig load o1")
    case (Inl e)
    with o1 show ?thesis by (simp add: es_main_def released_refl)
  next
    case (Inr c)
    let ?stop = "StopRequested (InstallSignalHandlers Map.empty) arrivals"
    have once: "?stop i \<Longrightarrow> ?stop (Suc i)" for i
      by (auto simp: StopRequested_iff intro: le_SucI)
    have set: "?stop n"
      using assms(2,3) by (auto simp: StopRequested_iff asks_to_stop_def)
    have "\<forall>w \<in> set worlds. will_end c w"
      using assms(5) o1 Inr by (auto simp: will_end_def)
    then have "\<exists>log k'. supervise api c ?stop worlds 0 k = Some (log, k')"
      unfolding supervise_def by (intro capture.loop_stops [where stop = ?stop, OF once set]) (simp_all add: assms(4))
    then obtain log k' where run: "supervise api c ?stop worlds 0 k = Some (log, k')"
      by blast
    show ?thesis
    proof (cases "scan_only o1")
      case True
      with o1 Inr show ?thesis
        by (cases devices) (auto simp: es_main_def Let_def released_refl ListInterfaces_def neq_Nil_conv)
    next
      case False
      with o1 Inr run show ?thesis
        using capture.loop_result [where cap = cap and stop = ?stop, OF once run [unfolded supervise_def]] assms(1)
        by (simp add: es_main_def Let_def)
    qed
  qed
qed

text \<open>
  C25: Nothing but a stop ends the program. If \<open>main\<close> returns and it was neither stopped by
  its arguments, by its configuration or by being asked for a scan, then a SIGINT or SIGTERM
  has arrived: no crash of the service, however often, makes it exit.
\<close>

theorem main_ends_only_on_stop:
  assumes "es_main api load devices program args arrivals worlds k = Some (code, out, log, k')"
    and "ParseArguments args = Inr o1" and "LoadEffectiveConfig load o1 = Inr c" and "\<not> scan_only o1"
  shows "code = 0 \<and> (\<exists>i. SIGINT \<in> set (arrivals i) \<or> SIGTERM \<in> set (arrivals i))"
proof -
  let ?stop = "StopRequested (InstallSignalHandlers Map.empty) arrivals"
  obtain log' where "supervise api c ?stop worlds 0 k = Some (log', k')" and "code = 0"
    using assms by (auto simp: es_main_def split: bind_splits)
  moreover from this have "\<exists>n. ?stop n"
    unfolding supervise_def by (blast intro: capture.loop_needs_stop)
  ultimately show ?thesis
    by (auto simp: StopRequested_iff asks_to_stop_def)
qed

text \<open>
  And what it takes: a recording service whose shutdown hangs is the end of the program's
  ability to return. No signal, nor anything that could come after it, makes \<open>main\<close> return.
\<close>

theorem main_never_returns:
  assumes "ParseArguments args = Inr o1" and "LoadEffectiveConfig load o1 = Inr c" and "\<not> scan_only o1"
    and "record_packets (capture c)" and "Init api (sw_ping w) c (shrew_new k) = (Inr u, s)" and "\<not> sw_ends w"
    and "\<not> StopRequested (InstallSignalHandlers Map.empty) arrivals 0"
  shows "es_main api load devices program args arrivals (w # worlds) k = None"
proof -
  obtain d out where "(d, out) \<in> set (capture_plan api c)"
    using plan_nonempty [of api c] by (cases "capture_plan api c") auto
  then have "\<not> stoppable False s"
    using Init_Inr(1) [OF assms(5)] assms(4)
    by (force simp: stoppable_def started_def make_receiver_def PcapReceiver_def)
  then have "RunCaptureService api c stop w i k = None" for stop i
    using assms(5,6) by (auto simp: service_defs reset_service_def split: bind_splits)
  then show ?thesis
    using assms(1,2,3,7) by (simp add: es_main_def supervise_def Let_def)
qed

lemma help_exits_1:
  "es_main api load devices program [''--help''] arrivals worlds k =
     Some (1, Logged Err (ArgumentError (UnknownArgument ''--help'')) # PrintUsage program, [], k)"
  by (simp add: es_main_def ParseArguments_def)

text \<open>Crashes on a machine without interfaces, a SIGTERM before the ninth look.\<close>

definition no_ports :: "unit pcap_api" where
  "no_ports = \<lparr>device_list = [], device_by_name = (\<lambda>_. False), isOpened = (\<lambda>_ _. False),
     open_device = (\<lambda>_ _ k. (False, k)), close_device = (\<lambda>_ k. k), startCapture = (\<lambda>_ k. (False, k)),
     stopCapture = (\<lambda>_ k. k)\<rparr>"

definition late_sigterm :: "nat \<Rightarrow> signal list" where
  "late_sigterm i = (if i = 9 then [OtherSignal 28, SIGTERM] else [])"

lemma no_arguments: "ParseArguments [] = Inr CliOptions_new"
  by (simp add: ParseArguments_def check_options_def CliOptions_new_def)

lemma no_config_file: "LoadEffectiveConfig load CliOptions_new = Inr default_config"
  by (simp add: LoadEffectiveConfig_def CliOptions_new_def apply_flags_def apply_route_def apply_direction_def
      default_config_def)

theorem main_stops_clean_witness:
  "\<exists>out log. es_main no_ports (\<lambda>_. Inl SameInterfaces) (Inr []) ''es'' [] late_sigterm
         (replicate 9 \<lparr>sw_ping = PingTimeout, sw_ends = False\<rparr>) () =
       Some (0, out, log, ()) \<and>
     (\<forall>r \<in> set (butlast log). \<exists>e. fst r = Inl e)"
proof -
  have "pcap_api_ok no_ports (\<lambda>_ _. False)"
    by (simp add: pcap_api_ok_def no_ports_def)
  then show ?thesis
    using main_stops_clean [of no_ports "\<lambda>_ _. False" SIGTERM late_sigterm 9 "replicate 9 \<lparr>sw_ping = PingTimeout, sw_ends = False\<rparr>"
        "[]" "\<lambda>_. Inl SameInterfaces" "Inr []" "''es''" "()"] no_arguments no_config_file
    by (auto simp: CliOptions_new_def late_sigterm_def default_config_def)
qed

text \<open>Asked to stop before it looks for the first time, the program runs no service.\<close>

definition early_sigint :: "nat \<Rightarrow> signal list" where
  "early_sigint i = (if i = 0 then [SIGINT] else [])"

theorem main_ends_only_on_stop_witness:
  "\<exists>out i. es_main no_ports (\<lambda>_. Inl SameInterfaces) (Inr []) ''es'' [] early_sigint [] () = Some (0, out, [], ()) \<and>
     (SIGINT \<in> set (early_sigint i) \<or> SIGTERM \<in> set (early_sigint i))"
proof -
  have scan: "\<not> scan_only CliOptions_new"
    by (simp add: CliOptions_new_def)
  then have "\<exists>out. es_main no_ports (\<lambda>_. Inl SameInterfaces) (Inr []) ''es'' [] early_sigint [] () = Some (0, out, [], ())"
    by (simp add: es_main_def no_arguments no_config_file supervise_def StopRequested_iff asks_to_stop_def early_sigint_def)
  then obtain out where run: "es_main no_ports (\<lambda>_. Inl SameInterfaces) (Inr []) ''es'' [] early_sigint [] () = Some (0, out, [], ())"
    by blast
  show ?thesis
    using run main_ends_only_on_stop [OF run no_arguments no_config_file scan] by blast
qed

end
