(* ===== verification/Capture_Shutdown.thy ===== *)
theory Capture_Shutdown
  imports Redis_Store Capture_Service
begin

text \<open>
  The capture service while it records: \<open>Init\<close> starting the receivers of
  \<open>src/ElephantShrew.cpp\<close>, each with a capture thread that runs from then on, all calling \<open>Store\<close> of the one store they share, the store's I/O
  thread, Redis, and the destructor of the service. \<open>receivers_.clear()\<close> stops the receivers
  one after the other, waiting in \<open>stopCapture\<close> for the capture thread; the last receiver
  holds the last pointer to the store, so the store's destructor runs after that.
\<close>

section \<open>State\<close>

text \<open>
  A capture thread: waiting for a packet, in \<open>Store\<close> with a packet and no slot yet (perhaps
  waiting on the condition variable), in \<open>Store\<close> with a slot and about to post, ended.
\<close>

datatype capture_thread = Listening | Storing PacketInfo | Posting PacketInfo | Ended

text \<open>The destructor: not called, in \<open>stopCapture\<close> of the i-th receiver, past \<open>receivers_.clear()\<close>
  as far as the store's own destructor.\<close>

datatype closing = Open | StopCapture nat | Cleared

text \<open>\<open>planned\<close> is how many receivers \<open>Init\<close> has still to start; a capture thread runs as soon as
  its receiver is started, whatever \<open>Init\<close> has left to do.\<close>

record running =
  recording :: store_system
  captures :: "capture_thread list"
  planned :: nat
  closing :: closing

text \<open>\<open>Init\<close> has made the store and is about to start the receivers of the service it leaves.\<close>

definition running_start :: "store \<Rightarrow> 'k shrew \<Rightarrow> running" where
  "running_start st s = \<lparr>recording = store_start st, captures = [], planned = length (receivers s), closing = Open\<rparr>"

definition capture_at :: "running \<Rightarrow> nat \<Rightarrow> capture_thread \<Rightarrow> bool" where
  "capture_at s i w \<longleftrightarrow> i < length (captures s) \<and> captures s ! i = w"

definition set_capture :: "nat \<Rightarrow> capture_thread \<Rightarrow> running \<Rightarrow> running" where
  "set_capture i w s = s\<lparr>captures := (captures s)[i := w]\<rparr>"

definition stop_next :: "nat \<Rightarrow> running \<Rightarrow> closing" where
  "stop_next i s = (if i < length (captures s) then StopCapture i else Cleared)"

section \<open>Steps\<close>

text \<open>Who takes a step: \<open>Init\<close>, the network, a capture thread, the I/O thread, Redis or the destructor.\<close>

datatype actor = Starting | Arrival | Capture nat | IoThread | Redis | Closing

text \<open>What a capture thread does inside \<open>Store\<close>, and where that leaves it.\<close>

fun after_call :: "capture_thread \<Rightarrow> store_action \<Rightarrow> capture_thread option" where
  "after_call (Storing p) (Reserve q) = (if p = q then Some (Posting p) else None)"
| "after_call (Storing p) (Refuse q) = (if p = q then Some Listening else None)"
| "after_call (Posting p) (PostHandler q) = (if p = q then Some Listening else None)"
| "after_call (Posting p) (PostThrows q) = (if p = q then Some Listening else None)"
| "after_call _ _ = None"

fun acts :: "actor \<Rightarrow> store_action \<Rightarrow> bool" where
  "acts IoThread e = (e = HandlerExec \<or> e = HandlerThrows)"
| "acts Redis e = (e = Reply)"
| "acts Closing e = (e = StopAccepting \<or> e = WaitDone \<or> e = WaitTimeout \<or> e = StopIo)"
| "acts _ e = False"

text \<open>The destructor runs after \<open>Init\<close> has returned, or has failed with some receivers not started.\<close>

inductive running_step :: "actor \<Rightarrow> running \<Rightarrow> running \<Rightarrow> bool" where
  receiver_starts: "closing s = Open \<Longrightarrow> 0 < planned s \<Longrightarrow>
    running_step Starting s (s\<lparr>captures := captures s @ [Listening], planned := planned s - 1\<rparr>)"
| packet_arrives: "capture_at s i Listening \<Longrightarrow> running_step Arrival s (set_capture i (Storing p) s)"
| in_store: "capture_at s i w \<Longrightarrow> after_call w e = Some v \<Longrightarrow> store_event e (recording s) r \<Longrightarrow>
    running_step (Capture i) s ((set_capture i v s)\<lparr>recording := r\<rparr>)"
| store_acts: "acts a e \<Longrightarrow> a = Closing \<longrightarrow> closing s = Cleared \<Longrightarrow> store_event e (recording s) r \<Longrightarrow>
    running_step a s (s\<lparr>recording := r\<rparr>)"
| begin_closing: "closing s = Open \<Longrightarrow> running_step Closing s (s\<lparr>closing := stop_next 0 s\<rparr>)"
| capture_ends: "closing s = StopCapture i \<Longrightarrow> capture_at s i Listening \<Longrightarrow>
    running_step (Capture i) s (set_capture i Ended s)"
| capture_joined: "closing s = StopCapture i \<Longrightarrow> capture_at s i Ended \<Longrightarrow>
    running_step Closing s (s\<lparr>closing := stop_next (Suc i) s\<rparr>)"

text \<open>Any step; a step other than an arrival; a step not made by Redis; a step of the program itself.\<close>

definition service_step :: "running \<Rightarrow> running \<Rightarrow> bool" where
  "service_step s s' \<longleftrightarrow> (\<exists>a. running_step a s s')"

definition quiet_step :: "running \<Rightarrow> running \<Rightarrow> bool" where
  "quiet_step s s' \<longleftrightarrow> (\<exists>a. a \<noteq> Arrival \<and> running_step a s s')"

definition unanswered_step :: "running \<Rightarrow> running \<Rightarrow> bool" where
  "unanswered_step s s' \<longleftrightarrow> (\<exists>a. a \<noteq> Redis \<and> running_step a s s')"

definition program_step :: "running \<Rightarrow> running \<Rightarrow> bool" where
  "program_step s s' \<longleftrightarrow> (\<exists>a. a \<noteq> Arrival \<and> a \<noteq> Redis \<and> running_step a s s')"

lemmas some_step_defs = service_step_def quiet_step_def unanswered_step_def program_step_def

section \<open>The invariant\<close>

text \<open>Adding up over the threads.\<close>

definition total :: "(capture_thread \<Rightarrow> 'a::comm_monoid_add) \<Rightarrow> running \<Rightarrow> 'a" where
  "total f s = sum_list (map f (captures s))"

lemma sum_list_set:
  fixes f :: "'b \<Rightarrow> 'a::comm_monoid_add"
  shows "i < length xs \<Longrightarrow> sum_list (map f (xs[i := w])) + f (xs ! i) = sum_list (map f xs) + f w"
  by (induction xs arbitrary: i) (auto simp: ac_simps split: nat.split)

lemma total_set: "capture_at s i v \<Longrightarrow> total f (set_capture i w s) + f v = total f s + f w"
  using sum_list_set [of i "captures s" f w] by (auto simp: total_def set_capture_def capture_at_def)

lemma total_recording [simp]: "total f (s\<lparr>recording := r\<rparr>) = total f s" "total f (s\<lparr>closing := c\<rparr>) = total f s"
  "total f (s\<lparr>captures := ws, planned := n\<rparr>) = sum_list (map f ws)"
  by (simp_all add: total_def)

fun posting :: "capture_thread \<Rightarrow> PacketInfo multiset" where
  "posting (Posting p) = {#p#}"
| "posting _ = {#}"

text \<open>The receivers below the one being stopped have ended, the ones above have not.\<close>

definition closed_in_order :: "running \<Rightarrow> bool" where
  "closed_in_order s \<longleftrightarrow> (case closing s of
     Open \<Rightarrow> \<forall>j. \<not> capture_at s j Ended
   | StopCapture i \<Rightarrow> i < length (captures s) \<and> (\<forall>j < i. capture_at s j Ended) \<and> (\<forall>j > i. \<not> capture_at s j Ended)
   | Cleared \<Rightarrow> \<forall>j < length (captures s). capture_at s j Ended)"

definition running_ok :: "RedisStoreOptions \<Rightarrow> running \<Rightarrow> bool" where
  "running_ok opts s \<longleftrightarrow> store_ok opts (recording s) \<and> max_pending_writes opts \<noteq> 0 \<and>
     mset (reserved (recording s)) = total posting s \<and> refused (recording s) = [] \<and>
     (phase (recording s) \<noteq> Serving \<longrightarrow> closing s = Cleared) \<and> closed_in_order s"

lemma set_capture_simps [simp]:
  "recording (set_capture i w s) = recording s" "closing (set_capture i w s) = closing s"
  "length (captures (set_capture i w s)) = length (captures s)" "planned (set_capture i w s) = planned s"
  by (simp_all add: set_capture_def)

lemma capture_at_set: "capture_at (set_capture i w s) j v \<longleftrightarrow> j < length (captures s) \<and> (if j = i then v = w else capture_at s j v)"
  by (auto simp: capture_at_def set_capture_def nth_list_update)

lemma capture_at_update [simp]:
  "capture_at (s\<lparr>recording := r\<rparr>) = capture_at s" "capture_at (s\<lparr>closing := c\<rparr>) = capture_at s"
  by (simp_all add: capture_at_def fun_eq_iff)

lemma capture_at_unique: "capture_at s i v \<Longrightarrow> capture_at s i w \<Longrightarrow> v = w"
  by (simp add: capture_at_def)

lemma capture_at_less: "capture_at s i v \<Longrightarrow> i < length (captures s)"
  by (simp add: capture_at_def)

inductive_simps store_event_simps:
  "store_event (Reserve p) s r" "store_event (Refuse p) s r" "store_event (PostHandler p) s r"
  "store_event (PostThrows p) s r" "store_event HandlerExec s r" "store_event HandlerThrows s r"
  "store_event Reply s r" "store_event StopAccepting s r" "store_event WaitDone s r"
  "store_event WaitTimeout s r" "store_event StopIo s r"

lemma running_okD:
  assumes "running_ok opts s"
  shows "store_ok opts (recording s)" and "max_pending_writes opts \<noteq> 0"
    and "mset (reserved (recording s)) = total posting s" and "refused (recording s) = []"
    and "phase (recording s) \<noteq> Serving \<Longrightarrow> closing s = Cleared" and "closed_in_order s"
  using assms by (auto simp: running_ok_def)

lemma closed_update [simp]: "closed_in_order (s\<lparr>recording := r\<rparr>) = closed_in_order s"
  by (simp add: closed_in_order_def split: closing.split)

lemma closed_set:
  assumes "closed_in_order s" and "capture_at s i v" and "v \<noteq> Ended" and "w \<noteq> Ended"
  shows "closed_in_order (set_capture i w s)"
proof -
  have "capture_at (set_capture i w s) j Ended = capture_at s j Ended" for j
    using assms(2,3,4) by (auto simp: capture_at_def set_capture_def nth_list_update)
  then show ?thesis
    using assms(1) by (simp add: closed_in_order_def split: closing.splits)
qed

lemma cleared_ended: "closed_in_order s \<Longrightarrow> closing s = Cleared \<Longrightarrow> capture_at s i v \<Longrightarrow> v = Ended"
  by (auto simp: closed_in_order_def capture_at_def)

lemma total_move: "capture_at s i v \<Longrightarrow> f v = f w \<Longrightarrow> total f (set_capture i w s) = (total f s :: 'b multiset)"
  using total_set [of s i v f w] by simp

text \<open>While a capture thread lives the store serves, so it refuses nothing.\<close>

lemma alive_serving:
  assumes "running_ok opts s" and "capture_at s i v" and "v \<noteq> Ended"
  shows "phase (recording s) = Serving" and "accepting_writes (store_of (recording s))" and "closing s \<noteq> Cleared"
proof -
  show c: "closing s \<noteq> Cleared"
    using cleared_ended [OF running_okD(6) [OF assms(1)] _ assms(2)] assms(3) by blast
  then show p: "phase (recording s) = Serving"
    using running_okD(5) [OF assms(1)] by blast
  then show "accepting_writes (store_of (recording s))"
    using running_okD(1) [OF assms(1)] by (simp add: store_ok_def)
qed

lemma running_ok_in_store:
  assumes ok: "running_ok opts s" and i: "capture_at s i w" and call: "after_call w e = Some v"
    and event: "store_event e (recording s) r"
  shows "running_ok opts ((set_capture i v s)\<lparr>recording := r\<rparr>)"
proof -
  have alive: "w \<noteq> Ended" and v: "v \<noteq> Ended"
    using call by (auto elim!: after_call.elims split: if_splits)
  note D = running_okD [OF ok] and L = alive_serving [OF ok i alive]
  have "store_ok opts r"
    using D(1) event by (rule store_ok_event)
  moreover have "closed_in_order (set_capture i v s)"
    using D(6) i alive v by (rule closed_set)
  moreover have "mset (reserved r) = total posting (set_capture i v s) \<and> refused r = refused (recording s) \<and>
      phase r = phase (recording s)"
    using total_set [OF i, of posting v] call event D(3) [symmetric] L(2)
    by (auto elim!: after_call.elims split: if_splits simp: store_event_simps dest!: Reserve_False)
  ultimately show ?thesis
    using D L by (simp add: running_ok_def)
qed

lemma running_ok_store_acts:
  assumes ok: "running_ok opts s" and "acts a e" and "a = Closing \<longrightarrow> closing s = Cleared"
    and event: "store_event e (recording s) r"
  shows "running_ok opts (s\<lparr>recording := r\<rparr>)"
proof -
  note D = running_okD [OF ok]
  have "store_ok opts r"
    using D(1) event by (rule store_ok_event)
  moreover have "reserved r = reserved (recording s) \<and> refused r = refused (recording s) \<and>
      (a = Closing \<or> phase r = phase (recording s))"
    using event assms(2) by (cases a) (auto simp: store_event_simps)
  ultimately show ?thesis
    using D assms(3) by (auto simp: running_ok_def)
qed

lemma running_ok_step:
  assumes ok: "running_ok opts s" and "running_step a s s'"
  shows "running_ok opts s'"
  using assms(2)
proof cases
  case receiver_starts
  then show ?thesis
    using running_okD [OF ok]
    by (auto simp: running_ok_def closed_in_order_def capture_at_def nth_append total_def split: if_splits)
next
  case (packet_arrives i p)
  then show ?thesis
    using running_okD [OF ok] closed_set [OF _ packet_arrives(3), of "Storing p"] total_move [OF packet_arrives(3), of posting "Storing p"]
    by (simp add: running_ok_def)
next
  case (in_store i w e v r)
  then show ?thesis using running_ok_in_store [OF ok] by simp
next
  case (store_acts e r)
  then show ?thesis using running_ok_store_acts [OF ok] by simp
next
  case begin_closing
  then show ?thesis
    using running_okD [OF ok]
    by (auto simp: running_ok_def closed_in_order_def stop_next_def)
next
  case (capture_ends i)
  then show ?thesis
    using running_okD [OF ok] total_move [OF capture_ends(4), of posting Ended]
    by (auto simp: running_ok_def closed_in_order_def capture_at_set capture_at_less)
next
  case (capture_joined i)
  then show ?thesis
    using running_okD [OF ok]
    by (auto simp: running_ok_def closed_in_order_def stop_next_def less_Suc_eq not_less_eq)
qed

definition running_init :: "RedisStoreOptions \<Rightarrow> running \<Rightarrow> bool" where
  "running_init opts s \<longleftrightarrow>
     (\<exists>ping st n. RedisPacketStore opts ping = Inr st \<and>
        s = \<lparr>recording = store_start st, captures = [], planned = n, closing = Open\<rparr>)"

lemma running_ok_init: "running_init opts s \<Longrightarrow> running_ok opts s"
proof -
  assume "running_init opts s"
  then obtain ping st n where st: "RedisPacketStore opts ping = Inr st"
    and s: "s = \<lparr>recording = store_start st, captures = [], planned = n, closing = Open\<rparr>"
    by (auto simp: running_init_def)
  have "store_ok opts (store_start st)"
    using st by (intro store_ok_init) (auto simp: store_init_def)
  then show ?thesis
    using st by (auto simp: s running_ok_def closed_in_order_def capture_at_def total_def
        store_start_def RedisPacketStore_def split: if_splits)
qed

interpretation running: invariant_system "running_init opts" service_step "running_ok opts" for opts
  by unfold_locales (auto simp: service_step_def intro: running_ok_init running_ok_step)

lemma running_reached_ok:
  assumes "RedisPacketStore opts ping = Inr st" and "service_step\<^sup>*\<^sup>* (running_start st shrew) s"
  shows "running_ok opts s"
  using assms(2) by (rule running.reached_ok [rotated]) (use assms(1) in \<open>auto simp: running_init_def running_start_def\<close>)

section \<open>The work left\<close>



definition closing_work :: "running \<Rightarrow> nat" where
  "closing_work s = (case closing s of Open \<Rightarrow> length (captures s) + 3 * planned s + 1
     | StopCapture i \<Rightarrow> length (captures s) - i | Cleared \<Rightarrow> 0)"



lemma closing_work_simps [simp]:
  "closing_work (s\<lparr>recording := r\<rparr>) = closing_work s" "closing_work (set_capture i w s) = closing_work s"
  by (simp_all add: closing_work_def split: closing.split)




section \<open>What may happen next\<close>

text \<open>The joined thread waits in \<open>Store\<close>, and all slots are held by requests without a reply.\<close>

definition hung :: "RedisStoreOptions \<Rightarrow> running \<Rightarrow> bool" where
  "hung opts s \<longleftrightarrow> (\<exists>i p. closing s = StopCapture i \<and> capture_at s i (Storing p)) \<and>
     length (sent (recording s)) = unat (max_pending_writes opts)"

lemma total_member: "capture_at s i (Posting p) \<Longrightarrow> p \<in># total posting s"
  using total_set [of s i "Posting p" posting Listening]
  by (metis add.commute add_mset_add_single add_cancel_right_right posting.simps(1,2) union_single_eq_member)

lemma call_enabled:
  "capture_at s i w \<Longrightarrow> store_event e (recording s) r \<Longrightarrow> after_call w e \<noteq> None \<Longrightarrow> \<exists>s'. running_step (Capture i) s s'"
  by (auto intro: in_store)

lemma posting_enabled:
  assumes "running_ok opts s" and "capture_at s i (Posting p)"
  shows "\<exists>s'. running_step (Capture i) s s'"
proof -
  have "p \<in> set (reserved (recording s))"
    using total_member [OF assms(2)] running_okD(3) [OF assms(1)] by (metis set_mset_mset)
  then obtain us vs where "reserved (recording s) = us @ p # vs"
    by (meson split_list)
  from call_enabled [OF assms(2) store_post [OF this]] show ?thesis
    by simp
qed

lemma storing_enabled:
  assumes "running_ok opts s" and "capture_at s i (Storing p)" and "pending_writes (store_of (recording s)) < max_pending_writes opts"
  shows "\<exists>s'. running_step (Capture i) s s'"
proof -
  have "accepting_writes (store_of (recording s))" and "options (store_of (recording s)) = opts"
    using alive_serving [OF assms(1,2)] running_okD(1) [OF assms(1)] by (auto simp: store_ok_def)
  then obtain st where "ReservePendingWriteSlot (store_of (recording s)) = Some (True, st)"
    using assms(3) by (simp add: ReservePendingWriteSlot_def)
  from call_enabled [OF assms(2) store_reserve [OF this, of p]] show ?thesis
    by simp
qed

lemma total_posting_none: "total posting s = {#} \<longleftrightarrow> (\<forall>w \<in> set (captures s). posting w = {#})"
proof -
  have "sum_list (map posting ws) = {#} \<longleftrightarrow> (\<forall>w \<in> set ws. posting w = {#})" for ws
    by (induction ws) auto
  then show ?thesis by (simp add: total_def)
qed

lemma reserved_enabled:
  assumes ok: "running_ok opts s" and "reserved (recording s) \<noteq> []"
  shows "\<exists>i s'. running_step (Capture i) s s'"
proof -
  have "total posting s \<noteq> {#}"
    using running_okD(3) [OF ok] assms(2) by (metis mset_zero_iff)
  then obtain w where "w \<in> set (captures s)" and "posting w \<noteq> {#}"
    by (auto simp: total_posting_none)
  then obtain i where "capture_at s i w"
    by (auto simp: capture_at_def in_set_conv_nth)
  moreover obtain p where "w = Posting p"
    using \<open>posting w \<noteq> {#}\<close> by (cases w) auto
  ultimately have "capture_at s i (Posting p)"
    by simp
  then show ?thesis
    using posting_enabled [OF ok] by blast
qed

lemma posted_enabled:
  assumes "posted (recording s) \<noteq> []" and "phase (recording s) \<noteq> Stopped"
  shows "\<exists>s'. running_step IoThread s s'"
proof -
  obtain p ps where "posted (recording s) = p # ps"
    using assms(1) by (cases "posted (recording s)") auto
  then show ?thesis
    using store_acts [OF _ _ handler_exec, of IoThread s p ps] assms(2) by auto
qed


lemma destructor_enabled:
  assumes "closing s = Cleared" and "phase (recording s) \<noteq> Stopped"
  shows "\<exists>s'. running_step Closing s s'"
proof -
  have "\<exists>e r. acts Closing e \<and> store_event e (recording s) r"
    using assms(2) stop_accepting [of "recording s"] wait_done [of "recording s"] wait_timeout [of "recording s"]
      stop_io [of "recording s"] by (cases "phase (recording s)") (auto simp del: not_None_eq)
  then show ?thesis
    using store_acts [of Closing _ s] assms(1) by blast
qed

lemma all_free: "running_ok opts s \<Longrightarrow> reserved (recording s) = [] \<Longrightarrow> posted (recording s) = [] \<Longrightarrow>
    length (sent (recording s)) < unat (max_pending_writes opts) \<Longrightarrow>
    pending_writes (store_of (recording s)) < max_pending_writes opts"
  using running_okD(1) [of opts s] by (auto simp: store_ok_def word_less_nat_alt)

lemma program_stepI: "running_step a s s' \<Longrightarrow> a \<noteq> Arrival \<Longrightarrow> a \<noteq> Redis \<Longrightarrow> \<exists>s'. program_step s s'"
  by (auto simp: program_step_def)

text \<open>Once the destructor has begun, the program can go on until the store is stopped, or it hangs.\<close>

lemma program_goes_on:
  assumes ok: "running_ok opts s" and "closing s \<noteq> Open" and "phase (recording s) \<noteq> Stopped" and "\<not> hung opts s"
  shows "\<exists>s'. program_step s s'"
proof (cases "closing s")
  case (StopCapture i)
  then have "i < length (captures s)"
    using running_okD(6) [OF ok] by (simp add: closed_in_order_def)
  then obtain w where w: "capture_at s i w"
    by (simp add: capture_at_def)
  show ?thesis
  proof (cases w)
    case Listening
    with w show ?thesis using program_stepI [OF capture_ends [OF StopCapture]] by simp
  next
    case (Posting p)
    with w show ?thesis using posting_enabled [OF ok] program_stepI by blast
  next
    case Ended
    with w show ?thesis using program_stepI [OF capture_joined [OF StopCapture]] by simp
  next
    case (Storing p)
    show ?thesis
    proof (cases "reserved (recording s) = [] \<and> posted (recording s) = []")
      case True
      then have "length (sent (recording s)) < unat (max_pending_writes opts)"
        using assms(4) w Storing StopCapture running_okD(1) [OF ok] by (auto simp: hung_def store_ok_def)
      then show ?thesis
        using storing_enabled [OF ok] all_free [OF ok] True w Storing program_stepI by blast
    next
      case False
      then show ?thesis
        using reserved_enabled [OF ok] posted_enabled [OF _ assms(3)] program_stepI by blast
    qed
  qed
next
  case Cleared
  then show ?thesis using destructor_enabled [OF _ assms(3)] program_stepI by blast
qed (use assms(2) in simp)

text \<open>A hung service stays hung unless Redis answers.\<close>

lemma hung_full:
  assumes ok: "running_ok opts s" and "hung opts s"
  shows "reserved (recording s) = []" and "posted (recording s) = []"
    and "ReservePendingWriteSlot (store_of (recording s)) = None"
proof -
  obtain i p where i: "capture_at s i (Storing p)" and n: "length (sent (recording s)) = unat (max_pending_writes opts)"
    using assms(2) by (auto simp: hung_def)
  note A = alive_serving [OF ok i]
  have "store_ok opts (recording s)"
    using ok by (rule running_okD)
  then show "reserved (recording s) = []" and "posted (recording s) = []"
    and "ReservePendingWriteSlot (store_of (recording s)) = None"
    using n A by (auto simp: store_ok_def ReservePendingWriteSlot_def word_less_nat_alt)
qed

lemma hung_step:
  assumes ok: "running_ok opts s" and hung: "hung opts s" and "running_step a s s'" and "a \<noteq> Redis"
  shows "a = Arrival \<and> hung opts s' \<and> closing s' = closing s"
proof -
  obtain i p where i: "closing s = StopCapture i" "capture_at s i (Storing p)"
    using hung by (auto simp: hung_def)
  note F = hung_full [OF ok hung]
  from assms(3) show ?thesis
  proof cases
    case (packet_arrives j q)
    then have "j \<noteq> i" using i(2) by (auto dest: capture_at_unique)
    then have "capture_at s' i (Storing p)"
      using packet_arrives i(2) by (simp add: capture_at_set capture_at_less)
    then show ?thesis
      using packet_arrives(1,2) i(1) hung by (auto simp: hung_def)
  next
    case (in_store j w e v r)
    then show ?thesis
      using F by (auto elim!: after_call.elims split: if_splits simp: store_event_simps)
  next
    case (store_acts e r)
    then show ?thesis
      using F i(1) assms(4) by (cases a) (auto simp: store_event_simps)
  qed (use i in \<open>auto dest: capture_at_unique\<close>)
qed

lemma hung_stays:
  assumes "unanswered_step\<^sup>*\<^sup>* s s'" and "running_ok opts s" and "hung opts s"
  shows "running_ok opts s' \<and> hung opts s' \<and> closing s' = closing s"
  using assms(1)
proof (induction rule: rtranclp_induct)
  case (step u v)
  then obtain a where "a \<noteq> Redis" and "running_step a u v"
    by (auto simp: unanswered_step_def)
  then show ?case
    using step.IH hung_step running_ok_step by metis
qed (use assms(2,3) in simp)

lemma stopped_ended:
  assumes "running_ok opts s" and "phase (recording s) \<noteq> Serving"
  shows "set (captures s) \<subseteq> {Ended} \<and> reserved (recording s) = []"
proof -
  note D = running_okD [OF assms(1)]
  have ended: "set (captures s) \<subseteq> {Ended}"
    using cleared_ended [OF D(6) D(5) [OF assms(2)]] by (auto simp: capture_at_def in_set_conv_nth)
  then have "total posting s = {#}"
    by (auto simp: total_posting_none)
  with ended D(3) show ?thesis by simp
qed

section \<open>Properties\<close>

text \<open>
  C33: Recording is never cut short. In every state the service can reach, the store has
  refused no packet, and its destructor has begun only if every capture thread has ended
  and no caller is left inside \<open>Store\<close>.
\<close>

theorem recording_outlives_capture:
  assumes "RedisPacketStore opts ping = Inr st" and "service_step\<^sup>*\<^sup>* (running_start st shrew) s"
  shows "refused (recording s) = [] \<and>
    (phase (recording s) = Serving \<or> set (captures s) \<subseteq> {Ended} \<and> reserved (recording s) = [])"
  using stopped_ended [OF running_reached_ok [OF assms]] running_okD(4) [OF running_reached_ok [OF assms]] by blast


text \<open>
  C35: What stops a shutdown. Once the destructor has begun and until the store is stopped,
  the program can make a step of its own unless the capture thread it is joining waits
  inside \<open>Store\<close> and every slot is held by a request that Redis has not answered.
\<close>

theorem shutdown_blocked_iff:
  assumes "RedisPacketStore opts ping = Inr st" and "service_step\<^sup>*\<^sup>* (running_start st shrew) s"
    and "closing s \<noteq> Open" and "phase (recording s) \<noteq> Stopped"
  shows "(\<nexists>s'. program_step s s') \<longleftrightarrow> hung opts s"
proof
  assume "\<nexists>s'. program_step s s'"
  then show "hung opts s"
    using program_goes_on [OF running_reached_ok [OF assms(1,2)] assms(3,4)] by blast
next
  assume "hung opts s"
  then show "\<nexists>s'. program_step s s'"
    using hung_step [OF running_reached_ok [OF assms(1,2)]] by (auto simp: program_step_def)
qed

section \<open>A shutdown that hangs\<close>

text \<open>The first thread stores packets one after the other; no reply comes.\<close>

lemma service_stepI: "running_step a s s' \<Longrightarrow> service_step s s'"
  by (auto simp: service_step_def)

lemma store_one:
  assumes "running_ok opts s" and i: "capture_at s 0 Listening" and "posted (recording s) = []"
    and "pending_writes (store_of (recording s)) < max_pending_writes opts"
  obtains s' where "service_step\<^sup>*\<^sup>* s s'" and "capture_at s' 0 Listening" and "closing s' = closing s"
    and "posted (recording s') = []" and "length (sent (recording s')) = Suc (length (sent (recording s)))"
    and "reserved (recording s') = reserved (recording s)"
proof -
  let ?r = "recording s" and ?p = "undefined :: PacketInfo"
  have serving: "phase ?r = Serving" "accepting_writes (store_of ?r)"
    using alive_serving [OF assms(1) i] by simp_all
  obtain st where st: "ReservePendingWriteSlot (store_of ?r) = Some (True, st)"
    using serving(2) assms(4) running_okD(1) [OF assms(1)] by (auto simp: ReservePendingWriteSlot_def store_ok_def)
  define r1 where "r1 = ?r\<lparr>store_of := st, reserved := reserved ?r @ [?p], taken_in := taken_in ?r @ [?p]\<rparr>"
  define r2 where "r2 = r1\<lparr>reserved := reserved ?r, posted := [?p]\<rparr>"
  define r3 where "r3 = r2\<lparr>posted := [], sent := sent r2 @ [?p], handed := handed r2 @ [?p],
      requests := requests r2 @ [xadd_request (stream_key (options (store_of r2))) ?p]\<rparr>"
  define s1 where "s1 = set_capture 0 (Storing ?p) s"
  define s2 where "s2 = (set_capture 0 (Posting ?p) s1)\<lparr>recording := r1\<rparr>"
  define s3 where "s3 = (set_capture 0 Listening s2)\<lparr>recording := r2\<rparr>"
  have n: "0 < length (captures s)"
    using i by (rule capture_at_less)
  have "service_step s s1"
    unfolding s1_def by (rule service_stepI [OF packet_arrives [OF i]])
  moreover have "service_step s1 s2"
    unfolding s2_def
    by (rule service_stepI [OF in_store [where w = "Storing ?p" and e = "Reserve ?p"]])
      (use n store_reserve [OF st, of ?p] in \<open>simp_all add: s1_def capture_at_set r1_def\<close>)
  moreover have "service_step s2 s3"
    unfolding s3_def
    by (rule service_stepI [OF in_store [where w = "Posting ?p" and e = "PostHandler ?p"]])
      (use n store_post [of r1 "reserved ?r" ?p "[]"] assms(3) in \<open>simp_all add: s2_def s1_def capture_at_set r2_def r1_def\<close>)
  moreover have "service_step s3 (s3\<lparr>recording := r3\<rparr>)"
    by (rule service_stepI [OF store_acts [of IoThread HandlerExec]])
      (use handler_exec [of r2 ?p "[]"] serving(1) in \<open>simp_all add: s3_def r3_def r2_def r1_def\<close>)
  ultimately have "service_step\<^sup>*\<^sup>* s (s3\<lparr>recording := r3\<rparr>)"
    by (meson rtranclp.rtrancl_refl rtranclp.rtrancl_into_rtrancl)
  then show ?thesis
    by (rule that) (use n in \<open>simp_all add: s3_def s2_def s1_def capture_at_set r3_def r2_def r1_def\<close>)
qed

lemma slots_fill:
  assumes st: "RedisPacketStore opts ping = Inr st" and "receivers shrew \<noteq> []"
  shows "k \<le> unat (max_pending_writes opts) \<Longrightarrow>
    \<exists>s. service_step\<^sup>*\<^sup>* (running_start st shrew) s \<and> capture_at s 0 Listening \<and> closing s = Open \<and>
      posted (recording s) = [] \<and> reserved (recording s) = [] \<and> length (sent (recording s)) = k"
proof (induction k)
  case 0
  let ?s = "running_start st shrew"
  let ?t = "?s\<lparr>captures := [Listening], planned := planned ?s - 1\<rparr>"
  have "service_step ?s ?t"
    using receiver_starts [of ?s] assms(2) by (auto simp: service_step_def running_start_def)
  then show ?case
    by (intro exI [of _ ?t]) (auto simp: running_start_def capture_at_def store_start_def)
next
  case (Suc k)
  then obtain s where s: "service_step\<^sup>*\<^sup>* (running_start st shrew) s" "capture_at s 0 Listening" "closing s = Open"
      "posted (recording s) = []" "reserved (recording s) = []" "length (sent (recording s)) = k"
    by auto
  note ok = running_reached_ok [OF st s(1)]
  have "pending_writes (store_of (recording s)) < max_pending_writes opts"
    using all_free [OF ok s(5,4)] s(6) Suc.prems by simp
  then obtain s' where "service_step\<^sup>*\<^sup>* s s'" "capture_at s' 0 Listening" "closing s' = closing s"
      "posted (recording s') = []" "length (sent (recording s')) = Suc (length (sent (recording s)))"
      "reserved (recording s') = reserved (recording s)"
    by (rule store_one [OF ok s(2,4)])
  then show ?case
    using rtranclp_trans [OF s(1)] s(3,5,6) by (intro exI [of _ s']) simp
qed

text \<open>
  C36: A shutdown can hang. Whatever the configuration of the store and the receivers, the
  service can reach a state in which its destructor waits for the first capture thread,
  and from which, as long as Redis does not answer, nothing but further packets happens:
  the destructor waits for that thread for ever, and the store's destructor with its
  bounded wait for the pending writes never begins.
\<close>

theorem shutdown_may_hang:
  assumes "RedisPacketStore opts ping = Inr st" and "receivers shrew \<noteq> []"
  shows "\<exists>s. service_step\<^sup>*\<^sup>* (running_start st shrew) s \<and> closing s = StopCapture 0 \<and>
    (\<nexists>s'. unanswered_step\<^sup>*\<^sup>* s s' \<and> (closing s' \<noteq> StopCapture 0 \<or> phase (recording s') \<noteq> Serving \<or>
       (\<exists>u. program_step s' u)))"
proof -
  obtain s where s: "service_step\<^sup>*\<^sup>* (running_start st shrew) s" "capture_at s 0 Listening" "closing s = Open"
      "length (sent (recording s)) = unat (max_pending_writes opts)"
    using slots_fill [OF assms order_refl] by blast
  define s1 where "s1 = set_capture 0 (Storing undefined) s"
  define s2 where "s2 = s1\<lparr>closing := StopCapture 0\<rparr>"
  have n: "0 < length (captures s)"
    using s(2) by (rule capture_at_less)
  have "service_step s s1"
    unfolding s1_def by (rule service_stepI [OF packet_arrives [OF s(2)]])
  moreover have "service_step s1 s2"
    using begin_closing [of s1] s(3) n by (simp add: s1_def s2_def stop_next_def service_stepI)
  ultimately have reach: "service_step\<^sup>*\<^sup>* (running_start st shrew) s2"
    using s(1) by (meson rtranclp.rtrancl_into_rtrancl)
  have hung: "hung opts s2"
    using s(4) n by (simp add: hung_def s2_def s1_def capture_at_set)
  show ?thesis
  proof (intro exI [of _ s2] conjI notI)
    assume "\<exists>s'. unanswered_step\<^sup>*\<^sup>* s2 s' \<and> (closing s' \<noteq> StopCapture 0 \<or> phase (recording s') \<noteq> Serving \<or>
       (\<exists>u. program_step s' u))"
    then obtain s' where run: "unanswered_step\<^sup>*\<^sup>* s2 s'"
      and bad: "closing s' \<noteq> StopCapture 0 \<or> phase (recording s') \<noteq> Serving \<or> (\<exists>u. program_step s' u)"
      by blast
    have ok: "running_ok opts s'" and hung': "hung opts s'" and closing: "closing s' = StopCapture 0"
      using hung_stays [OF run running_reached_ok [OF assms(1) reach] hung] by (simp_all add: s2_def)
    then have "phase (recording s') = Serving"
      using running_okD(5) [OF ok] by auto
    then show False
      using bad closing hung_step [OF ok hung'] by (auto simp: program_step_def)
  qed (use reach in \<open>simp_all add: s2_def\<close>)
qed

section \<open>One interface\<close>

definition demo_shrew :: "unit shrew" where
  "demo_shrew = \<lparr>receivers = [PcapReceiver True (Some ''eth0'') None True False], opened_devices = [''eth0''], device_state = ()\<rparr>"

definition demo_service :: running where
  "demo_service = (running_start demo_store demo_shrew)\<lparr>captures := [Listening], planned := 0\<rparr>"

definition demo_closing :: running where
  "demo_closing = demo_service\<lparr>closing := StopCapture 0\<rparr>"

lemma demo_closing_reached: "service_step\<^sup>*\<^sup>* (running_start demo_store demo_shrew) demo_closing"
proof -
  have "service_step (running_start demo_store demo_shrew) demo_service"
    using service_stepI [OF receiver_starts [of "running_start demo_store demo_shrew"]]
    by (simp add: demo_service_def running_start_def demo_shrew_def)
  moreover have "service_step demo_service demo_closing"
    using service_stepI [OF begin_closing [of demo_service]]
    by (simp add: demo_closing_def demo_service_def running_start_def stop_next_def)
  ultimately show ?thesis
    by (meson rtranclp.rtrancl_refl rtranclp.rtrancl_into_rtrancl)
qed

theorem recording_outlives_capture_witness: "refused (recording demo_closing) = []"
  using recording_outlives_capture [OF demo_store_new demo_closing_reached] by simp


theorem shutdown_blocked_iff_witness: "\<exists>s'. program_step demo_closing s'"
proof -
  have "closing demo_closing \<noteq> Open" and "phase (recording demo_closing) \<noteq> Stopped" and "\<not> hung (redis default_config) demo_closing"
    by (simp_all add: demo_closing_def demo_service_def running_start_def store_start_def hung_def capture_at_def)
  then show ?thesis
    using shutdown_blocked_iff [OF demo_store_new demo_closing_reached] by blast
qed

theorem shutdown_may_hang_witness:
  "\<exists>s. service_step\<^sup>*\<^sup>* (running_start demo_store demo_shrew) s \<and> closing s = StopCapture 0 \<and> (\<nexists>u. program_step s u)"
  using shutdown_may_hang [OF demo_store_new, of demo_shrew]
  by (metis demo_shrew_def list.distinct(1) rtranclp.rtrancl_refl shrew.select_convs(1))

end
