(* ===== verification/Recording_Pipeline.thy ===== *)
theory Recording_Pipeline
  imports Capture_Shutdown "HOL-Library.Sublist"
begin

text \<open>
  From the wire to Redis: the recording service of \<^theory_text>\<open>Capture_Shutdown\<close> with its capture
  threads running the callback of \<open>src/PcapReceiver.cpp\<close> for the packets that arrive, each
  thread for its own receiver. The state remembers which packets were delivered to which
  thread. The lemmas show that every run of this system is a run of \<^const>\<open>service_step\<close>, and
  that per device the requests follow the capture, in order.
\<close>

section \<open>One capture per device\<close>

text \<open>Documented behaviour of PcapPlusPlus: \<open>startCapture\<close> fails while a capture is running.\<close>

definition starts_once :: "'k pcap_api \<Rightarrow> ('k \<Rightarrow> string \<Rightarrow> bool) \<Rightarrow> bool" where
  "starts_once api cap \<longleftrightarrow> (\<forall>d k. fst (startCapture api d k) \<longrightarrow> \<not> cap k d)"

text \<open>No two receivers capture on the same device.\<close>

definition lone :: "('k \<Rightarrow> string \<Rightarrow> bool) \<Rightarrow> 'k shrew \<Rightarrow> bool" where
  "lone cap s \<longleftrightarrow> distinct (map rc_device (receivers s)) \<and>
     (\<forall>r \<in> set (receivers s). \<exists>d. rc_device r = Some d \<and> cap (device_state s) d)"

lemma keeps_open_lone [keep_rules]: "pcap_api_ok api cap \<Longrightarrow> keeps (lone cap) (OpenDevice api d dir)"
proof (unfold keeps_def, intro allI impI)
  fix s
  assume ok: "pcap_api_ok api cap" and s: "lone cap s"
  obtain res s' where run: "OpenDevice api d dir s = (res, s')" by fastforce
  then show "lone cap (snd (OpenDevice api d dir s))"
    using s OpenDevice_result(1,3) [OF ok run] by (simp add: lone_def)
qed

lemma keeps_track_lone [keep_rules]: "keeps (lone cap) (TrackOpenedDevice d)"
  by (simp add: keeps_def TrackOpenedDevice_def modifyA_def lone_def)

lemma keeps_start_lone [keep_rules]:
  assumes "pcap_api_ok api cap" and "starts_once api cap"
  shows "keeps (lone cap) (start_receiver api r)"
proof (unfold keeps_def, intro allI impI)
  fix s
  assume s: "lone cap s"
  let ?k = "device_state s"
  let ?rcv = "Receive (\<lambda>d. isOpened api d ?k) (\<lambda>d. fst (startCapture api d ?k)) r"
  note A = pcap_api_okD(6) [OF assms(1)]
  show "lone cap (snd (start_receiver api r s))"
  proof (cases ?rcv)
    case (Inr r')
    then obtain d where d: "rc_device r = Some d" "fst (startCapture api d ?k)" "r' = r\<lparr>rc_capturing := True\<rparr>"
      by (auto simp: Receive_Inr)
    then have "\<not> cap ?k d"
      using assms(2) by (simp add: starts_once_def)
    then show ?thesis
      using s d Inr by (auto simp: start_receiver_def lone_def A)
  next
    case (Inl e)
    then show ?thesis
      using s by (cases e) (auto simp: start_receiver_def lone_def A)
  qed
qed

lemma Init_distinct:
  assumes "pcap_api_ok api cap" and "starts_once api cap" and "Init api ping c s = (Inr u, s')"
  shows "distinct (map rc_device (receivers s'))"
    and "r \<in> set (receivers s') \<Longrightarrow> \<exists>d. rc_device r = Some d"
proof -
  let ?rest = "bindA (make_store ping c) (\<lambda>_. if enabled (routing c) then init_routing api c
    else if ifaces (capture c) = [] then init_capture api c [] else forA (init_capture api c) (ifaces (capture c)))"
  have "lone cap (destroy api s)"
    by (simp add: lone_def)
  moreover have "keeps (lone cap) ?rest"
    unfolding init_routing_def init_capture_def
    by (intro keep_rules keeps_make_store assms(1,2))
  ultimately have "lone cap (snd (Init api ping c s))"
    by (simp add: Init_def bindA_def [of "modifyA _"] modifyA_def keeps_def destroy_def)
  then show "distinct (map rc_device (receivers s'))"
    and "r \<in> set (receivers s') \<Longrightarrow> \<exists>d. rc_device r = Some d"
    using assms(3) by (auto simp: lone_def)
qed

section \<open>Packets that arrive\<close>

text \<open>The service, and the packets delivered to the callbacks so far, with the thread each came to.\<close>

record traffic =
  running_of :: running
  heard :: "(nat \<times> captured) list"

definition traffic_start :: "store \<Rightarrow> 'k shrew \<Rightarrow> traffic" where
  "traffic_start st s = \<lparr>running_of = running_start st s, heard = []\<rparr>"

definition hear :: "nat \<Rightarrow> captured \<Rightarrow> traffic \<Rightarrow> traffic" where
  "hear i p t = t\<lparr>heard := heard t @ [(i, p)]\<rparr>"

text \<open>
  \<open>onPacketArrives\<close> on thread \<open>i\<close>: if the packet is to be recorded the thread enters \<open>Store\<close>,
  otherwise it listens again. All other steps are those of the service.
\<close>

inductive traffic_step :: "receiver list \<Rightarrow> traffic \<Rightarrow> traffic \<Rightarrow> bool" for rs where
  to_store: "capture_at (running_of t) i Listening \<Longrightarrow> onPacketArrives send (rs ! i) parsed raw = Some es \<Longrightarrow>
    stores es = [info] \<Longrightarrow>
    traffic_step rs t (hear i (send, parsed, raw) (t\<lparr>running_of := set_capture i (Storing info) (running_of t)\<rparr>))"
| not_to_store: "capture_at (running_of t) i Listening \<Longrightarrow> onPacketArrives send (rs ! i) parsed raw = Some es \<Longrightarrow>
    stores es = [] \<Longrightarrow> traffic_step rs t (hear i (send, parsed, raw) t)"
| other_step: "a \<noteq> Arrival \<Longrightarrow> running_step a (running_of t) s \<Longrightarrow> traffic_step rs t (t\<lparr>running_of := s\<rparr>)"

text \<open>The packets that came to a thread, in order.\<close>

definition heard_by :: "nat \<Rightarrow> traffic \<Rightarrow> captured list" where
  "heard_by i t = map snd (filter (\<lambda>(j, p). j = i) (heard t))"

lemma hear_simps [simp]:
  "running_of (hear i p t) = running_of t" "heard_by j (hear i p t) = heard_by j t @ (if i = j then [p] else [])"
  "heard_by j (t\<lparr>running_of := s\<rparr>) = heard_by j t"
  by (simp_all add: hear_def heard_by_def)

text \<open>The system refines the service: an arrival that is not recorded is invisible to it.\<close>

lemma traffic_refines_service: "traffic_step rs t t' \<Longrightarrow> service_step\<^sup>=\<^sup>= (running_of t) (running_of t')"
  by (erule traffic_step.cases) (auto simp: service_step_def intro: packet_arrives)

section \<open>The order of a device's packets\<close>

text \<open>Receivers that record: devices known and different, recording on, with a store.\<close>

definition recorders :: "receiver list \<Rightarrow> bool" where
  "recorders rs \<longleftrightarrow> distinct (map rc_device rs) \<and>
     (\<forall>r \<in> set rs. rc_device r \<noteq> None \<and> rc_record_packets r \<and> rc_store r)"

text \<open>The packet a thread carries, the packets of a device, and the records a thread has made.\<close>

fun in_hand :: "capture_thread \<Rightarrow> PacketInfo list" where
  "in_hand (Storing p) = [p]"
| "in_hand (Posting p) = [p]"
| "in_hand _ = []"

definition from_device :: "string option \<Rightarrow> PacketInfo list \<Rightarrow> PacketInfo list" where
  "from_device d = filter (\<lambda>p. Some (pi_iface p) = d)"

definition recorded_by :: "receiver list \<Rightarrow> nat \<Rightarrow> traffic \<Rightarrow> PacketInfo list" where
  "recorded_by rs i t = map (record_of_packet (the (rc_device (rs ! i)))) (filter (passes (rc_route (rs ! i))) (heard_by i t))"

text \<open>A thread that is not started carries nothing.\<close>

definition carried :: "running \<Rightarrow> nat \<Rightarrow> PacketInfo list" where
  "carried s i = (if i < length (captures s) then in_hand (captures s ! i) else [])"

text \<open>
  Of the records a thread made, those that were handed to the connection, those posted and
  the one in its hands are a subsequence, and all of them when nothing failed.
\<close>

definition under_way :: "receiver list \<Rightarrow> nat \<Rightarrow> running \<Rightarrow> PacketInfo list" where
  "under_way rs i s = from_device (rc_device (rs ! i)) (handed (recording s) @ posted (recording s)) @ carried s i"

definition thread_ok :: "receiver list \<Rightarrow> nat \<Rightarrow> traffic \<Rightarrow> bool" where
  "thread_ok rs i t \<longleftrightarrow>
     (\<forall>p \<in> set (carried (running_of t) i). Some (pi_iface p) = rc_device (rs ! i)) \<and>
     subseq (under_way rs i (running_of t)) (recorded_by rs i t) \<and>
     (failed (recording (running_of t)) = [] \<longrightarrow> under_way rs i (running_of t) = recorded_by rs i t)"

text \<open>The packets the connection was given and those posted come from the capturing devices.\<close>

definition from_receivers :: "receiver list \<Rightarrow> running \<Rightarrow> bool" where
  "from_receivers rs s \<longleftrightarrow> (\<forall>p \<in> set (handed (recording s) @ posted (recording s)). Some (pi_iface p) \<in> rc_device ` set rs)"

definition traffic_ok :: "RedisStoreOptions \<Rightarrow> receiver list \<Rightarrow> traffic \<Rightarrow> bool" where
  "traffic_ok opts rs t \<longleftrightarrow> recorders rs \<and> running_ok opts (running_of t) \<and> length (captures (running_of t)) + planned (running_of t) = length rs \<and>
     from_receivers rs (running_of t) \<and>
     (\<forall>i < length rs. thread_ok rs i t)"

lemma from_device_simps [simp]:
  "from_device d [] = []" "from_device d (ps @ qs) = from_device d ps @ from_device d qs"
  "from_device d (p # ps) = (if Some (pi_iface p) = d then p # from_device d ps else from_device d ps)"
  by (simp_all add: from_device_def)

lemma recorders_same:
  assumes "recorders rs" and "i < length rs" and "j < length rs" and "rc_device (rs ! i) = rc_device (rs ! j)"
  shows "i = j"
  using assms by (auto simp: recorders_def distinct_conv_nth)

lemma arrival_stores:
  assumes "recorders rs" and "i < length rs" and "onPacketArrives send (rs ! i) parsed raw = Some es"
  shows "stores es = map (record_of_packet (the (rc_device (rs ! i)))) (filter (passes (rc_route (rs ! i))) [(send, parsed, raw)])"
proof -
  have "rs ! i \<in> set rs"
    using assms(2) by simp
  then obtain d where "rc_device (rs ! i) = Some d" "rc_record_packets (rs ! i)" "rc_store (rs ! i)"
    using assms(1) by (auto simp: recorders_def)
  then show ?thesis
    using assms(3) by (auto simp: onPacketArrives_def processPacket_def passes_def record_of_packet_def split: option.splits if_splits)
qed

text \<open>A step that moves no record of the thread keeps \<^const>\<open>thread_ok\<close>; so does one that loses a record in a failure.\<close>

lemma thread_ok_same:
  assumes "thread_ok rs i t" and "carried s i = carried (running_of t) i"
    and "under_way rs i s = under_way rs i (running_of t)"
    and "failed (recording s) = [] \<longrightarrow> failed (recording (running_of t)) = []"
  shows "thread_ok rs i (t\<lparr>running_of := s\<rparr>)"
  using assms by (simp add: thread_ok_def recorded_by_def)

lemma thread_ok_moved:
  assumes "thread_ok rs i t" and "\<forall>p \<in> set (carried s i). Some (pi_iface p) = rc_device (rs ! i)"
    and "subseq (under_way rs i s) (under_way rs i (running_of t))"
    and "failed (recording s) = [] \<longrightarrow> failed (recording (running_of t)) = [] \<and> under_way rs i s = under_way rs i (running_of t)"
  shows "thread_ok rs i (t\<lparr>running_of := s\<rparr>)"
proof -
  have "recorded_by rs i (t\<lparr>running_of := s\<rparr>) = recorded_by rs i t"
    by (simp add: recorded_by_def)
  moreover have "subseq (under_way rs i s) (recorded_by rs i t)"
    using assms(3) by (rule subseq_order.order_trans) (use assms(1) in \<open>simp add: thread_ok_def\<close>)
  ultimately show ?thesis
    using assms(1,2,4) by (simp add: thread_ok_def)
qed

text \<open>An arrival adds the same record to both sides.\<close>

lemma thread_ok_arrival:
  assumes ok: "thread_ok rs i t" and idle: "carried (running_of t) i = []"
    and hand: "carried s i = map (record_of_packet d) (filter (passes (rc_route (rs ! i))) [p])"
    and dev: "rc_device (rs ! i) = Some d" and same: "recording s = recording (running_of t)"
    and "\<forall>q \<in> set (carried s i). pi_iface q = d"
  shows "thread_ok rs i (hear i p (t\<lparr>running_of := s\<rparr>))"
proof -
  have "under_way rs i s = under_way rs i (running_of t) @ carried s i"
    by (simp add: under_way_def same idle)
  moreover have "recorded_by rs i (hear i p (t\<lparr>running_of := s\<rparr>)) = recorded_by rs i t @ carried s i"
    unfolding hand by (simp add: recorded_by_def dev)
  ultimately show ?thesis
    using ok assms(6) by (simp add: thread_ok_def dev same)
qed

section \<open>Every step keeps the order\<close>

text \<open>What a step of a capture thread inside \<open>Store\<close> does to the packets of a device.\<close>

lemma in_store_moves:
  assumes "after_call w e = Some v" and "store_event e r r'" and "accepting_writes (store_of r)"
  obtains (stays) p where "w = Storing p" and "v = Posting p" and "handed r' = handed r" and "posted r' = posted r" and "failed r' = failed r"
  | (posts) p where "w = Posting p" and "v = Listening" and "handed r' = handed r" and "posted r' = posted r @ [p]" and "failed r' = failed r"
  | (loses) p where "w = Posting p" and "v = Listening" and "handed r' = handed r" and "posted r' = posted r" and "failed r' = failed r @ [p]"
  using assms by (auto elim!: after_call.elims split: if_splits simp: store_event_simps dest: Reserve_False)

text \<open>What a step of the I/O thread, of Redis or of the store's destructor does.\<close>

lemma store_acts_moves:
  assumes "acts a e" and "store_event e r r'"
  obtains (stays) "handed r' @ posted r' = handed r @ posted r" and "failed r' = failed r"
  | (loses) p ps where "posted r = p # ps" and "handed r' = handed r" and "posted r' = ps" and "failed r' = failed r @ [p]"
  using assms by (cases a) (auto simp: store_event_simps)

lemma carried_other: "i \<noteq> j \<Longrightarrow> carried (set_capture j w s) i = carried s i"
  by (simp add: carried_def set_capture_def)

lemma carried_this: "capture_at s i v \<Longrightarrow> carried (set_capture i w s) i = in_hand w"
  by (simp add: carried_def set_capture_def capture_at_def)

lemma carried_at: "capture_at s i w \<Longrightarrow> carried s i = in_hand w"
  by (simp add: carried_def capture_at_def)

lemma carried_recording [simp]: "carried (s\<lparr>recording := r\<rparr>) i = carried s i" "carried (s\<lparr>closing := c\<rparr>) i = carried s i"
  by (simp_all add: carried_def)

lemma carried_started [simp]: "carried (s\<lparr>captures := captures s @ [Listening], planned := n\<rparr>) i = carried s i"
  by (auto simp: carried_def nth_append not_less_eq less_Suc_eq)

lemma traffic_ok_in_store:
  assumes ok: "traffic_ok opts rs t" and at: "capture_at (running_of t) j w" and call: "after_call w e = Some v"
    and event: "store_event e (recording (running_of t)) r" and i: "i < length rs"
  shows "thread_ok rs i (t\<lparr>running_of := (set_capture j v (running_of t))\<lparr>recording := r\<rparr>\<rparr>)"
proof -
  let ?s = "running_of t" let ?s' = "(set_capture j v ?s)\<lparr>recording := r\<rparr>"
  have run: "running_ok opts ?s" and threads: "\<And>i. i < length rs \<Longrightarrow> thread_ok rs i t"
    and j: "j < length rs" and rs: "recorders rs"
    using ok at by (auto simp: traffic_ok_def dest: capture_at_less)
  have w: "carried ?s j = in_hand w"
    using at by (rule carried_at)
  have alive: "w \<noteq> Ended"
    using call by (auto elim!: after_call.elims)
  have mine: "\<forall>p \<in> set (in_hand w). Some (pi_iface p) = rc_device (rs ! j)"
    using threads [OF j] by (simp add: thread_ok_def w)
  have other: "Some (pi_iface p) \<noteq> rc_device (rs ! i)" if "p \<in> set (in_hand w)" and "i \<noteq> j" for p
    using mine that recorders_same [OF rs i j] by auto
  have hand: "carried ?s' i = (if i = j then in_hand v else carried ?s i)"
    by (cases "i = j") (simp_all add: carried_other carried_this [OF at])
  have mine': "\<forall>p \<in> set (carried ?s' i). Some (pi_iface p) = rc_device (rs ! i)" if "set (in_hand v) \<subseteq> set (in_hand w)"
    unfolding hand using that mine threads [OF i] by (auto simp: thread_ok_def)
  have ways: "under_way rs i ?s' = from_device (rc_device (rs ! i)) (handed r @ posted r) @ carried ?s' i"
    by (simp add: under_way_def)
  show ?thesis
    using call event alive_serving(2) [OF run at alive]
  proof (cases rule: in_store_moves)
    case (stays p)
    then have "carried ?s' i = carried ?s i"
      using w unfolding hand by simp
    then show ?thesis
      using stays by (intro thread_ok_same [OF threads [OF i]]) (simp_all add: ways under_way_def)
  next
    case (posts p)
    then have "under_way rs i ?s' = under_way rs i ?s"
      using w mine other unfolding ways hand by (simp add: under_way_def)
    then show ?thesis
      using posts by (intro thread_ok_moved [OF threads [OF i] mine']) simp_all
  next
    case (loses p)
    then have "subseq (under_way rs i ?s') (under_way rs i ?s)"
      using w unfolding ways hand by (simp add: under_way_def subseq_append' subseq_rev_drop_many)
    then show ?thesis
      using loses by (intro thread_ok_moved [OF threads [OF i] mine']) simp_all
  qed
qed

lemma traffic_ok_store_acts:
  assumes "thread_ok rs i t" and "acts a e" and "store_event e (recording (running_of t)) r"
  shows "thread_ok rs i (t\<lparr>running_of := running_of t\<lparr>recording := r\<rparr>\<rparr>)"
  using assms(2,3)
proof (cases rule: store_acts_moves)
  case stays
  then show ?thesis
    by (intro thread_ok_same [OF assms(1)]) (simp_all add: under_way_def del: from_device_simps(2))
next
  case (loses p ps)
  have "subseq (from_device d ps) (from_device d (p # ps))" for d
    by (simp add: list_emb_Cons)
  then have "subseq (under_way rs i (running_of t\<lparr>recording := r\<rparr>)) (under_way rs i (running_of t))"
    using loses by (simp add: under_way_def subseq_append' list_emb_append_mono del: from_device_simps(3))
  then show ?thesis
    using loses assms(1) by (intro thread_ok_moved [OF assms(1)]) (simp_all add: thread_ok_def)
qed

lemma thread_ok_step:
  assumes ok: "traffic_ok opts rs t" and "a \<noteq> Arrival" and step: "running_step a (running_of t) s" and i: "i < length rs"
  shows "thread_ok rs i (t\<lparr>running_of := s\<rparr>)"
proof -
  have me: "thread_ok rs i t"
    using ok i by (simp add: traffic_ok_def)
  from step show ?thesis
  proof cases
    case (in_store j w e v r)
    then show ?thesis using traffic_ok_in_store [OF ok _ _ _ i] by simp
  next
    case (store_acts e r)
    then show ?thesis using traffic_ok_store_acts [OF me] by simp
  next
    case (capture_ends j)
    then have "carried (set_capture j Ended (running_of t)) i = carried (running_of t) i"
      by (cases "i = j") (simp_all add: carried_other carried_this carried_at)
    then show ?thesis
      using capture_ends(2) by (intro thread_ok_same [OF me]) (simp_all add: under_way_def)
  qed (use assms(2) in \<open>auto intro!: thread_ok_same [OF me] simp: under_way_def\<close>)
qed

lemma from_receivers_step:
  assumes ok: "traffic_ok opts rs t" and "from_receivers rs (running_of t)" and step: "running_step a (running_of t) s"
  shows "from_receivers rs s"
  using step
proof cases
  case (in_store j w e v r)
  have "running_ok opts (running_of t)" and j: "j < length rs"
    using ok in_store(3) by (auto simp: traffic_ok_def dest: capture_at_less)
  moreover have "w \<noteq> Ended"
    using in_store(4) by (auto elim!: after_call.elims)
  ultimately have accepting: "accepting_writes (store_of (recording (running_of t)))"
    using alive_serving(2) in_store(3) by blast
  have known: "Some (pi_iface p) \<in> rc_device ` set rs" if "p \<in> set (in_hand w)" for p
  proof -
    have "Some (pi_iface p) = rc_device (rs ! j)"
      using ok carried_at [OF in_store(3)] j that by (auto simp: traffic_ok_def thread_ok_def)
    then show ?thesis using j by simp
  qed
  from in_store(4,5) accepting show ?thesis
    by (cases rule: in_store_moves) (use assms(2) in_store(2) known in \<open>auto simp: from_receivers_def\<close>)
next
  case (store_acts e r)
  then show ?thesis
    using assms(2) by (cases rule: store_acts_moves [OF store_acts(2,4)]) (auto simp: from_receivers_def)
qed (use assms(2) in \<open>auto simp: from_receivers_def\<close>)

lemma thread_ok_hear_other: "i \<noteq> j \<Longrightarrow> thread_ok rs i (hear j p t) = thread_ok rs i t"
  by (simp add: thread_ok_def recorded_by_def)

lemma traffic_ok_arrival:
  assumes ok: "traffic_ok opts rs t" and at: "capture_at (running_of t) j Listening"
    and effects: "onPacketArrives send (rs ! j) parsed raw = Some es"
    and s: "s = (case stores es of [info] \<Rightarrow> set_capture j (Storing info) (running_of t) | _ \<Rightarrow> running_of t)" and i: "i < length rs"
  shows "thread_ok rs i (hear j (send, parsed, raw) (t\<lparr>running_of := s\<rparr>))"
proof -
  let ?t = "running_of t" and ?p = "(send, parsed, raw)"
  have me: "thread_ok rs i t" and rs: "recorders rs" and j: "j < length rs"
    using ok at i by (auto simp: traffic_ok_def dest: capture_at_less)
  then obtain d where d: "rc_device (rs ! j) = Some d"
    using j by (metis not_None_eq nth_mem recorders_def)
  have idle: "carried ?t j = []"
    using carried_at [OF at] by simp
  have stored: "stores es = map (record_of_packet d) (filter (passes (rc_route (rs ! j))) [?p])"
    using arrival_stores [OF rs j effects] d by simp
  have same: "recording s = recording ?t"
    by (simp add: s split: list.split)
  show ?thesis
  proof (cases "i = j")
    case True
    have "carried s j = stores es"
      using idle carried_this [OF at] by (simp add: s stored)
    then show ?thesis
      unfolding True
      by (intro thread_ok_arrival [OF _ _ _ d same]) (use True me idle in \<open>auto simp: stored record_of_packet_def recorded_def packet_info_def\<close>)
  next
    case False
    then have "carried s i = carried ?t i"
      by (simp add: s carried_other split: list.split)
    then have "thread_ok rs i (t\<lparr>running_of := s\<rparr>)"
      using same by (intro thread_ok_same [OF me]) (simp_all add: under_way_def)
    then show ?thesis
      using False by (simp add: thread_ok_hear_other)
  qed
qed

lemma traffic_ok_step:
  assumes ok: "traffic_ok opts rs t" and "traffic_step rs t t'"
  shows "traffic_ok opts rs t'"
  using assms(2)
proof cases
  case (to_store i send parsed raw es info)
  have step: "running_step Arrival (running_of t) (set_capture i (Storing info) (running_of t))"
    using to_store(2) by (rule packet_arrives)
  have "thread_ok rs k t'" if "k < length rs" for k
    using traffic_ok_arrival [OF ok to_store(2,3) refl that] to_store(1,4) by simp
  then show ?thesis
    using ok running_ok_step [OF _ step] from_receivers_step [OF ok _ step] to_store(1) by (simp add: traffic_ok_def)
next
  case (not_to_store i send parsed raw es)
  have "thread_ok rs k t'" if "k < length rs" for k
    using traffic_ok_arrival [OF ok not_to_store(2,3) refl that] not_to_store(1,4) by simp
  then show ?thesis
    using ok not_to_store(1) by (simp add: traffic_ok_def)
next
  case (other_step a s)
  have "length (captures s) + planned s = length (captures (running_of t)) + planned (running_of t)"
    using other_step(3) by cases auto
  then show ?thesis
    using ok running_ok_step [OF _ other_step(3)] from_receivers_step [OF ok _ other_step(3)]
      thread_ok_step [OF ok other_step(2,3)] other_step(1) by (simp add: traffic_ok_def)
qed

definition traffic_init :: "RedisStoreOptions \<Rightarrow> receiver list \<Rightarrow> traffic \<Rightarrow> bool" where
  "traffic_init opts rs t \<longleftrightarrow> recorders rs \<and> heard t = [] \<and> running_init opts (running_of t) \<and>
     handed (recording (running_of t)) = [] \<and> posted (recording (running_of t)) = [] \<and>
     captures (running_of t) = [] \<and> planned (running_of t) = length rs"

lemma traffic_ok_init: "traffic_init opts rs t \<Longrightarrow> traffic_ok opts rs t"
  using running_ok_init [of opts "running_of t"]
  by (simp add: traffic_ok_def traffic_init_def from_receivers_def thread_ok_def under_way_def carried_def recorded_by_def heard_by_def)

interpretation traffic: invariant_system "traffic_init opts rs" "traffic_step rs" "traffic_ok opts rs" for opts rs
  by unfold_locales (auto intro: traffic_ok_init traffic_ok_step)

lemma traffic_reached_ok:
  assumes "RedisPacketStore opts ping = Inr st" and "recorders (receivers s)"
    and "(traffic_step (receivers s))\<^sup>*\<^sup>* (traffic_start st s) t"
  shows "traffic_ok opts (receivers s) t"
  using assms(3)
  by (rule traffic.reached_ok [rotated])
    (use assms(1,2) in \<open>auto simp: traffic_init_def running_init_def traffic_start_def running_start_def store_start_def\<close>)

text \<open>The receivers of a successful \<open>Init\<close> with recording on.\<close>

lemma Init_recorders:
  assumes "pcap_api_ok api cap" and "starts_once api cap" and "Init api ping c s = (Inr u, s')"
    and "record_packets (capture c)"
  shows "recorders (receivers s')"
  using Init_distinct [OF assms(1-3)] Init_Inr(1) [OF assms(3)] assms(4)
  by (auto simp: recorders_def started_def make_receiver_def PcapReceiver_def)

section \<open>Properties\<close>

text \<open>What a request says: command, stream and key, the device, the length, the bytes of the packet.\<close>

definition written :: "string list \<Rightarrow> string list \<times> string \<times> nat \<times> bytes option" where
  "written req = (take 3 req, req ! 4, decimal (req ! 12), unhex (req ! 16))"

lemma written_xadd:
  "written (xadd_request key p) = ([''XADD'', key, ''*''], pi_iface p, unat (pi_length p), unhex (pi_data_hex p))"
  by (simp add: written_def xadd_request_def decimal_to_string)

lemma requests_of_device:
  "filter (\<lambda>req. req ! 4 = d) (map (xadd_request key) ps) = map (xadd_request key) (from_device (Some d) ps)"
  by (induction ps) (simp_all add: xadd_request_def)

lemma recorded_written:
  assumes "rc_device (rs ! i) = Some d" and "\<forall>(send, parsed, raw) \<in> set (heard_by i t). length (raw_data raw) < 2 ^ 32"
  shows "map (\<lambda>p. written (xadd_request key p)) (recorded_by rs i t) =
    map (\<lambda>raw. ([''XADD'', key, ''*''], d, length (raw_data raw), Some (raw_data raw))) (passed (rc_route (rs ! i)) (heard_by i t))"
  using assms by (auto simp: recorded_by_def passed_def written_xadd record_of_packet_fields)

text \<open>
  C30: What Redis is given is what was captured, in order. From the moment an \<open>Init\<close> with
  recording on starts the first receiver, in every state that the capture threads, the store, Redis and the destructor can
  reach, whatever packets arrive, sends fail or exceptions are thrown: every request is
  about one of the capturing devices, and the requests about a device are the XADD commands
  of packets its receiver captured and its route did not refuse, with their device, length
  and exact bytes, each at most once and in the order of their capture. Without an exception
  inside the store none is skipped, and once the service has shut down without a timeout
  they are all there.
\<close>

theorem redis_stream_follows_capture:
  assumes "pcap_api_ok api cap" and "starts_once api cap"
    and "Init api ping c (shrew_new k) = (Inr u, s)" and "record_packets (capture c)"
    and "RedisPacketStore (redis c) ping = Inr st"
    and "(traffic_step (receivers s))\<^sup>*\<^sup>* (traffic_start st s) t"
    and "i < length (receivers s)" and "rc_device (receivers s ! i) = Some d"
    and "\<forall>(send, parsed, raw) \<in> set (heard_by i t). length (raw_data raw) < 2 ^ 32"
  defines "r \<equiv> recording (running_of t)"
  defines "stream \<equiv> map written (filter (\<lambda>req. req ! 4 = d) (requests r))"
  defines "captured \<equiv> map (\<lambda>raw. ([''XADD'', stream_key (redis c), ''*''], d, length (raw_data raw), Some (raw_data raw)))
    (passed (rc_route (receivers s ! i)) (heard_by i t))"
  shows "(\<forall>req \<in> set (requests r). Some (req ! 4) \<in> rc_device ` set (receivers s)) \<and>
    subseq stream captured \<and>
    (failed r = [] \<longrightarrow> prefix stream captured \<and> (phase r = Stopped \<and> \<not> timed_out r \<longrightarrow> stream = captured))"
proof -
  let ?key = "stream_key (redis c)" and ?mine = "from_device (Some d) (handed r)"
  have ok: "traffic_ok (redis c) (receivers s) t"
    using assms(5) Init_recorders [OF assms(1-4)] assms(6) by (rule traffic_reached_ok)
  have run: "running_ok (redis c) (running_of t)" and known: "from_receivers (receivers s) (running_of t)" and me: "thread_ok (receivers s) i t"
    using ok assms(7) by (auto simp: traffic_ok_def)
  have requests: "requests r = map (xadd_request ?key) (handed r)" and left: "phase r = Stopped \<and> \<not> timed_out r \<longrightarrow> posted r = []"
    using running_okD(1) [OF run] by (auto simp: r_def store_ok_def)
  have stream: "stream = map (\<lambda>p. written (xadd_request ?key p)) ?mine"
    by (simp add: stream_def requests requests_of_device)
  have captured: "captured = map (\<lambda>p. written (xadd_request ?key p)) (recorded_by (receivers s) i t)"
    unfolding captured_def using recorded_written [OF assms(8,9)] by simp
  have way: "under_way (receivers s) i (running_of t) =
      ?mine @ from_device (Some d) (posted r) @ carried (running_of t) i"
    by (simp add: under_way_def assms(8) r_def)
  have "\<forall>req \<in> set (requests r). Some (req ! 4) \<in> rc_device ` set (receivers s)"
    using known unfolding requests from_receivers_def by (auto simp: r_def xadd_request_def)
  moreover have "subseq ?mine (recorded_by (receivers s) i t)"
    using me way by (auto simp: thread_ok_def elim: subseq_order.order_trans [rotated])
  then have "subseq stream captured"
    unfolding stream captured by (rule subseq_map)
  moreover have "prefix stream captured" if "failed r = []"
  proof -
    have "recorded_by (receivers s) i t = ?mine @ from_device (Some d) (posted r) @ carried (running_of t) i"
      using me that unfolding way [symmetric] by (simp add: thread_ok_def r_def)
    then show ?thesis
      unfolding stream captured by (intro map_mono_prefix) simp
  qed
  moreover have "stream = captured" if "failed r = []" and fin: "phase r = Stopped \<and> \<not> timed_out r"
  proof -
    have "set (captures (running_of t)) \<subseteq> {Ended}"
      using stopped_ended [OF run] fin by (simp add: r_def)
    then have "carried (running_of t) i = []"
      using nth_mem by (fastforce simp: carried_def)
    then have "recorded_by (receivers s) i t = ?mine"
      using me way left fin that(1) by (simp add: thread_ok_def r_def)
    then show ?thesis unfolding stream captured by simp
  qed
  ultimately show ?thesis by blast
qed

section \<open>A packet recorded, then shut down\<close>

text \<open>The stored packet of \<open>demo_store_run\<close>, captured from two bytes.\<close>

definition demo_raw :: raw_packet where
  "demo_raw = \<lparr>raw_data = [10, 255], ts_sec = 0, ts_nsec = 1000\<rparr>"

definition demo_parsed :: parsed_packet where
  "demo_parsed = \<lparr>ip4_layer = Some (''192.0.2.1'', ''192.0.2.2''), ip6_layer = None, arp_layer = None,
     is_arp = False, is_tcp = False, is_udp = True, is_icmp = False\<rparr>"

definition demo_captured :: captured where
  "demo_captured = (\<lambda>_ _. True, demo_parsed, demo_raw)"

definition recording_config :: RuntimeConfig where
  "recording_config = default_config\<lparr>capture := \<lparr>ifaces = [], record_packets = True, debug_packets = False\<rparr>\<rparr>"

lemma recording_init:
  obtains s where "Init two_ports (PingReply ''PONG'') recording_config (shrew_new idle) = (Inr (), s)"
    and "receivers s = [(PcapReceiver True (Some ''eth0'') None True False)\<lparr>rc_capturing := True\<rparr>]"
  by (simp add: Init_def bindA_def modifyA_def make_store_def pure_def recording_config_def default_config_def
      RedisPacketStore_def ValidateConnection_def init_capture_def ResolveCaptureDevice_def two_ports_def OpenDevice_def
      TrackOpenedDevice_def start_receiver_def make_receiver_def PcapReceiver_def Receive_def clear_receivers_def
      CloseDevices_def shrew_new_def idle_def)

definition demo_state :: "nat \<Rightarrow> capture_thread \<Rightarrow> closing \<Rightarrow> traffic" where
  "demo_state k w cl = \<lparr>running_of = \<lparr>recording = demo_life ! k, captures = [w], planned = 0, closing = cl\<rparr>, heard = [(0, demo_captured)]\<rparr>"

lemma demo_call:
  assumes "after_call w e = Some v" and "store_event e (demo_life ! k) (demo_life ! j)"
  shows "traffic_step rs (demo_state k w cl) (demo_state j v cl)"
  using other_step [OF _ in_store [where s = "running_of (demo_state k w cl)" and i = 0], of w e v "demo_life ! j" rs] assms
  by (simp add: demo_state_def capture_at_def set_capture_def)

lemma demo_act:
  assumes "acts a e" and "a = Closing \<longrightarrow> cl = Cleared" and "store_event e (demo_life ! k) (demo_life ! j)"
  shows "traffic_step rs (demo_state k w cl) (demo_state j w cl)"
proof -
  have "a \<noteq> Arrival" using assms(1) by auto
  then show ?thesis
    using other_step [OF _ store_acts [where s = "running_of (demo_state k w cl)"], of a e "demo_life ! j" rs] assms
    by (simp add: demo_state_def)
qed

lemma demo_closes:
  "traffic_step rs (demo_state k w Open) (demo_state k w (StopCapture 0))"
  "traffic_step rs (demo_state k Listening (StopCapture 0)) (demo_state k Ended (StopCapture 0))"
  "traffic_step rs (demo_state k Ended (StopCapture 0)) (demo_state k Ended Cleared)"
  using other_step [where a = Closing and t = "demo_state k w Open" and rs = rs, OF _ begin_closing]
    other_step [where a = "Capture 0" and t = "demo_state k Listening (StopCapture 0)" and rs = rs, OF _ capture_ends]
    other_step [where a = Closing and t = "demo_state k Ended (StopCapture 0)" and rs = rs, OF _ capture_joined]
  by (simp_all add: demo_state_def capture_at_def set_capture_def stop_next_def)

definition demo_started :: traffic where
  "demo_started = \<lparr>running_of = \<lparr>recording = demo_life ! 0, captures = [Listening], planned = 0, closing = Open\<rparr>, heard = []\<rparr>"

lemma demo_starts:
  assumes "receivers s = [r]"
  shows "traffic_step rs (traffic_start demo_store s) demo_started"
  using other_step [OF _ receiver_starts, of "traffic_start demo_store s" rs] assms
  by (simp add: traffic_start_def running_start_def demo_started_def demo_life_def Let_def)

lemma demo_arrival:
  assumes "receivers s = [(PcapReceiver True (Some ''eth0'') None True False)\<lparr>rc_capturing := True\<rparr>]"
  shows "traffic_step (receivers s) demo_started (demo_state 0 (Storing demo_packet) Open)"
proof -
  have "map_option stores (onPacketArrives (\<lambda>_ _. True) ((PcapReceiver True (Some ''eth0'') None True False)\<lparr>rc_capturing := True\<rparr>)
      demo_parsed demo_raw) = Some [demo_packet]"
    by code_simp
  then obtain es where "onPacketArrives (\<lambda>_ _. True) (receivers s ! 0) demo_parsed demo_raw = Some es" "stores es = [demo_packet]"
    using assms by auto
  from to_store [OF _ this, of demo_started] show ?thesis
    using assms by (simp add: demo_started_def capture_at_def set_capture_def demo_state_def demo_captured_def
        hear_def demo_life_def Let_def)
qed

lemma demo_traffic:
  assumes "receivers s = [(PcapReceiver True (Some ''eth0'') None True False)\<lparr>rc_capturing := True\<rparr>]"
  shows "(traffic_step (receivers s))\<^sup>*\<^sup>* (traffic_start demo_store s) (demo_state 7 Ended Cleared)"
proof -
  let ?p = demo_packet
  note calls = demo_call [of "Storing ?p" "Reserve ?p" "Posting ?p", OF _ demo_events(1), of "receivers s" Open, simplified]
    demo_call [of "Posting ?p" "PostHandler ?p" Listening, OF _ demo_events(2), of "receivers s" Open, simplified]
  note io = demo_act [of IoThread HandlerExec Open, OF _ _ demo_events(3), of "receivers s" Listening, simplified]
    demo_act [of Redis Reply Open, OF _ _ demo_events(4), of "receivers s" Listening, simplified]
  note closes = demo_closes [of "receivers s" 4]
  note ends = demo_act [of Closing StopAccepting Cleared, OF _ _ demo_events(5), of "receivers s" Ended, simplified]
    demo_act [of Closing WaitDone Cleared, OF _ _ demo_events(6), of "receivers s" Ended, simplified]
    demo_act [of Closing StopIo Cleared, OF _ _ demo_events(7), of "receivers s" Ended, simplified]
  note run = rtranclp.rtrancl_refl rtranclp.rtrancl_into_rtrancl
  have "(traffic_step (receivers s))\<^sup>*\<^sup>* (traffic_start demo_store s) (demo_state 4 Listening Open)"
    using demo_starts [OF assms] demo_arrival [OF assms] calls io by (meson run)
  moreover have "(traffic_step (receivers s))\<^sup>*\<^sup>* (demo_state 4 Listening Open) (demo_state 4 Ended Cleared)"
    using closes(1) [of Listening] closes(2,3) by (meson run)
  moreover have "(traffic_step (receivers s))\<^sup>*\<^sup>* (demo_state 4 Ended Cleared) (demo_state 7 Ended Cleared)"
    using ends by (meson run)
  ultimately show ?thesis by (meson rtranclp_trans)
qed

theorem redis_stream_follows_capture_witness:
  "map written (filter (\<lambda>req. req ! 4 = ''eth0'') (requests (demo_life ! 7))) =
     [([''XADD'', ''elephantshrew:packets'', ''*''], ''eth0'', 2, Some [10, 255])]"
proof (rule recording_init)
  fix s
  assume init: "Init two_ports (PingReply ''PONG'') recording_config (shrew_new idle) = (Inr (), s)"
    and rs: "receivers s = [(PcapReceiver True (Some ''eth0'') None True False)\<lparr>rc_capturing := True\<rparr>]"
  have once: "starts_once two_ports snd"
    by (simp add: starts_once_def two_ports_def)
  have store: "RedisPacketStore (redis recording_config) (PingReply ''PONG'') = Inr demo_store"
    using demo_store_new by (simp add: recording_config_def)
  have heard: "heard_by 0 (demo_state 7 Ended Cleared) = [demo_captured]"
    by (simp add: heard_by_def demo_state_def)
  have r: "recording (running_of (demo_state 7 Ended Cleared)) = demo_life ! 7" "failed (demo_life ! 7) = []"
      "phase (demo_life ! 7) = Stopped" "\<not> timed_out (demo_life ! 7)"
    by (simp_all add: demo_state_def demo_life_def Let_def store_start_def)
  have "passed None [demo_captured] = [demo_raw]" and "raw_data demo_raw = [10, 255]" and "length (raw_data demo_raw) = 2"
    by (simp_all add: passed_def passes_def demo_captured_def demo_raw_def)
  then show ?thesis
    using redis_stream_follows_capture [OF two_ports_ok once init _ store demo_traffic [OF rs], of 0 "''eth0''",
        THEN conjunct2, THEN conjunct2, THEN mp, THEN conjunct2, THEN mp] r heard
    by (simp add: rs PcapReceiver_def recording_config_def default_config_def demo_captured_def)
qed

end
