(* ===== verification/Thread_Pool.thy ===== *)
theory Thread_Pool
  imports Shrew_Prelude
begin

text \<open>
  The thread pool of \<open>src/ThreadPool.cpp\<close> under every interleaving of its workers, of
  callers of \<open>Post\<close> and of the destructor. A step is one access to the shared state: taking
  the mutex, evaluating the wait's predicate, going to sleep on the condition variable
  (which releases the mutex in the same step), taking a job, running it, setting the flag,
  notifying. Jobs are values; a job runs in the step \<open>run_job\<close>.
\<close>

section \<open>State\<close>

text \<open>
  Where a worker is in \<open>Run\<close>: at the test of line 16, wanting the mutex of line 20, about to
  evaluate the predicate of line 21, found false and about to sleep, asleep, woken and
  wanting the mutex back, past the wait, running a job, returned.
\<close>

datatype 'j worker =
    AtTest | WantsLock | AtPredicate | ToSleep | Asleep | Woken | PastWait | Running 'j | Returned

text \<open>The destructor: not called, flag cleared (line 39), notified and joining (line 40).\<close>

datatype destructor = NotCalled | FlagCleared | Joining

record 'j pool =
  m_is_active :: bool
  m_pending_jobs :: "'j list"
  workers :: "'j worker list"
  guard :: "nat option"          \<comment> \<open>the worker that holds the mutex\<close>
  dtor :: destructor
  posts :: "'j list"             \<comment> \<open>every job posted, in order\<close>
  runs :: "'j list"              \<comment> \<open>every job started, in order\<close>

definition ThreadPool :: "nat \<Rightarrow> 'j pool" where
  "ThreadPool num_threads = \<lparr>m_is_active = True, m_pending_jobs = [], workers = replicate num_threads AtTest,
     guard = None, dtor = NotCalled, posts = [], runs = []\<rparr>"

text \<open>The predicate of the wait.\<close>

definition may_go :: "'j pool \<Rightarrow> bool" where
  "may_go s \<longleftrightarrow> m_pending_jobs s \<noteq> [] \<or> \<not> m_is_active s"

definition wake_all :: "'j worker list \<Rightarrow> 'j worker list" where
  "wake_all ws = map (\<lambda>w. if w = Asleep then Woken else w) ws"

section \<open>Steps\<close>

text \<open>Worker \<open>i\<close> being at \<open>w\<close>, and moving to \<open>w\<close>.\<close>

definition at :: "'j pool \<Rightarrow> nat \<Rightarrow> 'j worker \<Rightarrow> bool" where
  "at s i w \<longleftrightarrow> i < length (workers s) \<and> workers s ! i = w"

definition goto :: "nat \<Rightarrow> 'j worker \<Rightarrow> 'j pool \<Rightarrow> 'j pool" where
  "goto i w s = s\<lparr>workers := (workers s)[i := w]\<rparr>"

definition posted_job :: "'j \<Rightarrow> 'j pool \<Rightarrow> 'j pool" where
  "posted_job j s = s\<lparr>m_pending_jobs := m_pending_jobs s @ [j], posts := posts s @ [j]\<rparr>"

definition take_job :: "nat \<Rightarrow> 'j pool \<Rightarrow> 'j pool" where
  "take_job i s = (goto i (Running (hd (m_pending_jobs s))) s)\<lparr>m_pending_jobs := tl (m_pending_jobs s),
     guard := None, runs := runs s @ [hd (m_pending_jobs s)]\<rparr>"

text \<open>The kinds of steps: of a worker, of a caller of \<open>Post\<close>, of the destructor, or a spurious wake-up.\<close>

datatype label = Worker nat | Post | Destroy | Spurious nat

inductive pool_step :: "label \<Rightarrow> 'j pool \<Rightarrow> 'j pool \<Rightarrow> bool" where
  test_active: "at s i AtTest \<Longrightarrow> pool_step (Worker i) s (goto i (if m_is_active s then WantsLock else Returned) s)"
| acquire: "at s i WantsLock \<Longrightarrow> guard s = None \<Longrightarrow>
    pool_step (Worker i) s ((goto i AtPredicate s)\<lparr>guard := Some i\<rparr>)"
| evaluate: "at s i AtPredicate \<Longrightarrow> pool_step (Worker i) s (goto i (if may_go s then PastWait else ToSleep) s)"
| fall_asleep: "at s i ToSleep \<Longrightarrow> pool_step (Worker i) s ((goto i Asleep s)\<lparr>guard := None\<rparr>)"
| reacquire: "at s i Woken \<Longrightarrow> guard s = None \<Longrightarrow>
    pool_step (Worker i) s ((goto i AtPredicate s)\<lparr>guard := Some i\<rparr>)"
| leave: "at s i PastWait \<Longrightarrow> \<not> m_is_active s \<Longrightarrow>
    pool_step (Worker i) s ((goto i Returned s)\<lparr>guard := None\<rparr>)"
| dequeue: "at s i PastWait \<Longrightarrow> m_is_active s \<Longrightarrow> m_pending_jobs s \<noteq> [] \<Longrightarrow>
    pool_step (Worker i) s (take_job i s)"
| run_job: "at s i (Running j) \<Longrightarrow> pool_step (Worker i) s (goto i AtTest s)"
| post_wakes: "guard s = None \<Longrightarrow> at s i Asleep \<Longrightarrow> pool_step Post s (goto i Woken (posted_job j s))"
| post_none: "guard s = None \<Longrightarrow> Asleep \<notin> set (workers s) \<Longrightarrow> pool_step Post s (posted_job j s)"
| clear_flag: "dtor s = NotCalled \<Longrightarrow> pool_step Destroy s (s\<lparr>m_is_active := False, dtor := FlagCleared\<rparr>)"
| notify_all: "dtor s = FlagCleared \<Longrightarrow>
    pool_step Destroy s (s\<lparr>workers := wake_all (workers s), dtor := Joining\<rparr>)"
| spurious: "at s i Asleep \<Longrightarrow> pool_step (Spurious i) s (goto i Woken s)"

inductive_cases worker_stepE: "pool_step (Worker i) s s'"
inductive_cases destroy_stepE: "pool_step Destroy s s'"

definition any_step :: "'j pool \<Rightarrow> 'j pool \<Rightarrow> bool" where
  "any_step s s' \<longleftrightarrow> (\<exists>l. pool_step l s s')"

definition pool_reach :: "nat \<Rightarrow> 'j pool \<Rightarrow> bool" where
  "pool_reach n = any_step\<^sup>*\<^sup>* (ThreadPool n)"

lemma pool_init: "pool_reach n (ThreadPool n)"
  by (simp add: pool_reach_def)

lemma pool_next: "pool_reach n s \<Longrightarrow> pool_step l s s' \<Longrightarrow> pool_reach n s'"
  unfolding pool_reach_def using any_step_def by (blast intro: rtranclp.rtrancl_into_rtrancl)

text \<open>The destructor's joins return when every worker has returned.\<close>

definition joined :: "'j pool \<Rightarrow> bool" where
  "joined s \<longleftrightarrow> dtor s = Joining \<and> set (workers s) \<subseteq> {Returned}"

section \<open>The invariant\<close>

text \<open>The positions in which a worker holds the mutex.\<close>

definition holds :: "'j worker \<Rightarrow> bool" where
  "holds w \<longleftrightarrow> w = AtPredicate \<or> w = ToSleep \<or> w = PastWait"

definition some_awake :: "'j pool \<Rightarrow> bool" where
  "some_awake s \<longleftrightarrow> (\<exists>i w. at s i w \<and> w \<noteq> Asleep)"

definition pool_ok :: "'j pool \<Rightarrow> bool" where
  "pool_ok s \<longleftrightarrow>
     posts s = runs s @ m_pending_jobs s \<and>
     (\<forall>i w. at s i w \<longrightarrow> (holds w \<longleftrightarrow> guard s = Some i)) \<and>
     (\<forall>i. guard s = Some i \<longrightarrow> i < length (workers s)) \<and>
     (\<forall>i. at s i PastWait \<longrightarrow> may_go s) \<and>
     (\<forall>i. at s i ToSleep \<longrightarrow> m_pending_jobs s = []) \<and>
     (\<forall>i. at s i Returned \<longrightarrow> \<not> m_is_active s) \<and>
     (m_pending_jobs s \<noteq> [] \<longrightarrow> workers s \<noteq> [] \<longrightarrow> some_awake s)"

lemma pool_okD:
  assumes "pool_ok s"
  shows "posts s = runs s @ m_pending_jobs s"
    and "at s i w \<Longrightarrow> holds w \<longleftrightarrow> guard s = Some i"
    and "guard s = Some i \<Longrightarrow> i < length (workers s)"
    and "at s i PastWait \<Longrightarrow> may_go s"
    and "at s i ToSleep \<Longrightarrow> m_pending_jobs s = []"
    and "at s i Returned \<Longrightarrow> \<not> m_is_active s"
    and "m_pending_jobs s \<noteq> [] \<Longrightarrow> workers s \<noteq> [] \<Longrightarrow> some_awake s"
  using assms unfolding pool_ok_def by blast+

lemma pool_okI:
  assumes "posts s = runs s @ m_pending_jobs s"
    and "\<And>i w. at s i w \<Longrightarrow> holds w \<longleftrightarrow> guard s = Some i"
    and "\<And>i. guard s = Some i \<Longrightarrow> i < length (workers s)"
    and "\<And>i. at s i PastWait \<Longrightarrow> may_go s"
    and "\<And>i. at s i ToSleep \<Longrightarrow> m_pending_jobs s = []"
    and "\<And>i. at s i Returned \<Longrightarrow> \<not> m_is_active s"
    and "m_pending_jobs s \<noteq> [] \<Longrightarrow> workers s \<noteq> [] \<Longrightarrow> some_awake s"
  shows "pool_ok s"
  using assms unfolding pool_ok_def by blast

lemma at_goto: "at (goto i w s) j v \<longleftrightarrow> j < length (workers s) \<and> (if j = i then v = w else at s j v)"
  by (auto simp: at_def goto_def nth_list_update)

lemma goto_simps [simp]:
  "m_is_active (goto i w s) = m_is_active s" "m_pending_jobs (goto i w s) = m_pending_jobs s"
  "guard (goto i w s) = guard s" "dtor (goto i w s) = dtor s" "posts (goto i w s) = posts s" "runs (goto i w s) = runs s"
  "length (workers (goto i w s)) = length (workers s)" "may_go (goto i w s) = may_go s"
  by (simp_all add: goto_def may_go_def)

lemma at_update [simp]:
  "at (s\<lparr>guard := g\<rparr>) = at s" "at (s\<lparr>m_is_active := a\<rparr>) = at s" "at (s\<lparr>dtor := d\<rparr>) = at s"
  "at (s\<lparr>m_pending_jobs := q\<rparr>) = at s" "at (s\<lparr>posts := p\<rparr>) = at s" "at (s\<lparr>runs := r\<rparr>) = at s"
  by (simp_all add: at_def fun_eq_iff)

lemma at_unique: "at s i v \<Longrightarrow> at s i w \<Longrightarrow> v = w"
  by (simp add: at_def)

lemma at_exists: "i < length (workers s) \<Longrightarrow> at s i (workers s ! i)"
  by (simp add: at_def)

lemma pool_ok_init: "pool_ok (ThreadPool n)"
  by (auto simp: pool_ok_def ThreadPool_def holds_def at_def)

lemma at_less: "at s i v \<Longrightarrow> i < length (workers s)"
  by (simp add: at_def)

lemma awake_goto:
  assumes "at s i v" and "w \<noteq> Asleep"
  shows "some_awake (goto i w s)"
  unfolding some_awake_def using assms by (intro exI [of _ i] exI [of _ w]) (simp add: at_goto at_less)

lemma some_awake_update [simp]:
  "some_awake (s\<lparr>guard := g\<rparr>) = some_awake s" "some_awake (s\<lparr>m_is_active := a\<rparr>) = some_awake s"
  "some_awake (s\<lparr>dtor := d\<rparr>) = some_awake s" "some_awake (s\<lparr>m_pending_jobs := q\<rparr>) = some_awake s"
  "some_awake (s\<lparr>posts := p\<rparr>) = some_awake s" "some_awake (s\<lparr>runs := r\<rparr>) = some_awake s"
  by (simp_all add: some_awake_def)

lemma may_go_update [simp]:
  "may_go (s\<lparr>guard := g\<rparr>) = may_go s" "may_go (s\<lparr>dtor := d\<rparr>) = may_go s" "may_go (s\<lparr>workers := ws\<rparr>) = may_go s"
  by (simp_all add: may_go_def)

text \<open>Preservation, one kind of step at a time. A worker moves, without changing whether it holds the mutex:\<close>

lemma pool_ok_move:
  assumes "pool_ok s" and "at s i v" and "holds v = holds w" and "w \<noteq> Asleep"
    and "w = Returned \<Longrightarrow> \<not> m_is_active s" and "w = PastWait \<Longrightarrow> may_go s" and "w = ToSleep \<Longrightarrow> m_pending_jobs s = []"
  shows "pool_ok (goto i w s)"
proof (rule pool_okI)
  fix j u
  assume "at (goto i w s) j u"
  then show "holds u \<longleftrightarrow> guard (goto i w s) = Some j"
    using pool_okD(2) [OF assms(1)] assms(2,3) by (auto simp: at_goto split: if_splits)
qed (use assms(5,6,7) pool_okD [OF assms(1)] awake_goto [OF assms(2,4)] in \<open>auto simp: at_goto split: if_splits\<close>)

text \<open>A worker takes the free mutex:\<close>

lemma pool_ok_acquire:
  assumes "pool_ok s" and "at s i v" and "guard s = None"
  shows "pool_ok ((goto i AtPredicate s)\<lparr>guard := Some i\<rparr>)"
proof (rule pool_okI)
  fix j u
  assume "at ((goto i AtPredicate s)\<lparr>guard := Some i\<rparr>) j u"
  then show "holds u \<longleftrightarrow> guard ((goto i AtPredicate s)\<lparr>guard := Some i\<rparr>) = Some j"
    using pool_okD(2) [OF assms(1)] assms(3) by (auto simp: at_goto holds_def split: if_splits)
qed (use at_less [OF assms(2)] pool_okD [OF assms(1)] awake_goto [OF assms(2), of AtPredicate]
    in \<open>auto simp: at_goto split: if_splits\<close>)

text \<open>A worker that holds the mutex releases it:\<close>

lemma pool_ok_release:
  assumes "pool_ok s" and "at s i v" and "holds v" and "\<not> holds w"
    and "w = Returned \<Longrightarrow> \<not> m_is_active s" and "w = Asleep \<Longrightarrow> m_pending_jobs s = []"
  shows "pool_ok ((goto i w s)\<lparr>guard := None\<rparr>)"
proof (rule pool_okI)
  have mine: "guard s = Some i" using pool_okD(2) [OF assms(1,2)] assms(3) by simp
  fix j u
  assume "at ((goto i w s)\<lparr>guard := None\<rparr>) j u"
  then show "holds u \<longleftrightarrow> guard ((goto i w s)\<lparr>guard := None\<rparr>) = Some j"
    using pool_okD(2) [OF assms(1)] assms(4) mine by (auto simp: at_goto split: if_splits)
qed (use assms(4,5,6) pool_okD [OF assms(1)] awake_goto [OF assms(2), of w]
    in \<open>auto simp: at_goto holds_def split: if_splits\<close>)

text \<open>A worker at the front of the queue takes a job, in the order of posting:\<close>

lemma pool_ok_dequeue:
  assumes "pool_ok s" and "at s i PastWait" and "m_is_active s" and "m_pending_jobs s \<noteq> []"
  shows "pool_ok (take_job i s)"
proof (rule pool_okI)
  have mine: "guard s = Some i" using pool_okD(2) [OF assms(1,2)] by (simp add: holds_def)
  fix j u
  assume "at (take_job i s) j u"
  then show "holds u \<longleftrightarrow> guard (take_job i s) = Some j"
    using pool_okD(2) [OF assms(1)] mine by (auto simp: take_job_def at_goto holds_def split: if_splits)
next
  have mine: "guard s = Some i" using pool_okD(2) [OF assms(1,2)] by (simp add: holds_def)
  fix j
  assume "at (take_job i s) j PastWait"
  then have "at s j PastWait" and "j \<noteq> i"
    by (auto simp: take_job_def at_goto split: if_splits)
  then show "may_go (take_job i s)"
    using pool_okD(2) [OF assms(1)] mine by (fastforce simp: holds_def)
next
  have mine: "guard s = Some i" using pool_okD(2) [OF assms(1,2)] by (simp add: holds_def)
  fix j
  assume "at (take_job i s) j ToSleep"
  then have "at s j ToSleep"
    by (auto simp: take_job_def at_goto split: if_splits)
  then show "m_pending_jobs (take_job i s) = []"
    using pool_okD(5) [OF assms(1)] by (auto simp: take_job_def)
qed (use assms pool_okD [OF assms(1)] awake_goto [OF assms(2)] in \<open>auto simp: take_job_def at_goto split: if_splits\<close>)

text \<open>A job is posted under the free mutex:\<close>

lemma pool_ok_post:
  assumes "pool_ok s" and "guard s = None" and "workers s \<noteq> [] \<Longrightarrow> some_awake s"
  shows "pool_ok (posted_job j s)"
proof -
  have "\<not> at s i ToSleep" for i
    using pool_okD(2) [OF assms(1), of i ToSleep] assms(2) by (auto simp: holds_def)
  then show ?thesis
    using pool_okD [OF assms(1)] assms(3)
    by (intro pool_okI) (auto simp: posted_job_def may_go_def)
qed

lemma pool_ok_wake_all: "pool_ok s \<Longrightarrow> pool_ok (s\<lparr>workers := wake_all (workers s)\<rparr>)"
proof -
  assume ok: "pool_ok s"
  let ?s = "s\<lparr>workers := wake_all (workers s)\<rparr>"
  have at: "at ?s i w \<longleftrightarrow> w \<noteq> Asleep \<and> at s i w \<or> w = Woken \<and> at s i Asleep" for i w
    by (auto simp: at_def wake_all_def split: if_splits)
  have awake: "some_awake ?s" if "workers s \<noteq> []"
  proof -
    have "at ?s 0 (wake_all (workers s) ! 0)" and "wake_all (workers s) ! 0 \<noteq> Asleep"
      using that by (auto simp: wake_all_def at_def)
    then show ?thesis unfolding some_awake_def by blast
  qed
  then show ?thesis
    using pool_okD [OF ok] by (intro pool_okI) (auto simp: at holds_def, simp_all add: wake_all_def)
qed

lemma pool_ok_post_wakes:
  assumes "pool_ok s" and "guard s = None" and "at s i Asleep"
  shows "pool_ok (goto i Woken (posted_job j s))"
proof -
  have "pool_ok (goto i Woken s)"
    using pool_ok_move [OF assms(1,3), of Woken] by (simp add: holds_def)
  then have "pool_ok (posted_job j (goto i Woken s))"
    using assms(2) awake_goto [OF assms(3), of Woken] by (intro pool_ok_post) simp_all
  moreover have "goto i Woken (posted_job j s) = posted_job j (goto i Woken s)"
    by (simp add: goto_def posted_job_def)
  ultimately show ?thesis by simp
qed

lemma pool_ok_post_none:
  assumes "pool_ok s" and "guard s = None" and "Asleep \<notin> set (workers s)"
  shows "pool_ok (posted_job j s)"
proof -
  have "some_awake s" if "workers s \<noteq> []"
    using that assms(3) at_exists [of 0 s] unfolding some_awake_def
    by (metis length_greater_0_conv nth_mem)
  then show ?thesis
    using assms(1,2) by (intro pool_ok_post)
qed

text \<open>The destructor's two steps:\<close>

lemma pool_ok_clear: "pool_ok s \<Longrightarrow> pool_ok (s\<lparr>m_is_active := False, dtor := d\<rparr>)"
  using pool_okD [of s] by (intro pool_okI) (auto simp: may_go_def)

lemma pool_ok_notify: "pool_ok s \<Longrightarrow> pool_ok (s\<lparr>workers := wake_all (workers s), dtor := d\<rparr>)"
  using pool_okD [OF pool_ok_wake_all [of s]]
  by (intro pool_okI) (auto simp: may_go_def some_awake_def at_def)

lemma pool_ok_step:
  assumes "pool_step l s s'" and ok: "pool_ok s"
  shows "pool_ok s' \<and> length (workers s') = length (workers s)"
  using assms(1)
proof cases
  case (test_active i)
  then show ?thesis using pool_ok_move [OF ok test_active(3)] by (auto simp: holds_def)
next
  case (evaluate i)
  then show ?thesis using pool_ok_move [OF ok evaluate(3)] by (auto simp: holds_def may_go_def)
next
  case (fall_asleep i)
  then show ?thesis
    using pool_ok_release [OF ok fall_asleep(3), of Asleep] pool_okD(5) [OF ok] by (simp add: holds_def)
next
  case (leave i)
  then show ?thesis using pool_ok_release [OF ok leave(3), of Returned] by (simp add: holds_def)
next
  case (dequeue i)
  then show ?thesis using pool_ok_dequeue [OF ok] by (simp add: take_job_def)
next
  case (run_job i j)
  then show ?thesis using pool_ok_move [OF ok run_job(3)] by (auto simp: holds_def)
next
  case (spurious i)
  then show ?thesis using pool_ok_move [OF ok spurious(3)] by (auto simp: holds_def)
qed (use pool_ok_acquire [OF ok] pool_ok_post_wakes [OF ok] pool_ok_post_none [OF ok] pool_ok_clear [OF ok]
    pool_ok_notify [OF ok] in \<open>auto simp: posted_job_def wake_all_def\<close>)

interpretation pool: invariant_system "\<lambda>s. s = ThreadPool n" any_step "\<lambda>s. pool_ok s \<and> length (workers s) = n" for n
proof
  show "\<And>s. s = ThreadPool n \<Longrightarrow> pool_ok s \<and> length (workers s) = n"
    using pool_ok_init by (auto simp: ThreadPool_def)
  show "\<And>s s'. pool_ok s \<and> length (workers s) = n \<Longrightarrow> any_step s s' \<Longrightarrow> pool_ok s' \<and> length (workers s') = n"
    using pool_ok_step by (fastforce simp: any_step_def)
qed

lemma pool_reach_ok: "pool_reach n s \<Longrightarrow> pool_ok s \<and> length (workers s) = n"
  unfolding pool_reach_def by (rule pool.reached_ok [OF refl])

lemma awake_enabled:
  assumes ok: "pool_ok s" and "at s i w" and "w \<noteq> Asleep" and "m_is_active s"
  shows "\<exists>k s'. pool_step (Worker k) s s'"
proof (cases "guard s")
  case (Some k)
  then obtain v where v: "at s k v" and "holds v"
    using pool_okD(2,3) [OF ok] at_exists by blast
  then consider "v = AtPredicate" | "v = ToSleep" | "v = PastWait"
    by (auto simp: holds_def)
  then show ?thesis
  proof cases
    case 3
    then have "m_pending_jobs s \<noteq> []"
      using pool_okD(4) [OF ok] v assms(4) by (auto simp: may_go_def)
    then show ?thesis using dequeue v 3 assms(4) by blast
  qed (use v evaluate fall_asleep in blast)+
next
  case None
  then have "\<not> holds w" and "w \<noteq> Returned"
    using pool_okD(2,6) [OF ok] assms(2,4) by auto
  then consider "w = AtTest" | "w = WantsLock" | "w = Woken" | j where "w = Running j"
    using assms(3) by (cases w) (auto simp: holds_def)
  then show ?thesis
  proof cases
    case 1
    then show ?thesis using test_active assms(2) by blast
  next
    case 2
    then show ?thesis using acquire [OF _ None] assms(2) by blast
  next
    case 3
    then show ?thesis using reacquire [OF _ None] assms(2) by blast
  next
    case 4
    then show ?thesis using run_job [of s i] assms(2) by auto
  qed
qed

section \<open>Properties\<close>

text \<open>
  C37: Jobs run once and in order. Under every interleaving, the jobs posted are, in their
  order, the jobs started followed by the jobs still queued, so none runs twice, is
  overtaken or gets lost; two workers are never past the wait at once; and a worker that is
  about to take a job finds the queue non-empty.
\<close>

theorem pool_jobs_fifo:
  assumes "pool_reach n s"
  shows "posts s = runs s @ m_pending_jobs s \<and>
    (at s i PastWait \<and> at s j PastWait \<longrightarrow> i = j) \<and>
    (at s i PastWait \<and> m_is_active s \<longrightarrow> m_pending_jobs s \<noteq> [])"
proof -
  note D = pool_okD [OF pool_reach_ok [OF assms, THEN conjunct1]]
  have "holds PastWait" by (simp add: holds_def)
  then show ?thesis
    using D(1) D(2) [of i PastWait] D(2) [of j PastWait] D(4) [of i] by (auto simp: may_go_def)
qed

text \<open>
  C38: \<open>Post\<close> loses no wake-up. Before the destructor is called, whenever a job is queued
  some worker can make a step of its own, so a posted job never waits with every worker
  asleep.
\<close>

theorem pool_post_progress:
  assumes "pool_reach n s" and "0 < n" and "m_is_active s" and "m_pending_jobs s \<noteq> []"
  shows "\<exists>k s'. pool_step (Worker k) s s'"
proof -
  have ok: "pool_ok s" and "workers s \<noteq> []"
    using pool_reach_ok [OF assms(1)] assms(2) by auto
  then obtain i w where "at s i w" and "w \<noteq> Asleep"
    using pool_okD(7) [OF ok] assms(4) by (auto simp: some_awake_def)
  then show ?thesis using awake_enabled [OF ok] assms(3) by blast
qed

section \<open>The destructor\<close>

lemma goto_single: "workers s = [v] \<Longrightarrow> goto 0 w s = s\<lparr>workers := [w]\<rparr>"
  by (simp add: goto_def)

lemma step_to: "pool_reach n s \<Longrightarrow> pool_step l s s2 \<Longrightarrow> s2 = s3 \<Longrightarrow> pool_reach n s3"
  by (auto intro: pool_next)

text \<open>
  C40: The destructor can hang. It clears the flag and notifies without holding the mutex;
  with one idle worker that has just found the predicate false, both can happen before the
  worker sleeps. In the state reached then the destructor is joining, the worker sleeps,
  and no step of a worker or of the destructor is possible: only a spurious wake-up, which
  no implementation promises, could still end the join.
\<close>

theorem destructor_may_hang:
  "\<exists>s :: 'j pool. pool_reach 1 s \<and> dtor s = Joining \<and> \<not> joined s \<and>
     (\<nexists>i s'. pool_step (Worker i) s s') \<and> (\<nexists>s'. pool_step Destroy s s')"
proof -
  let ?start = "ThreadPool 1 :: 'j pool"
  let ?undecided = "?start\<lparr>workers := [ToSleep], guard := Some 0\<rparr>"
  let ?notified = "?undecided\<lparr>m_is_active := False, dtor := Joining\<rparr>"
  let ?hung = "?notified\<lparr>workers := [Asleep], guard := None\<rparr>"
  have "pool_reach 1 (?start\<lparr>workers := [WantsLock]\<rparr>)"
    by (rule step_to [OF pool_init test_active [of _ 0]]) (simp add: ThreadPool_def at_def goto_def)+
  then have "pool_reach 1 (?start\<lparr>workers := [AtPredicate], guard := Some 0\<rparr>)"
    by (rule step_to [OF _ acquire [of _ 0]]) (simp add: ThreadPool_def at_def goto_def)+
  then have "pool_reach 1 ?undecided"
    by (rule step_to [OF _ evaluate [of _ 0]]) (simp add: ThreadPool_def at_def goto_def may_go_def)+
  then have "pool_reach 1 (?undecided\<lparr>m_is_active := False, dtor := FlagCleared\<rparr>)"
    by (rule step_to [OF _ clear_flag]) (simp add: ThreadPool_def)+
  then have "pool_reach 1 ?notified"
    by (rule step_to [OF _ notify_all]) (simp add: ThreadPool_def wake_all_def)+
  then have "pool_reach 1 ?hung"
    by (rule step_to [OF _ fall_asleep [of _ 0]]) (simp add: ThreadPool_def at_def goto_def)+
  moreover have "\<nexists>i s'. pool_step (Worker i) ?hung s'"
    by (auto elim!: worker_stepE simp: at_def ThreadPool_def)
  moreover have "\<nexists>s'. pool_step Destroy ?hung s'"
    by (auto elim!: destroy_stepE)
  ultimately show ?thesis
    by (intro exI [of _ ?hung]) (auto simp: joined_def ThreadPool_def)
qed

section \<open>A run\<close>

definition one_posted :: "nat pool" where
  "one_posted = posted_job 7 (ThreadPool 1)"

lemma one_posted_reach: "pool_reach 1 one_posted"
  unfolding one_posted_def by (rule pool_next [OF pool_init post_none]) (simp_all add: ThreadPool_def)

theorem pool_jobs_fifo_witness: "posts one_posted = runs one_posted @ m_pending_jobs one_posted"
  using pool_jobs_fifo [OF one_posted_reach] by blast

theorem pool_post_progress_witness: "\<exists>k s'. pool_step (Worker k) one_posted s'"
  by (rule pool_post_progress [OF one_posted_reach])
    (simp_all add: one_posted_def posted_job_def ThreadPool_def)

end
