(* ===== verification/Task_Futures.thy ===== *)
theory Task_Futures
  imports Thread_Pool
begin

text \<open>
  The templates of \<open>inc/Executor.hpp\<close>, which post functions to an executor and hand out
  futures for their results, over the thread pool as the executor. The templates ask for a
  member \<open>post\<close> where \<open>ThreadPool\<close> has \<open>Post\<close>, so no instance of them compiles against that
  class; the model takes the one that forwards to \<open>Post\<close>. A job of the pool is the number of
  its task, in the order of posting.
\<close>

section \<open>Tasks and futures\<close>

text \<open>
  What the posted function does when it is called, and which overload posted it: \<open>post\<close>
  without a tag, with a tag for a function without a value, with a tag for one with a value.
\<close>

datatype ('v, 'e) outcome = Returns 'v | Throws 'e

datatype overload = PostVoid | PostVoidFuture | PostValueFuture

text \<open>\<open>use_future\<close> pairs a function with the tag, and the tag selects the overload.\<close>

definition use_future :: "'f \<Rightarrow> unit \<times> 'f" where
  "use_future func = ((), func)"

definition overload_of :: "bool \<Rightarrow> 'f + unit \<times> 'f \<Rightarrow> (overload \<times> 'f) option" where
  "overload_of is_void arg = (case arg of
     Inl func \<Rightarrow> if is_void then Some (PostVoid, func) else None
   | Inr (_, func) \<Rightarrow> Some (if is_void then PostVoidFuture else PostValueFuture, func))"

text \<open>The shared state of a future; without a tag the caller gets no future.\<close>

datatype ('v, 'e) shared = NoFuture | Pending | HasValue 'v | HasException 'e | BrokenPromise

definition initial_future :: "overload \<Rightarrow> ('v, 'e) shared" where
  "initial_future k = (if k = PostVoid then NoFuture else Pending)"

text \<open>
  Calling the task. A packaged task keeps an exception in its shared state; the forwarder of
  a function with a value is \<open>noexcept\<close>, so that there an exception ends the program
  (\<^const>\<open>None\<close>).
\<close>

fun call_task :: "overload \<Rightarrow> ('v, 'e) outcome \<Rightarrow> ('v, 'e) shared option" where
  "call_task PostVoid _ = Some NoFuture"
| "call_task PostVoidFuture (Returns v) = Some (HasValue v)"
| "call_task PostVoidFuture (Throws e) = Some (HasException e)"
| "call_task PostValueFuture (Returns v) = Some (HasValue v)"
| "call_task PostValueFuture (Throws e) = None"

text \<open>Destroying a task that was never called breaks its promise.\<close>

definition destroy_task :: "overload \<Rightarrow> ('v, 'e) shared" where
  "destroy_task k = (if k = PostVoid then NoFuture else BrokenPromise)"

section \<open>The executor\<close>

record ('v, 'e) executor =
  pool_of :: "nat pool"
  tasks :: "(overload \<times> ('v, 'e) outcome) list"
  futures :: "('v, 'e) shared list"
  destroyed :: bool
  terminated :: bool

definition executor_new :: "nat \<Rightarrow> ('v, 'e) executor" where
  "executor_new n = \<lparr>pool_of = ThreadPool n, tasks = [], futures = [], destroyed = False, terminated = False\<rparr>"

definition is_running :: "'j pool \<Rightarrow> 'j \<Rightarrow> bool" where
  "is_running p j \<longleftrightarrow> (\<exists>i. at p i (Running j))"

text \<open>The queue's tasks are destroyed with the pool, once its destructor has joined the workers.\<close>

definition abandon :: "('v, 'e) executor \<Rightarrow> ('v, 'e) shared list" where
  "abandon s = map (\<lambda>j. if j \<in> set (m_pending_jobs (pool_of s)) then destroy_task (fst (tasks s ! j)) else futures s ! j)
     [0..<length (futures s)]"

inductive executor_step :: "('v, 'e) executor \<Rightarrow> ('v, 'e) executor \<Rightarrow> bool" where
  pool_moves: "\<not> destroyed s \<Longrightarrow> \<not> terminated s \<Longrightarrow> pool_step l (pool_of s) p \<Longrightarrow> l \<noteq> Post \<Longrightarrow>
    (\<nexists>i j. l = Worker i \<and> at (pool_of s) i (Running j)) \<Longrightarrow>
    executor_step s (s\<lparr>pool_of := p\<rparr>)"
| post_task: "\<not> destroyed s \<Longrightarrow> \<not> terminated s \<Longrightarrow> pool_step Post (pool_of s) p \<Longrightarrow>
    posts p = posts (pool_of s) @ [length (tasks s)] \<Longrightarrow>
    executor_step s (s\<lparr>pool_of := p, tasks := tasks s @ [(k, out)], futures := futures s @ [initial_future k]\<rparr>)"
| task_ends: "\<not> destroyed s \<Longrightarrow> \<not> terminated s \<Longrightarrow> at (pool_of s) i (Running j) \<Longrightarrow> pool_step (Worker i) (pool_of s) p \<Longrightarrow>
    call_task (fst (tasks s ! j)) (snd (tasks s ! j)) = Some f \<Longrightarrow>
    executor_step s (s\<lparr>pool_of := p, futures := (futures s)[j := f]\<rparr>)"
| task_terminates: "\<not> destroyed s \<Longrightarrow> \<not> terminated s \<Longrightarrow> at (pool_of s) i (Running j) \<Longrightarrow>
    call_task (fst (tasks s ! j)) (snd (tasks s ! j)) = None \<Longrightarrow>
    executor_step s (s\<lparr>terminated := True\<rparr>)"
| pool_destroyed: "\<not> destroyed s \<Longrightarrow> \<not> terminated s \<Longrightarrow> joined (pool_of s) \<Longrightarrow>
    executor_step s (s\<lparr>futures := abandon s, destroyed := True\<rparr>)"

section \<open>Which jobs run\<close>

text \<open>A running job was started, and by one worker only, as long as no job is posted twice.\<close>

definition runs_once :: "'j pool \<Rightarrow> bool" where
  "runs_once p \<longleftrightarrow> (\<forall>i j. at p i (Running j) \<longrightarrow> j \<in> set (runs p)) \<and>
     (\<forall>i i' j. at p i (Running j) \<and> at p i' (Running j) \<longrightarrow> i = i')"

definition ended :: "'j pool \<Rightarrow> 'j \<Rightarrow> bool" where
  "ended p j \<longleftrightarrow> j \<in> set (runs p) \<and> \<not> is_running p j"

lemma at_Running_wake_all [simp]: "at (p\<lparr>workers := wake_all (workers p)\<rparr>) i (Running j) = at p i (Running j)"
  by (auto simp: at_def wake_all_def split: if_splits)

lemma at_posted [simp]: "at (posted_job j p) = at p"
  by (simp add: posted_job_def)

lemma at_Running_goto: "at p i v \<Longrightarrow> (\<And>j. v \<noteq> Running j) \<Longrightarrow> (\<And>j. w \<noteq> Running j) \<Longrightarrow>
    at (goto i w p) i' (Running j) = at p i' (Running j)"
  by (auto simp: at_goto at_less dest: at_unique)

lemma same_runs:
  assumes "\<And>i j. at q i (Running j) = at p i (Running j)" and "runs q = runs p"
  shows "runs_once q = runs_once p" and "ended q j = ended p j"
  using assms by (simp_all add: runs_once_def ended_def is_running_def)

text \<open>The start of a job:\<close>

lemma take_job_runs:
  assumes "distinct (posts p)" and "pool_ok p" and "runs_once p" and "at p i PastWait" and "m_pending_jobs p \<noteq> []"
  shows "runs_once (take_job i p) \<and> ended (take_job i p) j = ended p j"
proof -
  let ?j = "hd (m_pending_jobs p)"
  have new: "?j \<notin> set (runs p)"
    using assms(1,5) pool_okD(1) [OF assms(2)] by (auto simp: neq_Nil_conv)
  then have idle: "\<not> at p i' (Running ?j)" for i'
    using assms(3) by (auto simp: runs_once_def)
  have runs: "at (take_job i p) i' (Running j') \<longleftrightarrow> i' = i \<and> j' = ?j \<or> i' \<noteq> i \<and> at p i' (Running j')" for i' j'
    using assms(4) by (auto simp: take_job_def at_goto at_less)
  have "runs_once (take_job i p)"
    using assms(3) idle unfolding runs_once_def runs by (simp add: take_job_def) blast
  moreover have "ended (take_job i p) j = ended p j"
    using new idle at_unique [OF assms(4)] unfolding ended_def is_running_def runs by (fastforce simp: take_job_def)
  ultimately show ?thesis ..
qed

text \<open>A step of the pool that neither posts nor runs a job:\<close>

lemma pool_moves_runs:
  assumes "pool_step l p q" and "l \<noteq> Post" and "\<nexists>i j. l = Worker i \<and> at p i (Running j)"
    and "distinct (posts p)" and "pool_ok p" and "runs_once p"
  shows "posts q = posts p \<and> runs_once q \<and> (\<forall>j. ended q j = ended p j)"
  using assms(1)
proof cases
  case (dequeue i)
  then show ?thesis
    using take_job_runs [OF assms(4,5,6) dequeue(3,5)] by (simp add: take_job_def)
next
  case (run_job i j)
  then show ?thesis using assms(3) by blast
next
  case (test_active i)
  then show ?thesis using same_runs [of q p] assms(6) at_Running_goto [OF test_active(3)] by simp
next
  case (acquire i)
  then show ?thesis using same_runs [of q p] assms(6) at_Running_goto [OF acquire(3)] by simp
next
  case (evaluate i)
  then show ?thesis using same_runs [of q p] assms(6) at_Running_goto [OF evaluate(3)] by simp
next
  case (fall_asleep i)
  then show ?thesis using same_runs [of q p] assms(6) at_Running_goto [OF fall_asleep(3)] by simp
next
  case (reacquire i)
  then show ?thesis using same_runs [of q p] assms(6) at_Running_goto [OF reacquire(3)] by simp
next
  case (leave i)
  then show ?thesis using same_runs [of q p] assms(6) at_Running_goto [OF leave(3)] by simp
next
  case (spurious i)
  then show ?thesis using same_runs [of q p] assms(6) at_Running_goto [OF spurious(3)] by simp
qed (use assms(2,6) same_runs [of q p] in simp_all)

lemma posting_runs:
  assumes "pool_step Post p q" and "posts q = posts p @ [j]"
  shows "runs q = runs p \<and> m_pending_jobs q = m_pending_jobs p @ [j] \<and> (\<forall>i j. at q i (Running j) = at p i (Running j))"
  using assms(1)
proof cases
  case (post_wakes i j')
  then show ?thesis using assms(2) at_Running_goto [of "posted_job j' p" i Asleep Woken] by (simp add: posted_job_def)
next
  case (post_none j')
  then show ?thesis using assms(2) by (simp add: posted_job_def)
qed

lemma run_job_runs:
  assumes "pool_step (Worker i) p q" and "at p i (Running j)"
  shows "posts q = posts p \<and> runs q = runs p \<and>
    (\<forall>i' j'. at q i' (Running j') \<longleftrightarrow> i' \<noteq> i \<and> at p i' (Running j'))"
proof -
  have "q = goto i AtTest p"
    using assms by (auto elim!: worker_stepE dest: at_unique)
  then show ?thesis by (auto simp: at_goto at_less)
qed

lemma run_job_ends:
  assumes "pool_step (Worker i) p q" and "at p i (Running j)" and "runs_once p"
  shows "posts q = posts p" and "runs_once q" and "ended q j' \<longleftrightarrow> j' = j \<or> ended p j'"
proof -
  have same: "posts q = posts p" "runs q = runs p"
    and at: "\<And>i' j'. at q i' (Running j') \<longleftrightarrow> i' \<noteq> i \<and> at p i' (Running j')"
    using run_job_runs [OF assms(1,2)] by simp_all
  have started: "j \<in> set (runs p)" and alone: "\<And>i'. at p i' (Running j) \<longleftrightarrow> i' = i"
    using assms(2,3) unfolding runs_once_def by blast+
  have only: "at p i (Running j') \<longleftrightarrow> j' = j" for j'
    using assms(2) at_unique [OF assms(2)] by blast
  show "posts q = posts p" and "runs_once q"
    using same assms(3) unfolding runs_once_def at by (simp_all, blast)
  show "ended q j' \<longleftrightarrow> j' = j \<or> ended p j'"
    unfolding ended_def is_running_def at using same started alone only by metis
qed

section \<open>The invariant\<close>

definition future_ok :: "('v, 'e) executor \<Rightarrow> nat \<Rightarrow> bool" where
  "future_ok s j \<longleftrightarrow>
     (if ended (pool_of s) j then call_task (fst (tasks s ! j)) (snd (tasks s ! j)) = Some (futures s ! j)
      else futures s ! j = (if destroyed s then destroy_task else initial_future) (fst (tasks s ! j)))"

definition executor_ok :: "nat \<Rightarrow> ('v, 'e) executor \<Rightarrow> bool" where
  "executor_ok n s \<longleftrightarrow> pool_ok (pool_of s) \<and> length (workers (pool_of s)) = n \<and>
     posts (pool_of s) = [0..<length (tasks s)] \<and> length (futures s) = length (tasks s) \<and>
     runs_once (pool_of s) \<and> (\<forall>j < length (tasks s). future_ok s j) \<and>
     (destroyed s \<longrightarrow> joined (pool_of s)) \<and>
     (terminated s \<longrightarrow> (\<exists>j < length (tasks s). \<exists>e. tasks s ! j = (PostValueFuture, Throws e)))"

lemma executor_okD:
  assumes "executor_ok n s"
  shows "pool_ok (pool_of s)" and "length (workers (pool_of s)) = n" and "posts (pool_of s) = [0..<length (tasks s)]"
    and "length (futures s) = length (tasks s)" and "runs_once (pool_of s)"
    and "j < length (tasks s) \<Longrightarrow> future_ok s j" and "destroyed s \<Longrightarrow> joined (pool_of s)"
    and "terminated s \<Longrightarrow> \<exists>j < length (tasks s). \<exists>e. tasks s ! j = (PostValueFuture, Throws e)"
  using assms by (simp_all add: executor_ok_def)

lemma is_running_known:
  assumes "executor_ok n s" and "at (pool_of s) i (Running j)"
  shows "j < length (tasks s)"
proof -
  have "j \<in> set (posts (pool_of s))"
    using executor_okD(5) [OF assms(1)] pool_okD(1) [OF executor_okD(1) [OF assms(1)]] assms(2) by (auto simp: runs_once_def)
  then show ?thesis using executor_okD(3) [OF assms(1)] by simp
qed

lemma call_task_None: "call_task k out = None \<longleftrightarrow> k = PostValueFuture \<and> (\<exists>e. out = Throws e)"
  by (cases "(k, out)" rule: call_task.cases) auto

lemma executor_ok_step:
  assumes ok: "executor_ok n s" and "executor_step s s'"
  shows "executor_ok n s'"
  using assms(2)
proof cases
  case (pool_moves l p)
  note D = executor_okD [OF ok]
  have dist: "distinct (posts (pool_of s))" by (simp add: D(3))
  note M = pool_moves_runs [OF pool_moves(4,5,6) dist D(1,5)]
  have "pool_ok p \<and> length (workers p) = n"
    using pool_ok_step [OF pool_moves(4) D(1)] D(2) by simp
  then show ?thesis
    using M D pool_moves(1,2) by (simp add: executor_ok_def future_ok_def)
next
  case (post_task p k out)
  note D = executor_okD [OF ok]
  note M = posting_runs [OF post_task(4,5)]
  have p: "pool_ok p \<and> length (workers p) = n"
    using pool_ok_step [OF post_task(4) D(1)] D(2) by simp
  have ended: "ended p j = ended (pool_of s) j" for j
    using M by (simp add: ended_def is_running_def)
  have "\<not> ended p (length (tasks s))"
    using pool_okD(1) [OF D(1)] D(3) M by (auto simp: ended_def) (metis Un_iff atLeastLessThan_iff less_irrefl set_append set_upt)
  then have "future_ok s' j" if "j < length (tasks s')" for j
    using that D(4) D(6) [of j] post_task(1,2) ended by (auto simp: future_ok_def nth_append less_Suc_eq)
  then show ?thesis
    using p M D(3,4,5,8) post_task(1,2,3,5) by (auto simp: executor_ok_def runs_once_def nth_append less_Suc_eq)
next
  case (task_ends i j p f)
  note D = executor_okD [OF ok]
  have p: "pool_ok p \<and> length (workers p) = n"
    using pool_ok_step [OF task_ends(5) D(1)] D(2) by simp
  have j: "j < length (tasks s)"
    using ok task_ends(4) by (rule is_running_known)
  note E = run_job_ends [OF task_ends(5,4) D(5)]
  have "future_ok s' j'" if "j' < length (tasks s)" for j'
    using that D(4) D(6) [of j'] task_ends(1,6) E(3) by (cases "j' = j") (simp_all add: future_ok_def)
  then show ?thesis
    using p E(1,2) D task_ends(1,2) by (simp add: executor_ok_def)
next
  case (task_terminates i j)
  then show ?thesis
    using ok is_running_known [OF ok task_terminates(4)] unfolding executor_ok_def
    by (auto simp: future_ok_def call_task_None prod_eq_iff)
next
  case pool_destroyed
  note D = executor_okD [OF ok]
  have idle: "\<not> is_running (pool_of s) j" for j
    using pool_destroyed(4) by (auto simp: joined_def is_running_def at_def subset_iff dest!: nth_mem)
  have "future_ok s' j" if "j < length (tasks s)" for j
  proof -
    have "j \<in> set (posts (pool_of s))" and "distinct (posts (pool_of s))"
      using that by (simp_all add: D(3))
    then have "ended (pool_of s) j \<longleftrightarrow> j \<notin> set (m_pending_jobs (pool_of s))"
      using pool_okD(1) [OF D(1)] idle by (auto simp: ended_def)
    then show ?thesis
      using that D(4) D(6) [OF that] pool_destroyed(1,2) by (auto simp: future_ok_def abandon_def split: prod.splits)
  qed
  then show ?thesis
    using D pool_destroyed by (simp add: executor_ok_def abandon_def)
qed

lemma executor_ok_init: "executor_ok n (executor_new n)"
proof -
  have "\<not> at (ThreadPool n) i (Running j)" for i and j :: nat
    by (simp add: at_def ThreadPool_def)
  then show ?thesis
    using pool_ok_init by (simp add: executor_ok_def executor_new_def runs_once_def) (simp add: ThreadPool_def)
qed

interpretation executor: invariant_system "\<lambda>s. s = executor_new n" executor_step "executor_ok n" for n
  by unfold_locales (auto intro: executor_ok_init executor_ok_step)

lemma executor_reached_ok: "executor_step\<^sup>*\<^sup>* (executor_new n) s \<Longrightarrow> executor_ok n s"
  by (rule executor.reached_ok [OF refl])

section \<open>Properties\<close>

text \<open>
  C39: A future holds the result of its function, and is never left pending. Under every
  interleaving of callers, workers and the destructor, the future of a task that a worker
  has finished holds what its function returned or threw; the future of any other task is
  still as it was handed out while the pool lives, and its promise is broken once the pool
  is destroyed, when exactly the tasks left in the queue are those never finished.
\<close>

theorem future_exact:
  assumes "executor_step\<^sup>*\<^sup>* (executor_new n) s" and "j < length (tasks s)" and "tasks s ! j = (k, out)"
  shows "(if ended (pool_of s) j then call_task k out = Some (futures s ! j)
      else futures s ! j = (if destroyed s then destroy_task k else initial_future k)) \<and>
    \<not> (destroyed s \<and> futures s ! j = Pending) \<and>
    (ended (pool_of s) j \<longleftrightarrow> j \<notin> set (m_pending_jobs (pool_of s)) \<and> \<not> is_running (pool_of s) j)"
proof -
  note D = executor_okD [OF executor_reached_ok [OF assms(1)]]
  have "future_ok s j"
    using assms(2) by (rule D)
  then have future: "if ended (pool_of s) j then call_task k out = Some (futures s ! j)
      else futures s ! j = (if destroyed s then destroy_task k else initial_future k)"
    using assms(3) by (auto simp: future_ok_def split: if_splits)
  have "call_task k out \<noteq> Some Pending"
    by (cases "(k, out)" rule: call_task.cases) auto
  then have "destroyed s \<Longrightarrow> futures s ! j \<noteq> Pending"
    using future by (auto simp: destroy_task_def split: if_splits)
  moreover have "j \<in> set (posts (pool_of s))" and "distinct (posts (pool_of s))"
    using assms(2) by (simp_all add: D(3))
  ultimately show ?thesis
    using future pool_okD(1) [OF D(1)] by (auto simp: ended_def)
qed

text \<open>
  Only a function with a value can end the program. If the executor is terminated, some
  function posted with a tag for a value threw; exceptions of all other functions stay in
  their tasks.
\<close>

theorem only_values_terminate:
  assumes "executor_step\<^sup>*\<^sup>* (executor_new n) s" and "terminated s"
  shows "\<exists>j e. j < length (tasks s) \<and> tasks s ! j = (PostValueFuture, Throws e)"
  using executor_okD(8) [OF executor_reached_ok [OF assms(1)] assms(2)] by blast

section \<open>A run: one task, one worker\<close>

lemma executor_step_to: "executor_step\<^sup>*\<^sup>* s0 s \<Longrightarrow> executor_step s s2 \<Longrightarrow> s2 = s3 \<Longrightarrow> executor_step\<^sup>*\<^sup>* s0 s3"
  by (auto intro: rtranclp.rtrancl_into_rtrancl)

definition one_task :: "overload \<Rightarrow> ('v, 'e) outcome \<Rightarrow> nat worker \<Rightarrow> ('v, 'e) executor" where
  "one_task k out w = \<lparr>pool_of = (posted_job 0 (ThreadPool 1))\<lparr>workers := [w], guard := (if holds w then Some 0 else None)\<rparr>,
     tasks = [(k, out)], futures = [initial_future k], destroyed = False, terminated = False\<rparr>"

definition one_running :: "overload \<Rightarrow> ('v, 'e) outcome \<Rightarrow> ('v, 'e) executor" where
  "one_running k out = (one_task k out AtTest)\<lparr>pool_of := take_job 0 (posted_job 0 (ThreadPool 1))\<rparr>"

lemma one_running_reached: "executor_step\<^sup>*\<^sup>* (executor_new 1) (one_running k out)"
proof -
  have "executor_step\<^sup>*\<^sup>* (executor_new 1) (one_task k out AtTest)"
    by (rule executor_step_to [OF rtranclp.rtrancl_refl post_task [OF _ _ post_none [of _ 0], of _ k out]])
      (simp_all add: executor_new_def one_task_def ThreadPool_def posted_job_def holds_def)
  then have "executor_step\<^sup>*\<^sup>* (executor_new 1) (one_task k out WantsLock)"
    by (rule executor_step_to [OF _ pool_moves [OF _ _ test_active [of _ 0]]])
      (auto simp: one_task_def ThreadPool_def posted_job_def holds_def at_def goto_def)
  then have "executor_step\<^sup>*\<^sup>* (executor_new 1) (one_task k out AtPredicate)"
    by (rule executor_step_to [OF _ pool_moves [OF _ _ acquire [of _ 0]]])
      (auto simp: one_task_def ThreadPool_def posted_job_def holds_def at_def goto_def)
  then have "executor_step\<^sup>*\<^sup>* (executor_new 1) (one_task k out PastWait)"
    by (rule executor_step_to [OF _ pool_moves [OF _ _ evaluate [of _ 0]]])
      (auto simp: one_task_def ThreadPool_def posted_job_def holds_def at_def goto_def may_go_def)
  then show ?thesis
    by (rule executor_step_to [OF _ pool_moves [OF _ _ dequeue [of _ 0]]])
      (auto simp: one_running_def one_task_def ThreadPool_def posted_job_def take_job_def holds_def at_def goto_def)
qed

lemma one_running_simps:
  "at (pool_of (one_running k out)) i w \<longleftrightarrow> i = 0 \<and> w = Running 0" "tasks (one_running k out) = [(k, out)]"
  "\<not> destroyed (one_running k out)" "\<not> terminated (one_running k out)" "futures (one_running k out) = [initial_future k]"
  "m_pending_jobs (pool_of (one_running k out)) = []" "runs (pool_of (one_running k out)) = [0]"
  by (auto simp: one_running_def one_task_def take_job_def posted_job_def ThreadPool_def at_def goto_def)

theorem future_exact_witness:
  "\<exists>s :: (nat, string) executor. executor_step\<^sup>*\<^sup>* (executor_new 1) s \<and> futures s ! 0 = HasValue 2"
proof -
  let ?s = "one_running PostValueFuture (Returns 2) :: (nat, string) executor"
  have moves: "pool_step (Worker 0) (pool_of ?s) (goto 0 AtTest (pool_of ?s))"
    by (rule run_job [of _ 0 0]) (simp add: one_running_simps)
  let ?e = "?s\<lparr>pool_of := goto 0 AtTest (pool_of ?s), futures := (futures ?s)[0 := HasValue 2]\<rparr>"
  have "executor_step ?s ?e"
    by (rule task_ends [OF _ _ _ moves]) (simp_all add: one_running_simps)
  then have run: "executor_step\<^sup>*\<^sup>* (executor_new 1) ?e"
    using one_running_reached by (rule rtranclp.rtrancl_into_rtrancl [rotated])
  moreover have "ended (pool_of ?e) 0"
    by (auto simp: ended_def is_running_def at_goto one_running_simps)
  moreover have "call_task PostValueFuture (Returns 2 :: (nat, string) outcome) = Some (HasValue 2)"
    by simp
  ultimately show ?thesis
    using future_exact [OF run, of 0 PostValueFuture "Returns 2"]
    by (intro exI [of _ ?e]) (simp add: one_running_simps)
qed

theorem only_values_terminate_witness:
  "\<exists>(s :: (nat, string) executor) j e. terminated s \<and> tasks s ! j = (PostValueFuture, Throws e)"
proof -
  let ?s = "one_running PostValueFuture (Throws ''no value'') :: (nat, string) executor"
  have "executor_step ?s (?s\<lparr>terminated := True\<rparr>)"
    by (rule task_terminates [of _ 0 0]) (simp_all add: one_running_simps)
  then have run: "executor_step\<^sup>*\<^sup>* (executor_new 1) (?s\<lparr>terminated := True\<rparr>)"
    using one_running_reached by (rule rtranclp.rtrancl_into_rtrancl [rotated])
  then show ?thesis
    using only_values_terminate [OF run] by (intro exI [of _ "?s\<lparr>terminated := True\<rparr>"]) auto
qed

end
