(* ===== verification/Support_Code.thy ===== *)
theory Support_Code
  imports Shrew_Prelude
begin

text \<open>
  The code beside the capture service: the probe of BPF capabilities
  (\<open>src/EbpfCapabilities.cpp\<close>), the interface scanner (\<open>src/NetworkInterfaceScanner.cpp\<close>), the
  Redis connection test (\<open>src/boost_redis_tester.cpp\<close>), and the older frame of handlers and
  tasks (\<open>src/ElephantShrewSuper.cpp\<close>, \<open>src/InboundHandler.cpp\<close>, \<open>src/OutboundHandler.cpp\<close>,
  \<open>src/DataProcessor.cpp\<close>), whose thread functions have empty bodies.
\<close>

section \<open>The probe of BPF capabilities\<close>

text \<open>1 means supported, 0 not demonstrated, a negative number an error of the probe.\<close>

record CapabilityResult =
  cap_name :: string
  probe_result :: int

datatype bpf_prog_type = BPF_PROG_TYPE_SCHED_CLS
datatype bpf_map_type = BPF_MAP_TYPE_RINGBUF | BPF_MAP_TYPE_PERCPU_ARRAY | BPF_MAP_TYPE_LRU_PERCPU_HASH
datatype bpf_helper = BPF_FUNC_ringbuf_reserve | BPF_FUNC_skb_load_bytes

text \<open>The probes are libbpf's.\<close>

record probe_api =
  probe_prog_type :: "bpf_prog_type \<Rightarrow> int"
  probe_map_type :: "bpf_map_type \<Rightarrow> int"
  probe_helper :: "bpf_prog_type \<Rightarrow> bpf_helper \<Rightarrow> int"

definition ProbeEbpfCapabilities :: "probe_api \<Rightarrow> CapabilityResult list" where
  "ProbeEbpfCapabilities api =
     [\<lparr>cap_name = ''sched_cls'', probe_result = probe_prog_type api BPF_PROG_TYPE_SCHED_CLS\<rparr>,
      \<lparr>cap_name = ''ringbuf'', probe_result = probe_map_type api BPF_MAP_TYPE_RINGBUF\<rparr>,
      \<lparr>cap_name = ''percpu_array'', probe_result = probe_map_type api BPF_MAP_TYPE_PERCPU_ARRAY\<rparr>,
      \<lparr>cap_name = ''lru_percpu_hash'', probe_result = probe_map_type api BPF_MAP_TYPE_LRU_PERCPU_HASH\<rparr>,
      \<lparr>cap_name = ''tc_ringbuf_reserve'', probe_result = probe_helper api BPF_PROG_TYPE_SCHED_CLS BPF_FUNC_ringbuf_reserve\<rparr>,
      \<lparr>cap_name = ''tc_skb_load_bytes'', probe_result = probe_helper api BPF_PROG_TYPE_SCHED_CLS BPF_FUNC_skb_load_bytes\<rparr>]"

section \<open>The interface scanner\<close>

text \<open>
  What PcapPlusPlus answers about a device; an address is \<^const>\<open>None\<close> when it is the address
  \<open>Zero\<close>. \<open>getDeviceType\<close> answers an enumerator, of which the code uses the number.
\<close>

record live_device =
  getName :: string
  getIPv4Address :: "string option"
  getIPv6Address :: "string option"
  getMacAddress :: string
  getDeviceType :: nat

text \<open>
  A string literal plus a number is the literal from that position on; past its terminating
  zero the behaviour is undefined (\<^const>\<open>None\<close>).
\<close>

definition literal_plus :: "string \<Rightarrow> nat \<Rightarrow> string option" where
  "literal_plus literal n = (if n \<le> length literal then Some (drop n literal) else None)"

definition scan_device :: "live_device \<Rightarrow> string list option" where
  "scan_device dev = map_option (\<lambda>type_line.
     [''Interface: '' @ getName dev] @
     (case getIPv4Address dev of None \<Rightarrow> [] | Some a \<Rightarrow> [''  IPv4 Address: '' @ a]) @
     (case getIPv6Address dev of None \<Rightarrow> [] | Some a \<Rightarrow> [''  IPv6 Address: '' @ a]) @
     [''  Mac Address: '' @ getMacAddress dev, type_line])
     (literal_plus ''  Type: '' (getDeviceType dev))"

text \<open>The messages of \<open>Scan\<close>, in order.\<close>

fun Scan :: "live_device list \<Rightarrow> string list option" where
  "Scan [] = Some []"
| "Scan (dev # devList) = do {
     lines \<leftarrow> scan_device dev;
     rest \<leftarrow> Scan devList;
     Some (lines @ rest)
   }"

definition SavePackets :: int where
  "SavePackets = 0"

text \<open>
  The scanner says nothing of a device's type: devices that differ in nothing but the type,
  with enumerators up to the literal's length, get messages whose last line is a tail of the
  literal and the others equal.
\<close>

lemma scan_type_not_named:
  assumes "scan_device dev = Some lines"
  shows "\<exists>init. lines = init @ [drop (getDeviceType dev) ''  Type: ''] \<and>
    (\<forall>n \<le> 8. scan_device (dev\<lparr>getDeviceType := n\<rparr>) = Some (init @ [drop n ''  Type: '']))"
  using assms by (auto simp: scan_device_def literal_plus_def split: if_splits)

section \<open>The connection test\<close>

text \<open>
  What the connection is asked to do, and how a request ends: with an error code, which the
  coroutine throws, with an error that the server replied, which reading the response
  throws, or with a text.
\<close>

datatype connection_call = AsyncRun | AsyncExec "string list" | Cancel

datatype exec_end = ExecFailed string | ErrorReply string | TextReply string

definition co_main :: "(string list \<Rightarrow> exec_end) \<Rightarrow> connection_call list \<times> (string + string)" where
  "co_main exec =
     (let req = [''PING'', ''Hello world'']
      in case exec req of
           ExecFailed e \<Rightarrow> ([AsyncRun, AsyncExec req], Inl e)
         | ErrorReply e \<Rightarrow> ([AsyncRun, AsyncExec req, Cancel], Inl e)
         | TextReply resp \<Rightarrow> ([AsyncRun, AsyncExec req, Cancel], Inr (''PING: '' @ resp)))"

text \<open>The copy that the interface scanner's file holds.\<close>

definition scanner_co_main :: "(string list \<Rightarrow> exec_end) \<Rightarrow> connection_call list \<times> (string + string)" where
  "scanner_co_main exec =
     (let req = [''PING'', ''Hello world''];
          calls = [AsyncRun, AsyncExec req]
      in case exec req of
           ExecFailed e \<Rightarrow> (calls, Inl e)
         | ErrorReply e \<Rightarrow> (calls @ [Cancel], Inl e)
         | TextReply resp \<Rightarrow> (calls @ [Cancel], Inr (''PING: '' @ resp)))"

lemma scanner_co_main_same: "scanner_co_main = co_main"
  by (simp add: fun_eq_iff scanner_co_main_def co_main_def Let_def split: exec_end.split)

section \<open>Handlers and tasks\<close>

text \<open>The interfaces are their methods; an object of state \<open>'r\<close> may throw an error \<open>'e\<close>.\<close>

type_synonym ('r, 'e) operation = "'r \<Rightarrow> ('e + unit) \<times> 'r"

record ('r, 'e) InboundHandler = inbound_receiver :: "('r, 'e) operation"
record ('t, 'e) OutboundHandler = outbound_transmitter :: "('t, 'e) operation"

definition GetInbound :: "('r, 'e) InboundHandler \<Rightarrow> ('r, 'e) operation" where
  "GetInbound h = inbound_receiver h"

definition SendOutbound :: "('t, 'e) OutboundHandler \<Rightarrow> ('t, 'e) operation" where
  "SendOutbound h = outbound_transmitter h"

definition UdpReceiver_Receive :: "('r, 'e) operation" where
  "UdpReceiver_Receive r = (Inr (), r)"

definition UdpTransmitter_Transmit :: "('t, 'e) operation" where
  "UdpTransmitter_Transmit t = (Inr (), t)"

text \<open>A task has four operations; those of \<open>DataProcessor\<close> do nothing.\<close>

record ('d, 'e) ITask =
  DoTask :: "('d, 'e) operation"
  GetTaskStatus :: "('d, 'e) operation"
  KillTask :: "('d, 'e) operation"
  RestartTask :: "('d, 'e) operation"

definition DataProcessor :: "('d, 'e) ITask" where
  "DataProcessor = \<lparr>DoTask = Pair (Inr ()), GetTaskStatus = Pair (Inr ()), KillTask = Pair (Inr ()),
     RestartTask = Pair (Inr ())\<rparr>"

record ('d, 'r, 't, 'e) ElephantShrewSuper =
  m_processor :: "('d, 'e) ITask"
  m_ElephantShrewOutboundHandler :: "('t, 'e) OutboundHandler"
  m_ElephantShrewInboundHandler :: "('r, 'e) InboundHandler"
  m_processingOutputs :: "u64 list"
  m_isInboundStopped :: bool
  m_isOutboundStopped :: bool

definition ElephantShrewSuper_new ::
  "('d, 'e) ITask \<Rightarrow> ('t, 'e) OutboundHandler \<Rightarrow> ('r, 'e) InboundHandler \<Rightarrow> ('d, 'r, 't, 'e) ElephantShrewSuper" where
  "ElephantShrewSuper_new processor outbound inbound =
     \<lparr>m_processor = processor, m_ElephantShrewOutboundHandler = outbound, m_ElephantShrewInboundHandler = inbound,
      m_processingOutputs = [], m_isInboundStopped = False, m_isOutboundStopped = False\<rparr>"

definition inboundThreadFunction :: "('d, 'r, 't, 'e) ElephantShrewSuper \<Rightarrow> ('d, 'r, 't, 'e) ElephantShrewSuper" where
  "inboundThreadFunction s = s"

definition outboundThreadFunction :: "('d, 'r, 't, 'e) ElephantShrewSuper \<Rightarrow> ('d, 'r, 't, 'e) ElephantShrewSuper" where
  "outboundThreadFunction s = s"

text \<open>Both threads are joined, and neither touches the state, so their order does not matter.\<close>

definition super_Start :: "('d, 'r, 't, 'e) ElephantShrewSuper \<Rightarrow> ('d, 'r, 't, 'e) ElephantShrewSuper" where
  "super_Start s = outboundThreadFunction (inboundThreadFunction s)"

definition super_Stop :: "('d, 'r, 't, 'e) ElephantShrewSuper \<Rightarrow> ('d, 'r, 't, 'e) ElephantShrewSuper" where
  "super_Stop s = s\<lparr>m_isInboundStopped := True, m_isOutboundStopped := True\<rparr>"

lemma start_stop: "super_Start (super_Stop s) = super_Stop (super_Start s)"
  by (simp add: super_Start_def super_Stop_def inboundThreadFunction_def outboundThreadFunction_def)

end
