(* ===== verification/Unit_Tests.thy ===== *)
theory Unit_Tests
  imports Parser_Safety Telemetry_Types Spsc_Queue
begin

text \<open>
  The repository's own tests under \<open>tests/ebpf\<close>, run on the model: the frames of
  \<open>parser_test.cpp\<close>, the events of \<open>decoder_test.cpp\<close> and the single-threaded part of
  \<open>queue_test.cpp\<close>, with every assertion a conjunct. They check the definitions against the
  authors' expectations; the theorems elsewhere cover all inputs.
\<close>

section \<open>\<open>parser_test.cpp\<close>\<close>

definition U16 :: "nat \<Rightarrow> u16 \<Rightarrow> bytes \<Rightarrow> bytes" where
  "U16 i v b = b[i := ucast (drop_bit 8 v), i + 1 := ucast v]"

definition V4 :: "bool \<Rightarrow> bytes" where
  "V4 tcp =
     (let b = replicate (if tcp then 54 else 42) 0;
          b = (U16 12 0x0800 b)[14 := 0x45];
          b = (U16 16 (if tcp then 40 else 28) b)[23 := (if tcp then 6 else 17)];
          b = b[26 := 192, 29 := 1, 30 := 192, 33 := 2];
          b = U16 36 443 (U16 34 12345 b)
      in if tcp then b[46 := 0x50] else U16 38 8 b)"

definition V6 :: "nat \<Rightarrow> bytes" where
  "V6 extensions =
     (let b = replicate (62 + extensions * 8) 0;
          b = (U16 12 0x86dd b)[14 := 0x60];
          b = (U16 18 (word_of_nat (8 + extensions * 8)) b)[20 := (if extensions \<noteq> 0 then 0 else 17)];
          b = b[22 := 0x20, 38 := 0x20];
          b = fold (\<lambda>i b. b[54 + i * 8 := (if i + 1 = extensions then 17 else 0)]) [0..<extensions] b;
          off = 54 + extensions * 8
      in U16 (off + 4) 8 (U16 (off + 2) 443 (U16 off 12345 b)))"

definition Tagged :: "bytes \<Rightarrow> nat \<Rightarrow> bytes" where
  "Tagged b n = take 12 b @ concat (map (\<lambda>i. [0x81, 0, 0, word_of_nat (i + 1)]) [0..<n]) @ drop 12 b"

definition Parse :: "bytes \<Rightarrow> bool \<Rightarrow> (es_parse_status \<times> es_tuple) option" where
  "Parse b stripped = es_parse b (word_of_nat (length b)) (word_of_nat (length b)) stripped 7"

text \<open>\<open>assert(Parse(b, t) == st && P(t))\<close>.\<close>

definition gives :: "bool \<Rightarrow> bytes \<Rightarrow> es_parse_status \<Rightarrow> (es_tuple \<Rightarrow> bool) \<Rightarrow> bool" where
  "gives stripped b st P = (case Parse b stripped of None \<Rightarrow> False | Some (st', t) \<Rightarrow> st' = st \<and> P t)"

definition any :: "es_tuple \<Rightarrow> bool" where
  "any t = True"

definition no_ports_flag :: "es_tuple \<Rightarrow> bool" where
  "no_ports_flag t \<longleftrightarrow> \<not> has_flag (t_flags t) ES_T_PORTS_VALID"

lemma parser_test_ipv4:
  "gives False (V4 False) ES_PARSE_OK (\<lambda>t. has_flag (t_flags t) ES_T_PORTS_VALID \<and>
     be16_val (fst (t_sport t)) (snd (t_sport t)) = 12345 \<and> t_ip_version t = 4 \<and> t_l4_proto t = 17)"
  "gives False (U16 20 0x4000 (V4 False)) ES_PARSE_OK any"
  "gives False (U16 20 0x2000 (V4 False)) ES_PARSE_FRAGMENT no_ports_flag"
  "gives False (U16 20 1 (V4 False)) ES_PARSE_FRAGMENT any"
  "gives False ((V4 False)[14 := 0x44]) ES_PARSE_MALFORMED any"
  "gives False (U16 16 1000 (V4 False)) ES_PARSE_MALFORMED any"
  "gives False (U16 38 7 (V4 False)) ES_PARSE_MALFORMED any"
  "gives False (V4 True) ES_PARSE_OK (\<lambda>t. t_l4_proto t = 6)"
  "gives False ((V4 True)[46 := 0x40]) ES_PARSE_MALFORMED any"
  by code_simp+

lemma parser_test_truncated:
  "\<forall>cap \<in> set [0..<42]. map_option fst (es_parse (V4 False) (word_of_nat cap) 42 False 0) = Some ES_PARSE_TRUNCATED"
  "gives False (replicate 4 0) ES_PARSE_MALFORMED any"
  by code_simp+

lemma parser_test_vlan:
  "\<forall>n \<in> set [0..<3]. gives False (Tagged (V4 False) n) ES_PARSE_OK (\<lambda>t. unat (t_vlan_count t) = n)"
  "gives False (Tagged (V4 False) 3) ES_PARSE_UNSUPPORTED any"
  "gives True (Tagged (V4 False) 1) ES_PARSE_OK (\<lambda>t. t_vlan_count t = 2 \<and> t_vlan t ! 0 = 7)"
  "gives True (Tagged (V4 False) 2) ES_PARSE_UNSUPPORTED any"
  by code_simp+

lemma parser_test_ipv6:
  "\<forall>n \<in> set [0..<5]. gives False (V6 n) ES_PARSE_OK (\<lambda>t. t_ip_version t = 6)"
  "gives False (V6 5) ES_PARSE_UNSUPPORTED any"
  "gives False ((V6 1)[20 := 44]) ES_PARSE_FRAGMENT no_ports_flag"
  "gives False ((V6 0)[20 := 50]) ES_PARSE_UNSUPPORTED any"
  "gives False (U16 18 0 (V6 0)) ES_PARSE_UNSUPPORTED any"
  "gives False ((V6 0)[14 := 0x40]) ES_PARSE_MALFORMED any"
  by code_simp+

lemma parser_test_arp:
  "gives False ((U16 16 0x0800 (U16 14 1 (U16 12 0x0806 (replicate 42 0))))[18 := 6, 19 := 4, 28 := 192, 38 := 192])
     ES_PARSE_OK (\<lambda>t. has_flag (t_flags t) ES_T_ADDR_VALID \<and> no_ports_flag t)"
  "gives False (U16 12 0x88b5 (replicate 14 0)) ES_PARSE_UNSUPPORTED any"
  by code_simp+

section \<open>\<open>decoder_test.cpp\<close>\<close>

definition Good :: es_event where
  "Good = zero_event\<lparr>e_abi_version := ES_ABI_VERSION, e_record_size := 216, e_ifindex := 3, e_original_len := 42,
     e_hook := ES_HOOK_TC, e_link_type := ES_LINKTYPE_ETHERNET, e_parse_status := status_code ES_PARSE_OK\<rparr>"

definition refused :: "es_event \<Rightarrow> bool" where
  "refused e \<longleftrightarrow> DecodeEvent (Some (event_bytes e)) 216 = None"

lemma decoder_test:
  "DecodeEvent (Some (event_bytes Good)) 216 = Some Good"
  "DecodeEvent None 216 = None"
  "DecodeEvent (Some (event_bytes Good)) 215 = None"
  "refused (Good\<lparr>e_abi_version := 1\<rparr>)" "refused (Good\<lparr>e_record_size := 32\<rparr>)" "refused (Good\<lparr>e_direction := 2\<rparr>)"
  "refused (Good\<lparr>e_hook := 99\<rparr>)" "refused (Good\<lparr>e_captured_len := 43\<rparr>)"
  "refused (Good\<lparr>e_flags := ES_E_COPY_FAILED, e_captured_len := 1\<rparr>)"
  "refused (Good\<lparr>e_tuple := (e_tuple Good)\<lparr>t_flags := ES_T_PORTS_VALID\<rparr>\<rparr>)"
  "map_option (\<lambda>e. e_prefix e ! 0) (DecodeEvent (Some (event_bytes (Good\<lparr>e_captured_len := 4,
     e_prefix := (e_prefix Good)[0 := 0x42]\<rparr>))) 216) = Some 0x42"
  by code_simp+

section \<open>\<open>queue_test.cpp\<close>\<close>

lemma queue_test:
  "isl (SpscQueue (0 :: u64) 0)"
  "case SpscQueue (0 :: u64) 1 of Inl _ \<Rightarrow> False | Inr one \<Rightarrow>
     let (none, one) = TryPop one; (a, one) = TryPush one 9; (b, one) = TryPush one 10;
         (v, one) = TryPop one; (w, one) = TryPop one
     in none = None \<and> a \<and> \<not> b \<and> v = Some 9 \<and> w = None"
  by code_simp+

end
