(* ===== verification/Spec2Isabelle.thy ===== *)
theory Spec2Isabelle
  imports
    Parser_Capture Parser_Grammar Observer_Cpus Spsc_Interleaving Telemetry_Pipeline
    Abi_Layout Tc_Attachment Supervisor Recording_Pipeline Task_Futures
    Support_Code Unit_Tests
begin

text \<open>
  ElephantShrew: packet observation and forwarding in the Linux kernel (BPF programs), the
  telemetry they report to user space, and a user-space capture service that forwards
  packets between interfaces and records them in Redis. This development models all of its
  logic under \<open>src/\<close> and proves what makes each part, and the parts together, correct.

  \<^bold>\<open>The parts and how they interact.\<close> There are two pipelines.

  (1) Kernel telemetry. A packet passes \<open>es_ingress\<close> or \<open>es_egress\<close>; the observer parses it,
  counts it, updates the flow table and submits every n-th selected packet as an event to a
  ring buffer. User space loads the observer with its options (\<open>LoadObserver\<close>), attaches it to
  a clsact hook (\<open>TcAttachment\<close>), and polls the ring: \<open>OnEvent\<close> decodes each sample as
  untrusted bytes and pushes the record into a lock-free queue, from which the consumer
  pops. Shutting down detaches, then drains the ring for a bounded time. Next to the passive
  observer there are an active policy program and two XDP programs.

  (2) Capture. \<open>main\<close> parses the command line, loads the configuration, and runs the capture
  service again and again until a stop is requested. The service opens devices and starts
  receivers; a receiver's callback forwards a packet to its route and records it in the
  packet store, which hands bounded numbers of writes to the Redis connection.

  \<^bold>\<open>Theories\<close>, each with the source it models and what its lemmas show:

  \<^item> \<open>Shrew_Prelude\<close>: machine words, buffers with visible out-of-range reads, error results,
    and the locale \<open>invariant_system\<close> (a step relation with an invariant), which every
    component with threads interprets on its own steps.
  \<^item> \<open>Packet_Parser\<close> (\<open>bpf/packet_parser.bpf.h\<close>: \<open>es_parse\<close> and its helpers, one definition per
    block). \<open>Parser_Safety\<close>: no access outside the buffers, offsets do not overflow.
    \<open>Parser_Tuples\<close>: the invariant of the parsed tuple. \<open>Parser_Capture\<close>: how the answer
    depends on the captured length. \<open>Parser_Frames\<close>, \<open>Parser_Roundtrip\<close>: frames built from
    their fields are parsed back. \<open>Parser_Converse\<close>: bytes the parser goes through are such
    frames. \<open>Parser_Grammar\<close>: both directions together, the parser accepts exactly the frames
    of a grammar, with exactly their tuples.
  \<^item> \<open>Telemetry_Types\<close> (\<open>bpf/elephantshrew_shared.h\<close>, \<open>inc/TelemetryTypes.hpp\<close>): the shared
    structures with their memory layout, and \<open>DecodeEvent\<close>, which accepts exactly the images
    of valid events.
  \<^item> \<open>Tc_Observer\<close> (\<open>bpf/elephantshrew_tc.bpf.c\<close>), with \<open>Observer_Events\<close> (what is submitted
    decodes). A run as one CPU sees it, with nothing changed by another: \<open>Observer_Counters\<close>
    (counters and sampling) and \<open>Observer_Flows\<close> (the flow table). \<open>Observer_Cpus\<close>: all CPUs of
    a machine, with the counters of each, the ring they share, and the flow table whose keys
    they share and whose values each has a copy of.
  \<^item> \<open>Ebpf_Object\<close> (\<open>src/EbpfObject.cpp\<close>), \<open>Tc_Attachment\<close> (\<open>inc/TcAttachment.hpp\<close>):
    loading, attaching, detaching, with all their error paths.
  \<^item> \<open>Active_Policy\<close> (\<open>bpf/elephantshrew_active_tc.bpf.c\<close>) and \<open>Xdp_Programs\<close>
    (\<open>bpf/elephantshrew_xdp.bpf.c\<close>, \<open>bpf/elephantshrew_xsk.bpf.c\<close>): verdicts and counters.
  \<^item> \<open>Abi_Layout\<close> (both shared headers and the map declarations of the BPF programs): the
    structures under the layout rules of C, the header's assertions, the offsets of the
    fields in the byte images, the index ranges of the maps.
  \<^item> \<open>Spsc_Queue\<close> (\<open>inc/SpscQueue.hpp\<close>): whole calls refine a bounded list; the locale
    \<open>bounded_fifo\<close> is its contract, on which the telemetry rests. \<open>Spsc_Interleaving\<close>: the
    same queue access by access, under every interleaving of one producer and one consumer,
    which is what entitles the other theories to treat \<open>TryPush\<close> and \<open>TryPop\<close> as atomic.
  \<^item> \<open>Ebpf_Telemetry\<close> (\<open>src/EbpfTelemetry.cpp\<close>): the callback, the poller, the drain and the
    consumer as steps; accounting of samples. \<open>Telemetry_Pipeline\<close>: the observer's events as
    the samples of the telemetry component.
  \<^item> \<open>Runtime_Config\<close> (\<open>src/RuntimeConfig.cpp\<close>), \<open>Cli_Main\<close> and \<open>Supervisor\<close>
    (\<open>src/ElephantShrewMain.cpp\<close>, \<open>src/Bootstrapper.cpp\<close>): configuration, command line,
    signals and the stop flag, waiting loops, the life of the service, \<open>main\<close> with its exit
    code and all it writes to the console. The locale \<open>service\<close> is what the restart loop
    asks of the service it runs; \<open>RunCaptureService\<close> interprets it.
  \<^item> \<open>Capture_Service\<close> (\<open>src/ElephantShrew.cpp\<close>), \<open>Pcap_Receiver\<close> (\<open>src/PcapReceiver.cpp\<close>),
    \<open>Redis_Store\<close> (\<open>src/RedisPacketStore.cpp\<close>): devices, callbacks, bounded writes.
    \<open>Capture_Shutdown\<close> puts them together: \<open>Init\<close> starting the receivers, the capture threads,
    the store they share and the destructor of the service, with what holds whenever it runs, when it ends and when it
    cannot. \<open>Recording_Pipeline\<close> adds the packets that arrive: what Redis is given about a
    device is what was captured on it, in order.
  \<^item> \<open>Thread_Pool\<close> (\<open>src/ThreadPool.cpp\<close>) and \<open>Task_Futures\<close> (\<open>inc/Executor.hpp\<close>): jobs under
    every interleaving, and the futures of functions posted to the pool.
  \<^item> \<open>Support_Code\<close> (\<open>src/EbpfCapabilities.cpp\<close>, \<open>src/NetworkInterfaceScanner.cpp\<close>,
    \<open>src/boost_redis_tester.cpp\<close>, \<open>src/ElephantShrewSuper.cpp\<close> and the handlers, UDP classes
    and \<open>DataProcessor\<close>): the probe, the scanner's messages, the connection test, and code
    whose bodies are empty so far.
  \<^item> \<open>Unit_Tests\<close>: the assertions of the repository's tests under \<open>tests/ebpf\<close>, evaluated on
    the definitions above.
  \<^item> this theory: the properties that span components.

  \<^bold>\<open>How state and operations correspond.\<close> A struct or class is a record with the members'
  names, prefixed where two would clash; a method takes the record and returns it updated. An
  exception is the left summand of a result, a null pointer \<^const>\<open>None\<close>. Integers keep their
  width as words; \<open>std::size_t\<close> is \<open>u64\<close>. Threads are step relations whose steps are the
  critical sections or atomic accesses of the code, so that every interleaving is a run.
  Structures are laid out little-endian, as on the machines the programs are built for.

  \<^bold>\<open>What is a parameter.\<close> The kernel and its helpers (\<open>kernel_env\<close>, \<open>policy_env\<close>), libbpf and
  the generated skeletons (\<open>skeleton_api\<close>, \<open>tc_api\<close>), the JSON library (\<open>json_api\<close>),
  PcapPlusPlus (\<open>pcap_api\<close>), Redis's answers, clocks, and the signals delivered to the process
  between two looks at its stop flag. To the supervisor, whether a recording service that is
  destroyed lets itself be stopped is an answer of the world (\<open>sw_ends\<close>): it depends on
  Redis, as \<open>shutdown_completes\<close>, \<open>shutdown_blocked_iff\<close> and \<open>shutdown_may_hang\<close> show, and a
  service that does not makes \<open>main\<close> never return (\<open>main_never_returns\<close>). Where a property relies
  on their documented behaviour it is a named hypothesis (\<open>kernels_ok\<close>, \<open>tc_api_ok\<close>,
  \<open>pcap_api_ok\<close>, \<open>starts_once\<close>, \<open>policy_env_ok\<close>, \<open>redirect_map_ok\<close>), and its witness instantiates it.

  \<^bold>\<open>Bounds and fuel.\<close> The loops of the parser are unrolled as the code unrolls them: two VLAN
  tags and four extension headers, the limits in the source, so no fuel can run out. The
  drain takes its turns from a list of what libbpf delivers; it is proved to return once a
  clock reading reaches the deadline. \<open>SleepWithStopCheck\<close> terminates by the remaining time.
  \<open>WaitUntilStopRequested\<close> is a partial function, \<open>main\<close> takes one connection outcome per
  service; both are proved to return once a stop is requested and no recording service hangs in its
  shutdown (\<open>main_stops_clean\<close>). The shutdown of
  the recording service needs no fuel: \<open>work\<close> bounds the steps left, and every step of the
  service and of Redis lowers it once packets no longer arrive.

  \<^bold>\<open>Not modelled.\<close> What components other than \<open>main\<close> and the scanner write to the log, and
  the text of the start-up art, which is one token. The abstract interfaces under \<open>int/\<close>
  have no code, several files are empty, and a part of \<open>ThreadPool.cpp\<close> is disabled by the
  preprocessor. Memory allocation is assumed to succeed. Weak memory is not modelled: the
  acquire and release accesses of the queue make its interleavings sequentially consistent,
  and everything else shared is under a mutex or a sequentially consistent atomic. The kernel
  programs of different CPUs are interleaved packet by packet: each writes only its own CPU's
  counters and copies of flow values, and what another CPU does to the keys of the flow table
  while a packet is handled is part of the answer of \<open>flow_insert\<close>.
\<close>

section \<open>From the kernel to the consumer\<close>

text \<open>Options and kernel answers for the witnesses.\<close>

definition udp_options :: ObjectOptions where
  "udp_options = ObjectOptions_new\<lparr>oo_sample_every := 2, oo_snapshot_bytes := 64, oo_flow_enabled := True,
     oo_select_l4_proto := 17\<rparr>"

definition willing_api :: skeleton_api where
  "willing_api = \<lparr>sk_open = Inr \<lparr>rodata = udp_config, events_entries = 0, flows_entries = 0,
       autoload_ingress = True, autoload_egress = True\<rparr>,
     set_events_entries = (\<lambda>_. 0), set_flows_entries = (\<lambda>_. 0), set_autoload_ingress = (\<lambda>_. 0),
     set_autoload_egress = (\<lambda>_. 0), sk_load = (\<lambda>_. 0), map_fds = (\<lambda>_. (3, 4, 5))\<rparr>"

lemma udp_loaded:
  obtains l where "LoadObserver willing_api None udp_options Legacy = Inr l" and "rodata (owner l) = udp_config"
  by (simp add: LoadObserver_def LoadTyped_def willing_api_def udp_options_def ObjectOptions_new_def write_rodata_def
      Check_def Let_def udp_config_def)

text \<open>What a CPU submitted and lost, over both directions.\<close>

lemma cpu_accounts:
  assumes "sampling_exact cfg xs st" and "\<forall>e \<in> set (events st). event_valid e" and "sample_every cfg = n"
    and "counters st = cs"
  shows "length (events st) + (\<Sum>dir\<in>UNIV. unat (cs dir ES_C_RING_LOST)) =
    (if n = 0 then 0 else \<Sum>dir\<in>UNIV. length (chosen_in cfg dir xs) div unat n)"
proof -
  have "length (events st) + (\<Sum>dir\<in>UNIV. unat (cs dir ES_C_RING_LOST)) =
      (\<Sum>dir\<in>UNIV. length (events_of dir st) + unat (counters st dir ES_C_RING_LOST))"
    using events_by_direction [OF assms(2)] by (simp add: sum.distrib assms(4))
  then show ?thesis
    using assms(1,3) by (auto simp: sampling_exact_def)
qed

text \<open>
  C1: End-to-end accounting of telemetry. An observer loaded with some options runs on all
  CPUs over any sequence of fewer than 2^64 packets of one interface, and the events they
  submitted to the ring buffer are delivered to a fresh telemetry component as samples of that
  interface's source. Then the consumer's queue holds, in order, exactly the first
  \<open>capacity\<close> events, each with the source's namespace and session; the others are counted as
  dropped, none as undecodable or discarded; and the events submitted plus those the ring had
  no room for are, summed over CPUs and directions, the packets selected there divided by the
  \<open>sample_every\<close> of the options.
\<close>

theorem host_telemetry_end_to_end:
  assumes "LoadObserver legacy tcx o1 api = Inr l"
    and "kernels_ok xs" and "length xs < 2 ^ 64" and "\<forall>a \<in> set xs. skb_ifindex (fst (snd a)) = src_ifindex src"
    and "src_ifindex src \<noteq> 0"
    and run: "host_run (rodata (owner l)) xs host_start = Some h"
    and "EbpfTelemetry capacity = Inr p"
    and calls: "map snd calls = map (\<lambda>e. (src, event_bytes e)) (ring h)"
  shows "contents (im_queue (on_samples calls p)) = map (record_of src) (take (unat capacity) (ring h)) \<and>
    Loss (on_samples calls p) = \<lparr>decode_errors = 0,
      queue_dropped = word_of_nat (length (ring h) - unat capacity), shutdown_discarded = 0,
      poll_error = im_poll_error (on_samples calls p)\<rparr> \<and>
    length (ring h) + (\<Sum>c\<in>UNIV. \<Sum>dir\<in>UNIV. unat (cpu_counters h c dir ES_C_RING_LOST)) =
      (if oo_sample_every o1 = 0 then 0
       else \<Sum>c\<in>UNIV. \<Sum>dir\<in>UNIV.
         length (chosen_in (rodata (owner l)) dir (on_cpu c xs)) div unat (oo_sample_every o1))"
proof -
  let ?cfg = "rodata (owner l)"
  have valid: "\<forall>e \<in> set (ring h). event_valid e \<and> e_ifindex e = src_ifindex src"
    using assms(2,4,5,3) run by (rule host_run_events_valid)
  have every: "sample_every ?cfg = oo_sample_every o1"
    using assms(1) by (rule LoadObserver_sampling)
  have one: "length (events (cpu_observer c h)) + (\<Sum>dir\<in>UNIV. unat (cpu_counters h c dir ES_C_RING_LOST)) =
      (if oo_sample_every o1 = 0 then 0
       else \<Sum>dir\<in>UNIV. length (chosen_in ?cfg dir (on_cpu c xs)) div unat (oo_sample_every o1))" for c
    using host_run_exact [OF assms(2,3) run, of c] valid
    by (intro cpu_accounts) (auto simp: cpu_exact_def every cpu_observer_def cpu_events_def)
  show ?thesis
    unfolding length_ring sum.distrib [symmetric] one
    using fresh_telemetry [OF assms(7) valid calls] by (simp add: length_ring)
qed

text \<open>
  Four UDP packets on two CPUs, of which CPU 0 samples one, seen by a consumer with room for
  one record.
\<close>

theorem host_telemetry_end_to_end_witness:
  "\<exists>h calls. host_run udp_config two_cpu_arrivals host_start = Some h \<and> ring h \<noteq> [] \<and>
     contents (im_queue (on_samples calls demo_impl)) = map (record_of demo_source) (take 1 (ring h))"
proof (rule two_cpu_run)
  fix h
  assume run: "host_run udp_config two_cpu_arrivals host_start = Some h"
    and lost: "\<And>c. cpu_counters h c ES_INGRESS ES_C_RING_LOST = 0"
  obtain l where l: "LoadObserver willing_api None udp_options Legacy = Inr l" "rodata (owner l) = udp_config"
    by (rule udp_loaded)
  have "sample_every udp_config = 2"
    by (simp add: udp_config_def)
  then have "length (events_of ES_INGRESS (cpu_observer 0 h)) = 1"
    using host_run_exact [OF two_cpu_ok(1,2) run, of 0]
    by (auto simp: cpu_exact_def sampling_exact_def cpu_observer_def lost two_cpu_chosen dest!: spec [of _ ES_INGRESS])
  then have "ring h \<noteq> []"
    by (auto simp: events_of_def cpu_observer_def cpu_events_def)
  define calls :: "sample_call list" where "calls = map (\<lambda>e. (0, demo_source, event_bytes e)) (ring h)"
  have "map snd calls = map (\<lambda>e. (demo_source, event_bytes e)) (ring h)"
    by (simp add: calls_def)
  moreover have "\<forall>a \<in> set two_cpu_arrivals. skb_ifindex (fst (snd a)) = src_ifindex demo_source"
    and "src_ifindex demo_source \<noteq> 0"
    by (simp_all add: two_cpu_arrivals_def udp_arrivals_def udp_skb_def demo_source_def)
  ultimately show ?thesis
    using host_telemetry_end_to_end [OF l(1) two_cpu_ok(1,2), of demo_source h 1 demo_impl calls] run l(2)
      demo_new \<open>ring h \<noteq> []\<close>
    by auto
qed

text \<open>
  The same for one CPU whose maps no other changes. An observer loaded with some options runs over any
  sequence of fewer than 2^64 packets of one interface, and the events it submitted are
  delivered to a fresh telemetry component as samples of that interface's source. Then the
  consumer's queue holds, in order, exactly the first \<open>capacity\<close> events, each with the
  source's namespace and session; the others are counted as dropped, none as undecodable or
  discarded; and the events submitted plus those the ring had no room for are, per
  direction, the selected packets divided by the \<open>sample_every\<close> of the options.
\<close>

theorem telemetry_end_to_end:
  assumes "LoadObserver legacy tcx o1 api = Inr l"
    and "kernels_ok xs" and "length xs < 2 ^ 64" and "\<forall>a \<in> set xs. skb_ifindex (fst (snd a)) = src_ifindex src"
    and "src_ifindex src \<noteq> 0"
    and run: "observe_run (rodata (owner l)) xs observer_start = Some st"
    and "EbpfTelemetry capacity = Inr p"
    and calls: "map snd calls = map (\<lambda>e. (src, event_bytes e)) (events st)"
  shows "contents (im_queue (on_samples calls p)) = map (record_of src) (take (unat capacity) (events st)) \<and>
    Loss (on_samples calls p) = \<lparr>decode_errors = 0,
      queue_dropped = word_of_nat (length (events st) - unat capacity), shutdown_discarded = 0,
      poll_error = im_poll_error (on_samples calls p)\<rparr> \<and>
    length (events st) + (\<Sum>dir\<in>UNIV. unat (counters st dir ES_C_RING_LOST)) =
      (if oo_sample_every o1 = 0 then 0
       else \<Sum>dir\<in>UNIV. length (chosen_in (rodata (owner l)) dir xs) div unat (oo_sample_every o1))"
proof -
  have valid: "\<forall>e \<in> set (events st). event_valid e \<and> e_ifindex e = src_ifindex src"
    using assms(2,4,5) run by (rule observe_run_events_valid)
  have "sample_every (rodata (owner l)) = oo_sample_every o1"
    using assms(1) by (rule LoadObserver_sampling)
  then show ?thesis
    using fresh_telemetry [OF assms(7) valid calls] cpu_accounts [OF observe_run_invariants(2) [OF assms(2,3) run]]
      valid by simp
qed

text \<open>Three UDP packets, one of them sampled, seen by a consumer with room for one record.\<close>

theorem telemetry_end_to_end_witness:
  "\<exists>st calls. observe_run udp_config udp_arrivals observer_start = Some st \<and> length (events st) = 1 \<and>
     contents (im_queue (on_samples calls demo_impl)) = map (record_of demo_source) (events st)"
proof -
  obtain l where l: "LoadObserver willing_api None udp_options Legacy = Inr l" "rodata (owner l) = udp_config"
    by (rule udp_loaded)
  have "map_option (\<lambda>st. length (events st)) (observe_run udp_config udp_arrivals observer_start) = Some 1"
    by code_simp
  then obtain st where st: "observe_run udp_config udp_arrivals observer_start = Some st" "length (events st) = 1"
    by auto
  define calls :: "sample_call list" where "calls = map (\<lambda>e. (0, demo_source, event_bytes e)) (events st)"
  have "map snd calls = map (\<lambda>e. (demo_source, event_bytes e)) (events st)"
    by (simp add: calls_def)
  moreover have "\<forall>a \<in> set udp_arrivals. skb_ifindex (fst (snd a)) = src_ifindex demo_source" and "src_ifindex demo_source \<noteq> 0"
    by (simp_all add: udp_arrivals_def udp_skb_def demo_source_def)
  ultimately show ?thesis
    using telemetry_end_to_end [OF l(1) udp_arrivals_ok, of demo_source st 1 demo_impl calls] st l(2) demo_new
    by auto
qed

section \<open>From the wire to Redis\<close>

text \<open>
  What reaches Redis is what was captured, for the store by itself. If the packets a store
  took in are those that capture callbacks recorded, then every request it ever handed to
  its connection is an XADD to the configured stream that names the capturing device, gives
  the packet's length in decimal, and carries as its data a text that decodes to exactly the
  packet's bytes.
\<close>

theorem captured_packets_reach_redis:
  assumes "RedisPacketStore opts ping = Inr st" and "store_step\<^sup>*\<^sup>* (store_start st) s"
    and "\<forall>info \<in> set (taken_in s). \<exists>sendPacket r parsed raw es. length (raw_data raw) < 2 ^ 32 \<and>
      onPacketArrives sendPacket r parsed raw = Some es \<and> Stored info \<in> set es \<and> P r raw"
    and "req \<in> set (requests s)"
  shows "\<exists>r raw dev. P r raw \<and> rc_device r = Some dev \<and> length req = 17 \<and>
    take 3 req = [''XADD'', stream_key opts, ''*''] \<and> req ! 4 = dev \<and>
    decimal (req ! 12) = length (raw_data raw) \<and> unhex (req ! 16) = Some (raw_data raw)"
proof -
  have ok: "store_ok opts s"
    using assms(1,2) by (rule store_reached_ok)
  then obtain info where info: "info \<in> set (handed s)" and req: "req = xadd_request (stream_key opts) info"
    using assms(4) by (auto simp: store_ok_def)
  have "mset (handed s) \<subseteq># mset (taken_in s)"
    using ok by (simp add: store_ok_def subset_eq_diff_conv)
  then have "info \<in> set (taken_in s)"
    using info by (metis mset_subset_eqD set_mset_mset)
  then obtain sendPacket r parsed raw es where small: "length (raw_data raw) < 2 ^ 32" and r: "P r raw"
    and es: "onPacketArrives sendPacket r parsed raw = Some es" "Stored info \<in> set es"
    using assms(3) by blast
  from es obtain dev where dev: "rc_device r = Some dev" "info = recorded (packet_info dev parsed raw) raw"
    by (rule Stored_packet)
  show ?thesis
    using r dev recorded_fields [OF small dev(2)]
    by (intro exI [of _ r] exI [of _ raw] exI [of _ dev]) (simp add: req xadd_request_def decimal_to_string)
qed

text \<open>The receiver that captures \<^const>\<open>demo_raw\<close>.\<close>

definition demo_receiver :: receiver where
  "demo_receiver = PcapReceiver True (Some ''eth0'') None True False"

lemma demo_packet_captured: "onPacketArrives (\<lambda>_ _. True) demo_receiver demo_parsed demo_raw = Some [Stored demo_packet]"
  by code_simp

theorem captured_packets_reach_redis_witness:
  "\<exists>(s :: store_system) req. req \<in> set (requests s) \<and> length req = 17 \<and> req ! 4 = ''eth0'' \<and> decimal (req ! 12) = 2 \<and>
     unhex (req ! 16) = Some [10, 255]"
proof (rule demo_store_run)
  fix s
  assume run: "store_step\<^sup>*\<^sup>* (store_start demo_store) s" and "taken_in s = [demo_packet]" "handed s = [demo_packet]"
  have "store_ok (redis default_config) s"
    using store_reached_ok [OF demo_store_new run] .
  then obtain req where req: "req \<in> set (requests s)"
    using \<open>handed s = [demo_packet]\<close> by (auto simp: store_ok_def)
  have "\<exists>sendPacket r parsed raw es. length (raw_data raw) < 2 ^ 32 \<and> onPacketArrives sendPacket r parsed raw = Some es \<and>
      Stored demo_packet \<in> set es \<and> (r = demo_receiver \<and> raw = demo_raw)"
    by (intro exI [of _ "\<lambda>_ _. True"] exI [of _ demo_receiver] exI [of _ demo_parsed] exI [of _ demo_raw]
        exI [of _ "[Stored demo_packet]"]) (simp add: demo_packet_captured, simp add: demo_raw_def)
  then have "length req = 17 \<and> req ! 4 = ''eth0'' \<and> decimal (req ! 12) = 2 \<and> unhex (req ! 16) = Some [10, 255]"
    using captured_packets_reach_redis [OF demo_store_new run, of "\<lambda>r raw. r = demo_receiver \<and> raw = demo_raw" req] req
      \<open>taken_in s = [demo_packet]\<close>
    by (auto simp: demo_receiver_def PcapReceiver_def demo_raw_def)
  then show ?thesis using req by blast
qed

section \<open>Routing and the devices\<close>

text \<open>
  C28: A route from a file never sends a packet back. If the configuration in effect comes
  from a file or from the defaults, with no route on the command line, and \<open>Init\<close> succeeds
  with it, then no receiver forwards to the device it captures on: whatever packet arrives,
  nothing is sent to the capturing device.
\<close>

theorem file_route_never_reflects:
  assumes "LoadEffectiveConfig (LoadRuntimeConfigFromJson japi open_file parse) o1 = Inr c"
    and "route_spec o1 = None"
    and "pcap_api_ok api cap" and "Init api ping c (shrew_new k) = (Inr u, s)"
    and "r \<in> set (receivers s)"
    and "onPacketArrives sendPacket r parsed raw = Some es" and "Forwarded out raw' \<in> set es"
  shows "rc_device r \<noteq> Some out \<and> raw' = raw"
proof -
  have "routing_ok (routing c)"
    using effective_routing_ok [OF loaded_routing_ok assms(1,2)] .
  moreover have "r \<in> set (map (started (capture c)) (capture_plan api c))"
    using Init_Inr(1) [OF assms(4)] assms(5) by simp
  moreover have "rc_route r = Some out \<and> raw' = raw"
    using assms(6,7) by (rule Forwarded_packet)
  ultimately show ?thesis
    using plan_no_reflection by blast
qed

text \<open>The shipped file on a machine with the two interfaces it names.\<close>

definition file_options :: CliOptions where
  "file_options = CliOptions_new\<lparr>config_path := Some ''elephantshrew.json''\<rparr>"

lemma shipped_run:
  obtains c s r where
    "LoadEffectiveConfig (LoadRuntimeConfigFromJson value_api (\<lambda>_. Some ()) (\<lambda>_. Inr shipped_routing)) file_options = Inr c"
    and "Init two_ports PingTimeout c (shrew_new idle) = (Inr (), s)" and "r \<in> set (receivers s)"
    and "rc_route r = Some ''eth1''" and "rc_device r \<noteq> None" and "\<not> rc_record_packets r"
proof -
  let ?load = "LoadRuntimeConfigFromJson value_api (\<lambda>_. Some ()) (\<lambda>_. Inr shipped_routing)"
  have "(case LoadEffectiveConfig ?load file_options of Inl _ \<Rightarrow> False | Inr c \<Rightarrow>
      fst (Init two_ports PingTimeout c (shrew_new idle)) = Inr () \<and>
      list_all (\<lambda>r. rc_route r = Some ''eth1'' \<and> rc_device r \<noteq> None \<and> \<not> rc_record_packets r)
        (receivers (snd (Init two_ports PingTimeout c (shrew_new idle)))) \<and>
      receivers (snd (Init two_ports PingTimeout c (shrew_new idle))) \<noteq> [])"
    by code_simp
  then obtain c where c: "LoadEffectiveConfig ?load file_options = Inr c"
    and run: "fst (Init two_ports PingTimeout c (shrew_new idle)) = Inr ()"
    and all: "\<forall>r \<in> set (receivers (snd (Init two_ports PingTimeout c (shrew_new idle)))).
      rc_route r = Some ''eth1'' \<and> rc_device r \<noteq> None \<and> \<not> rc_record_packets r"
    and "receivers (snd (Init two_ports PingTimeout c (shrew_new idle))) \<noteq> []"
    by (auto simp: list_all_iff split: sum.splits)
  then obtain r where "r \<in> set (receivers (snd (Init two_ports PingTimeout c (shrew_new idle))))"
    by (meson last_in_set)
  moreover have "Init two_ports PingTimeout c (shrew_new idle) = (Inr (), snd (Init two_ports PingTimeout c (shrew_new idle)))"
    using run by (simp add: prod_eq_iff)
  ultimately show ?thesis
    using that c all by blast
qed

theorem file_route_never_reflects_witness:
  "\<exists>c s r. Init two_ports PingTimeout c (shrew_new idle) = (Inr (), s) \<and> r \<in> set (receivers s) \<and>
     rc_route r = Some ''eth1'' \<and> rc_device r \<noteq> Some ''eth1''"
proof (rule shipped_run)
  fix c s r
  assume run: "LoadEffectiveConfig (LoadRuntimeConfigFromJson value_api (\<lambda>_. Some ()) (\<lambda>_. Inr shipped_routing))
      file_options = Inr c" "Init two_ports PingTimeout c (shrew_new idle) = (Inr (), s)" "r \<in> set (receivers s)"
    and r: "rc_route r = Some ''eth1''" "rc_device r \<noteq> None" "\<not> rc_record_packets r"
  have "route_spec file_options = None"
    by (simp add: file_options_def CliOptions_new_def)
  moreover have "onPacketArrives (\<lambda>_ _. True) r parsed raw = Some [Forwarded ''eth1'' raw]" for parsed raw
    using r by (auto simp: onPacketArrives_def processPacket_def Let_def)
  ultimately have "rc_device r \<noteq> Some ''eth1''"
    using file_route_never_reflects [OF run(1) _ two_ports_ok run(2,3), of "\<lambda>_ _. True"] by fastforce
  with run(2,3) r(1) show ?thesis by blast
qed

end
